(* ===== verification/Prelude.thy ===== *)
theory Prelude
  imports Main "HOL-Library.Word"
begin

text \<open>
  Shared ground of the development: the C++ machine types, the ways an operation can fail, the
  sequencing of fallible steps, and the two standard-library algorithms the network code leans on
  (\<open>std::copy\<close> and \<open>std::vector::resize\<close>), each with the list equation the
  component proofs use.

  Class members lose the trailing underscore of the source (\<open>buffer_\<close> is written without
  it), because a name cannot end in one here.
\<close>

unbundle bit_operations_syntax

named_theorems step_simps \<open>evaluation of fallible steps and of their sequencing\<close>
named_theorems step_elims \<open>inversion of successful steps\<close>

section \<open>Machine types and failures\<close>

type_synonym byte = "8 word"
type_synonym bytes = "byte list"
type_synonym size_t = "64 word"
type_synonym u32 = "32 word"
type_synonym c_int = "32 word"
type_synonym ptr = "64 word"

text \<open>
  How an operation of the library can end other than by returning: \<open>LOG_FATAL\<close> exits the
  process, a null or a dead object is dereferenced, an empty \<open>std::function\<close> is called
  (\<open>std::bad_function_call\<close>), an array is accessed outside its bounds,
  \<open>std::vector\<close> refuses a size (\<open>std::length_error\<close>), or an \<open>int\<close> counter
  overflows, which C++ leaves undefined.
\<close>

datatype failure =
    Fatal
  | NullPointer
  | DanglingPointer
  | BadFunctionCall
  | OutOfBounds
  | LengthError
  | IntOverflow

section \<open>Sequencing fallible steps\<close>

definition bnd :: "'e + 'a \<Rightarrow> ('a \<Rightarrow> 'e + 'b) \<Rightarrow> 'e + 'b" where
  "bnd m f = (case m of Inl e \<Rightarrow> Inl e | Inr x \<Rightarrow> f x)"

lemma bnd_Inl [simp, step_simps]: "bnd (Inl e) f = Inl e"
  by (simp add: bnd_def)

lemma bnd_Inr [simp, step_simps]: "bnd (Inr x) f = f x"
  by (simp add: bnd_def)

lemma bnd_eq_Inr [step_simps]: "bnd m f = Inr y \<longleftrightarrow> (\<exists>x. m = Inr x \<and> f x = Inr y)"
  by (cases m) auto

lemma bnd_InrE [elim!, step_elims]:
  assumes "bnd m f = Inr y"
  obtains x where "m = Inr x" and "f x = Inr y"
  using assms by (auto simp: bnd_eq_Inr)

lemma bnd_eq_Inl: "bnd m f = Inl e \<longleftrightarrow> m = Inl e \<or> (\<exists>x. m = Inr x \<and> f x = Inl e)"
  by (cases m) auto

lemma bnd_assoc: "bnd (bnd m f) g = bnd m (\<lambda>x. bnd (f x) g)"
  by (cases m) auto

text \<open>A block of statements: each runs on the state the one before left, the first failure ends it.\<close>

fun run :: "('w \<Rightarrow> 'e + 'w) list \<Rightarrow> 'w \<Rightarrow> 'e + 'w" where
  "run [] w = Inr w"
| "run (f # fs) w = bnd (f w) (run fs)"

lemma run_append: "run (fs @ gs) w = bnd (run fs w) (run gs)"
  by (induction fs arbitrary: w) (auto simp: bnd_assoc, simp add: bnd_def split: sum.splits)

text \<open>
  What a block keeps is what each of its statements keeps: the one induction behind every
  invariant of a handler.
\<close>

lemma run_invariant:
  assumes "run fs w = Inr w'" and "P w"
    and "\<And>f v v'. f \<in> set fs \<Longrightarrow> P v \<Longrightarrow> f v = Inr v' \<Longrightarrow> P v'"
  shows "P w'"
  using assms
proof (induction fs arbitrary: w)
  case Nil
  then show ?case by simp
next
  case (Cons f fs)
  from Cons.prems(1) obtain v where v: "f w = Inr v" and rest: "run fs v = Inr w'"
    by auto
  from Cons.prems(2) v have "P v" by (rule Cons.prems(3)[rotated]) simp
  with rest show ?case by (rule Cons.IH) (use Cons.prems(3) in auto)
qed

lemma run_total:
  assumes "P w" and "\<And>f v. f \<in> set fs \<Longrightarrow> P v \<Longrightarrow> \<exists>v'. f v = Inr v' \<and> P v'"
  shows "\<exists>w'. run fs w = Inr w' \<and> P w'"
  using assms
proof (induction fs arbitrary: w)
  case Nil
  then show ?case by simp
next
  case (Cons f fs)
  then obtain v where "f w = Inr v" and "P v" by (meson list.set_intros(1))
  then show ?case using Cons.IH[of v] Cons.prems(2) by simp
qed

text \<open>Replacing the first statement of a block by a block that does the same under the invariant.\<close>

lemma run_stage:
  assumes "P w" and first: "\<And>v. P v \<Longrightarrow> f v = run gs v"
    and keep: "\<And>g v v'. g \<in> set gs \<Longrightarrow> P v \<Longrightarrow> g v = Inr v' \<Longrightarrow> P v'"
    and rest: "\<And>v. P v \<Longrightarrow> run fs v = run hs v"
  shows "run (f # fs) w = run (gs @ hs) w"
proof (cases "run gs w")
  case (Inl e)
  with assms(1) first show ?thesis by (simp add: run_append)
next
  case (Inr w')
  then have "P w'" using assms(1) keep by (rule run_invariant)
  with Inr assms(1) first rest show ?thesis by (simp add: run_append)
qed

section \<open>Standard-library algorithms on arrays\<close>

text \<open>
  \<open>std::copy\<close> of a foreign range into an array, element by element from the destination
  index on, and of a range of the array into the array itself. Both check what C++ leaves
  undefined: a range that leaves the array is \<^const>\<open>OutOfBounds\<close>.
\<close>

fun copy_in :: "'a list \<Rightarrow> 'a list \<Rightarrow> nat \<Rightarrow> 'a list" where
  "copy_in [] xs d = xs"
| "copy_in (y # ys) xs d = copy_in ys (xs[d := y]) (Suc d)"

function copy_within :: "'a list \<Rightarrow> nat \<Rightarrow> nat \<Rightarrow> nat \<Rightarrow> 'a list" where
  "copy_within xs s e d =
     (if s < e then copy_within (xs[d := xs ! s]) (Suc s) e (Suc d) else xs)"
  by pat_completeness auto
termination
  by (relation "measure (\<lambda>(xs, s, e, d). e - s)") auto

declare copy_within.simps [simp del]

definition std_copy_in :: "'a list \<Rightarrow> 'a list \<Rightarrow> nat \<Rightarrow> failure + 'a list" where
  "std_copy_in ys xs d =
     (if d + length ys \<le> length xs then Inr (copy_in ys xs d) else Inl OutOfBounds)"

definition std_copy_within :: "'a list \<Rightarrow> nat \<Rightarrow> nat \<Rightarrow> nat \<Rightarrow> failure + 'a list" where
  "std_copy_within xs s e d =
     (if s \<le> e \<and> e \<le> length xs \<and> d + (e - s) \<le> length xs
      then Inr (copy_within xs s e d) else Inl OutOfBounds)"

lemma length_copy_in [simp]: "length (copy_in ys xs d) = length xs"
  by (induction ys xs d rule: copy_in.induct) auto

lemma copy_in_eq:
  "d + length ys \<le> length xs \<Longrightarrow>
     copy_in ys xs d = take d xs @ ys @ drop (d + length ys) xs"
proof (induction ys xs d rule: copy_in.induct)
  case (1 xs d)
  then show ?case by simp
next
  case (2 y ys xs d)
  from "2.prems" have d: "d < length xs" by simp
  have "copy_in (y # ys) xs d = take (Suc d) (xs[d := y]) @ ys @ drop (Suc d + length ys) (xs[d := y])"
    using "2" by simp
  also have "take (Suc d) (xs[d := y]) = take d xs @ [y]"
    using d by (simp add: take_Suc_conv_app_nth)
  also have "drop (Suc d + length ys) (xs[d := y]) = drop (Suc d + length ys) xs"
    by simp
  finally show ?case by simp
qed

lemma length_copy_within [simp]: "length (copy_within xs s e d) = length xs"
proof (induction xs s e d rule: copy_within.induct)
  case (1 xs s e d)
  then show ?case by (subst copy_within.simps) simp
qed

text \<open>
  Copying towards the front is right even when source and destination overlap: the loop has
  always read a cell before it overwrites it.
\<close>

lemma copy_within_eq:
  "d \<le> s \<Longrightarrow> s \<le> e \<Longrightarrow> e \<le> length xs \<Longrightarrow>
     copy_within xs s e d = take d xs @ take (e - s) (drop s xs) @ drop (d + (e - s)) xs"
proof (induction xs s e d rule: copy_within.induct)
  case (1 xs s e d)
  show ?case
  proof (cases "s < e")
    case False
    with "1.prems" show ?thesis by (subst copy_within.simps) simp
  next
    case True
    let ?xs = "xs[d := xs ! s]"
    from True "1.prems" have d: "d < length xs" and s: "s < length xs" by auto
    have "copy_within xs s e d = copy_within ?xs (Suc s) e (Suc d)"
      using True by (subst copy_within.simps) simp
    also have "\<dots> = take (Suc d) ?xs @ take (e - Suc s) (drop (Suc s) ?xs)
        @ drop (Suc d + (e - Suc s)) ?xs"
      using "1.IH" True "1.prems" by simp
    also have "take (Suc d) ?xs = take d xs @ [xs ! s]"
      using d by (simp add: take_Suc_conv_app_nth)
    also have "drop (Suc s) ?xs = drop (Suc s) xs"
      using "1.prems" by simp
    also have "Suc d + (e - Suc s) = d + (e - s)"
      using True by simp
    also have "drop (d + (e - s)) ?xs = drop (d + (e - s)) xs"
      using True by simp
    also have "(take d xs @ [xs ! s]) @ take (e - Suc s) (drop (Suc s) xs) @ drop (d + (e - s)) xs
        = take d xs @ take (e - s) (drop s xs) @ drop (d + (e - s)) xs"
      using True s by (simp add: Cons_nth_drop_Suc [symmetric] Suc_diff_Suc [symmetric])
    finally show ?thesis .
  qed
qed

text \<open>
  \<open>std::vector<char>::resize\<close>: keeps the common prefix, fills with zeros, and throws
  \<open>std::length_error\<close> above \<open>max_size()\<close>, which is the largest pointer difference.
  Running out of memory (\<open>std::bad_alloc\<close>) is not modelled.
\<close>

definition vec_max_size :: size_t where
  "vec_max_size = 2 ^ 63 - 1"

definition vec_resize :: "size_t \<Rightarrow> bytes \<Rightarrow> failure + bytes" where
  "vec_resize n xs =
     (if vec_max_size < n then Inl LengthError
      else Inr (take (unat n) xs @ replicate (unat n - length xs) 0))"

lemma unat_vec_max_size: "unat vec_max_size = 2 ^ 63 - 1"
  by (simp add: vec_max_size_def)

lemma vec_resize_grow:
  "length xs \<le> unat n \<Longrightarrow> unat n < 2 ^ 63 \<Longrightarrow>
     vec_resize n xs = Inr (xs @ replicate (unat n - length xs) 0)"
  by (simp add: vec_resize_def word_less_nat_alt unat_vec_max_size)

lemma vec_resize_refuses: "2 ^ 63 \<le> unat n \<Longrightarrow> vec_resize n xs = Inl LengthError"
  by (simp add: vec_resize_def word_less_nat_alt unat_vec_max_size)

lemma vec_resize_length:
  "vec_resize n xs = Inr ys \<Longrightarrow> length ys = unat n \<and> length ys < 2 ^ 63"
  by (auto simp: vec_resize_def word_less_nat_alt unat_vec_max_size min_def split: if_splits)

text \<open>A length below \<open>2 ^ 64\<close> survives the conversion to \<open>size_t\<close>.\<close>

lemma unat_of_nat_size: "n < 2 ^ 64 \<Longrightarrow> unat (of_nat n :: size_t) = n"
  by (simp add: unat_of_nat)

lemma unat_diff: "(b :: size_t) \<le> a \<Longrightarrow> unat (a - b) = unat a - unat b"
  by (rule unat_sub)

lemma unat_sum: "unat (a :: size_t) + unat b < 2 ^ 64 \<Longrightarrow> unat (a + b) = unat a + unat b"
  using unat_add_lem [of a b] by simp

section \<open>Decimal numerals\<close>

text \<open>\<open>%u\<close> and \<open>%d\<close> of the \<open>printf\<close> family, on the non-negative numbers the code prints.\<close>

definition digit :: "nat \<Rightarrow> char" where
  "digit d = char_of (48 + d)"

fun show_nat :: "nat \<Rightarrow> string" where
  "show_nat n = (if n < 10 then [digit n] else show_nat (n div 10) @ [digit (n mod 10)])"

definition show_int :: "int \<Rightarrow> string" where
  "show_int i = (if i < 0 then ''-'' @ show_nat (nat (- i)) else show_nat (nat i))"

declare show_nat.simps [simp del]

definition read_nat :: "string \<Rightarrow> nat" where
  "read_nat s = foldl (\<lambda>n c. 10 * n + (of_char c - 48)) 0 s"

lemma of_char_digit [simp]: "d < 10 \<Longrightarrow> of_char (digit d) = 48 + d"
  by (simp add: digit_def)

lemma read_show_nat [simp]: "read_nat (show_nat n) = n"
proof (induction n rule: show_nat.induct)
  case (1 n)
  then show ?case by (subst show_nat.simps) (simp add: read_nat_def)
qed

lemma show_nat_inject: "show_nat m = show_nat n \<longleftrightarrow> m = n"
  by (metis read_show_nat)

lemma show_nat_digits: "c \<in> set (show_nat n) \<Longrightarrow> \<exists>d < 10. c = digit d"
proof (induction n rule: show_nat.induct)
  case (1 n)
  then show ?case by (subst (asm) (2) show_nat.simps) (auto split: if_splits intro: exI [of _ "n mod 10"])
qed

lemma show_nat_nonempty [simp]: "show_nat n \<noteq> []"
  by (subst show_nat.simps) simp

lemma length_show_nat: "n < 10 ^ Suc k \<Longrightarrow> length (show_nat n) \<le> Suc k"
proof (induction k arbitrary: n)
  case 0
  then show ?case by (subst show_nat.simps) simp
next
  case (Suc k)
  have "length (show_nat (n div 10)) \<le> Suc k" using Suc.prems by (intro Suc.IH) simp
  then show ?case by (subst show_nat.simps) simp
qed

text \<open>A numeral up to a separator is determined by what precedes the separator.\<close>

lemma separated_inject:
  assumes "c \<notin> set xs" and "c \<notin> set xs'"
  shows "xs @ c # ys = xs' @ c # ys' \<longleftrightarrow> xs = xs' \<and> ys = ys'"
proof
  assume eq: "xs @ c # ys = xs' @ c # ys'"
  have "takeWhile (\<lambda>x. x \<noteq> c) (xs @ c # ys) = xs" "takeWhile (\<lambda>x. x \<noteq> c) (xs' @ c # ys') = xs'"
    using assms by (auto simp: takeWhile_append takeWhile_eq_all_conv)
  with eq show "xs = xs' \<and> ys = ys'" by simp
qed simp

end
