(* ===== verification/Kernel.thy ===== *)
theory Kernel
  imports Prelude
begin

text \<open>
  The operating system under the library. The kernel is not code of the repository: it is a
  parameter of the model, a record \<open>os\<close> of functions that answer each system call from the
  history of calls made so far and the call's arguments, so that every behaviour of a kernel is
  some value of that parameter. Each call is appended to the \<open>trace\<close> of the world together
  with its answer; what the kernel's own tables hold (the epoll interest list, the eventfd
  counter, the bytes accepted on a socket) is a function of that trace. The documented guarantees
  the library relies on are named predicates on \<open>os\<close>, and \<open>demo_os\<close> is a concrete
  kernel that satisfies them.
\<close>

unbundle bit_operations_syntax

section \<open>Calls and answers\<close>

datatype errno =
    EWOULDBLOCK
  | EINTR
  | EPIPE
  | ECONNRESET
  | EMFILE
  | EEXIST
  | ENOENT
  | EOther nat

datatype ctl_op = EPOLL_CTL_ADD | EPOLL_CTL_MOD | EPOLL_CTL_DEL

text \<open>\<open>struct epoll_event\<close>: the event mask and the 64 bits of the \<open>epoll_data\<close> union.\<close>

record epoll_event =
  ee_events :: u32
  ee_data :: "64 word"

datatype sockopt = SO_KEEPALIVE | SO_REUSEADDR | SO_REUSEPORT | TCP_NODELAY

datatype log_level = INFO | ERROR | FATAL | DEBUG

datatype event =
    EvReadv c_int "size_t list" "errno + bytes"
  | EvWrite c_int bytes "errno + nat"
  | EvRead c_int size_t "errno + bytes"
  | EvEpollCtl c_int ctl_op c_int epoll_event "errno option"
  | EvEpollWait c_int nat "errno + epoll_event list"
  | EvShutdown c_int "errno option"
  | EvGetsockopt c_int "errno + errno option"
  | EvEpollCreate "errno + c_int"
  | EvEventfd "errno + c_int"
  | EvClose c_int
  | EvSocket "errno + c_int"
  | EvSetsockopt c_int sockopt bool
  | EvBind c_int bytes "errno option"
  | EvListen c_int nat "errno option"
  | EvAccept c_int u32 "errno + c_int \<times> bytes"
  | EvGetsockname c_int "errno + bytes"
  | EvLog log_level

text \<open>
  Functions from the history to the answer; an address is the bytes of its structure. A negative return value with \<open>errno\<close> is
  \<open>Inl errno\<close> (or \<open>Some errno\<close> for the calls that return nothing else).
\<close>

record os =
  os_readv :: "event list \<Rightarrow> c_int \<Rightarrow> size_t list \<Rightarrow> errno + bytes"
  os_write :: "event list \<Rightarrow> c_int \<Rightarrow> bytes \<Rightarrow> errno + nat"
  os_read :: "event list \<Rightarrow> c_int \<Rightarrow> size_t \<Rightarrow> errno + bytes"
  os_epoll_ctl :: "event list \<Rightarrow> c_int \<Rightarrow> ctl_op \<Rightarrow> c_int \<Rightarrow> epoll_event \<Rightarrow> errno option"
  os_epoll_wait :: "event list \<Rightarrow> c_int \<Rightarrow> nat \<Rightarrow> errno + epoll_event list"
  os_shutdown :: "event list \<Rightarrow> c_int \<Rightarrow> errno option"
  os_getsockopt :: "event list \<Rightarrow> c_int \<Rightarrow> errno + errno option"
  os_epoll_create :: "event list \<Rightarrow> errno + c_int"
  os_eventfd :: "event list \<Rightarrow> errno + c_int"
  os_socket :: "event list \<Rightarrow> errno + c_int"
  os_bind :: "event list \<Rightarrow> c_int \<Rightarrow> bytes \<Rightarrow> errno option"
  os_listen :: "event list \<Rightarrow> c_int \<Rightarrow> nat \<Rightarrow> errno option"
  os_accept :: "event list \<Rightarrow> c_int \<Rightarrow> u32 \<Rightarrow> errno + c_int \<times> bytes"
  os_getsockname :: "event list \<Rightarrow> c_int \<Rightarrow> errno + bytes"
  os_time :: "event list \<Rightarrow> int"

text \<open>The part of the world every operation can touch: the calls made so far, oldest first.\<close>

record kworld =
  trace :: "event list"

definition emit :: "event \<Rightarrow> 'a kworld_scheme \<Rightarrow> 'a kworld_scheme" where
  "emit e w = w\<lparr>trace := trace w @ [e]\<rparr>"

lemma trace_emit [simp]: "trace (emit e w) = trace w @ [e]"
  by (simp add: emit_def)

definition log_msg :: "log_level \<Rightarrow> 'a kworld_scheme \<Rightarrow> 'a kworld_scheme" where
  "log_msg l = emit (EvLog l)"

lemma trace_log_msg [simp]: "trace (log_msg l w) = trace w @ [EvLog l]"
  by (simp add: log_msg_def)

definition sys_readv ::
  "os \<Rightarrow> c_int \<Rightarrow> size_t list \<Rightarrow> 'a kworld_scheme \<Rightarrow> (errno + bytes) \<times> 'a kworld_scheme" where
  "sys_readv os fd iov w =
     (let r = os_readv os (trace w) fd iov in (r, emit (EvReadv fd iov r) w))"

definition sys_write ::
  "os \<Rightarrow> c_int \<Rightarrow> bytes \<Rightarrow> 'a kworld_scheme \<Rightarrow> (errno + nat) \<times> 'a kworld_scheme" where
  "sys_write os fd d w = (let r = os_write os (trace w) fd d in (r, emit (EvWrite fd d r) w))"

definition sys_read ::
  "os \<Rightarrow> c_int \<Rightarrow> size_t \<Rightarrow> 'a kworld_scheme \<Rightarrow> (errno + bytes) \<times> 'a kworld_scheme" where
  "sys_read os fd n w = (let r = os_read os (trace w) fd n in (r, emit (EvRead fd n r) w))"

definition sys_epoll_ctl ::
  "os \<Rightarrow> c_int \<Rightarrow> ctl_op \<Rightarrow> c_int \<Rightarrow> epoll_event \<Rightarrow> 'a kworld_scheme
     \<Rightarrow> errno option \<times> 'a kworld_scheme" where
  "sys_epoll_ctl os ep op fd ev w =
     (let r = os_epoll_ctl os (trace w) ep op fd ev in (r, emit (EvEpollCtl ep op fd ev r) w))"

definition sys_epoll_wait ::
  "os \<Rightarrow> c_int \<Rightarrow> nat \<Rightarrow> 'a kworld_scheme \<Rightarrow> (errno + epoll_event list) \<times> 'a kworld_scheme" where
  "sys_epoll_wait os ep n w =
     (let r = os_epoll_wait os (trace w) ep n in (r, emit (EvEpollWait ep n r) w))"

definition sys_shutdown ::
  "os \<Rightarrow> c_int \<Rightarrow> 'a kworld_scheme \<Rightarrow> errno option \<times> 'a kworld_scheme" where
  "sys_shutdown os fd w = (let r = os_shutdown os (trace w) fd in (r, emit (EvShutdown fd r) w))"

definition sys_getsockopt ::
  "os \<Rightarrow> c_int \<Rightarrow> 'a kworld_scheme \<Rightarrow> (errno + errno option) \<times> 'a kworld_scheme" where
  "sys_getsockopt os fd w =
     (let r = os_getsockopt os (trace w) fd in (r, emit (EvGetsockopt fd r) w))"

definition sys_epoll_create ::
  "os \<Rightarrow> 'a kworld_scheme \<Rightarrow> (errno + c_int) \<times> 'a kworld_scheme" where
  "sys_epoll_create os w = (let r = os_epoll_create os (trace w) in (r, emit (EvEpollCreate r) w))"

definition sys_eventfd :: "os \<Rightarrow> 'a kworld_scheme \<Rightarrow> (errno + c_int) \<times> 'a kworld_scheme" where
  "sys_eventfd os w = (let r = os_eventfd os (trace w) in (r, emit (EvEventfd r) w))"

definition sys_close :: "c_int \<Rightarrow> 'a kworld_scheme \<Rightarrow> 'a kworld_scheme" where
  "sys_close fd = emit (EvClose fd)"

definition sys_socket :: "os \<Rightarrow> 'a kworld_scheme \<Rightarrow> (errno + c_int) \<times> 'a kworld_scheme" where
  "sys_socket os w = (let r = os_socket os (trace w) in (r, emit (EvSocket r) w))"

definition sys_setsockopt :: "c_int \<Rightarrow> sockopt \<Rightarrow> bool \<Rightarrow> 'a kworld_scheme \<Rightarrow> 'a kworld_scheme" where
  "sys_setsockopt fd opt on = emit (EvSetsockopt fd opt on)"

definition sys_bind ::
  "os \<Rightarrow> c_int \<Rightarrow> bytes \<Rightarrow> 'a kworld_scheme \<Rightarrow> errno option \<times> 'a kworld_scheme" where
  "sys_bind os fd a w = (let r = os_bind os (trace w) fd a in (r, emit (EvBind fd a r) w))"

definition sys_listen ::
  "os \<Rightarrow> c_int \<Rightarrow> nat \<Rightarrow> 'a kworld_scheme \<Rightarrow> errno option \<times> 'a kworld_scheme" where
  "sys_listen os fd n w = (let r = os_listen os (trace w) fd n in (r, emit (EvListen fd n r) w))"

definition sys_accept ::
  "os \<Rightarrow> c_int \<Rightarrow> u32 \<Rightarrow> 'a kworld_scheme \<Rightarrow> (errno + c_int \<times> bytes) \<times> 'a kworld_scheme" where
  "sys_accept os fd len w =
     (let r = os_accept os (trace w) fd len in (r, emit (EvAccept fd len r) w))"

definition sys_getsockname ::
  "os \<Rightarrow> c_int \<Rightarrow> 'a kworld_scheme \<Rightarrow> (errno + bytes) \<times> 'a kworld_scheme" where
  "sys_getsockname os fd w =
     (let r = os_getsockname os (trace w) fd in (r, emit (EvGetsockname fd r) w))"

lemmas sys_defs = sys_readv_def sys_write_def sys_read_def sys_epoll_ctl_def sys_epoll_wait_def
  sys_shutdown_def sys_getsockopt_def sys_epoll_create_def sys_eventfd_def sys_close_def
  sys_socket_def sys_setsockopt_def sys_bind_def sys_listen_def sys_accept_def sys_getsockname_def

section \<open>Kernel tables as functions of the trace\<close>

text \<open>
  The interest list of an epoll instance: empty when the instance is created, gone when it is
  closed; closing any other descriptor removes that descriptor from it.
\<close>

fun interest_step :: "c_int \<Rightarrow> event \<Rightarrow> (c_int \<rightharpoonup> epoll_event) \<Rightarrow> (c_int \<rightharpoonup> epoll_event)" where
  "interest_step ep (EvEpollCtl ep' op fd ev None) m =
     (if ep' = ep
      then (case op of EPOLL_CTL_DEL \<Rightarrow> m(fd := None) | _ \<Rightarrow> m(fd \<mapsto> ev))
      else m)"
| "interest_step ep (EvEpollCreate (Inr ep')) m = (if ep' = ep then Map.empty else m)"
| "interest_step ep (EvClose fd) m = (if fd = ep then Map.empty else m(fd := None))"
| "interest_step ep _ m = m"

definition interest :: "event list \<Rightarrow> c_int \<Rightarrow> (c_int \<rightharpoonup> epoll_event)" where
  "interest h ep = fold (interest_step ep) h Map.empty"

lemma interest_Nil [simp]: "interest [] ep = Map.empty"
  by (simp add: interest_def)

lemma interest_snoc: "interest (h @ [e]) ep = interest_step ep e (interest h ep)"
  by (simp add: interest_def)

lemma interest_log [simp]: "interest (h @ [EvLog l]) ep = interest h ep"
  by (simp add: interest_snoc)

text \<open>
  Bytes the kernel has accepted for sending on a descriptor, in order, since the descriptor came
  from \<open>accept\<close>.
\<close>

fun sent_step :: "c_int \<Rightarrow> event \<Rightarrow> bytes \<Rightarrow> bytes" where
  "sent_step fd (EvWrite fd' d (Inr n)) acc = (if fd' = fd then acc @ take n d else acc)"
| "sent_step fd (EvAccept l n (Inr (fd', a))) acc = (if fd' = fd then [] else acc)"
| "sent_step fd _ acc = acc"

definition sent_on :: "event list \<Rightarrow> c_int \<Rightarrow> bytes" where
  "sent_on h fd = fold (sent_step fd) h []"

lemma sent_on_Nil [simp]: "sent_on [] fd = []"
  by (simp add: sent_on_def)

lemma sent_on_snoc: "sent_on (h @ [e]) fd = sent_step fd e (sent_on h fd)"
  by (simp add: sent_on_def)

text \<open>Whether the write side of a socket has been shut down.\<close>

fun shut_step :: "c_int \<Rightarrow> event \<Rightarrow> bool \<Rightarrow> bool" where
  "shut_step fd (EvShutdown fd' r) b = (if fd' = fd then True else b)"
| "shut_step fd (EvAccept l n (Inr (fd', a))) b = (if fd' = fd then False else b)"
| "shut_step fd _ b = b"

definition shut_on :: "event list \<Rightarrow> c_int \<Rightarrow> bool" where
  "shut_on h fd = fold (shut_step fd) h False"

text \<open>
  The counter of an eventfd, zero when it is created: every write adds its 64-bit value (always one here), a successful
  read resets it to zero.
\<close>

fun eventfd_step :: "c_int \<Rightarrow> event \<Rightarrow> nat \<Rightarrow> nat" where
  "eventfd_step fd (EvWrite fd' d (Inr n)) c = (if fd' = fd then Suc c else c)"
| "eventfd_step fd (EvRead fd' n (Inr d)) c = (if fd' = fd then 0 else c)"
| "eventfd_step fd (EvEventfd (Inr fd')) c = (if fd' = fd then 0 else c)"
| "eventfd_step fd _ c = c"

definition eventfd_count :: "event list \<Rightarrow> c_int \<Rightarrow> nat" where
  "eventfd_count h fd = fold (eventfd_step fd) h 0"

lemma eventfd_count_Nil [simp]: "eventfd_count [] fd = 0"
  by (simp add: eventfd_count_def)

lemma eventfd_count_snoc: "eventfd_count (h @ [e]) fd = eventfd_step fd e (eventfd_count h fd)"
  by (simp add: eventfd_count_def)

lemma table_append:
  "interest (h @ es) ep = fold (interest_step ep) es (interest h ep)"
  "sent_on (h @ es) fd = fold (sent_step fd) es (sent_on h fd)"
  "eventfd_count (h @ es) fd = fold (eventfd_step fd) es (eventfd_count h fd)"
  "shut_on (h @ es) fd = fold (shut_step fd) es (shut_on h fd)"
  by (simp_all add: interest_def sent_on_def eventfd_count_def shut_on_def)

lemma eventfd_step_write: "c \<le> eventfd_step fd (EvWrite fd' d r) c"
  by (cases r) simp_all

text \<open>Calls that neither send on a descriptor, nor shut it, nor create it.\<close>

fun quiet :: "c_int \<Rightarrow> event \<Rightarrow> bool" where
  "quiet fd (EvWrite fd' d r) \<longleftrightarrow> fd' \<noteq> fd"
| "quiet fd (EvShutdown fd' r) \<longleftrightarrow> fd' \<noteq> fd"
| "quiet fd (EvAccept l n (Inr (fd', a))) \<longleftrightarrow> fd' \<noteq> fd"
| "quiet fd _ \<longleftrightarrow> True"

lemma quiet_step: "quiet fd e \<Longrightarrow> sent_step fd e acc = acc \<and> shut_step fd e b = b"
  by (induction fd e acc rule: sent_step.induct) simp_all

lemma quiet_tables:
  "list_all (quiet fd) es \<Longrightarrow>
     sent_on (h @ es) fd = sent_on h fd \<and> shut_on (h @ es) fd = shut_on h fd"
proof (induction es rule: rev_induct)
  case Nil
  then show ?case by simp
next
  case (snoc e es)
  then show ?case by (auto simp: table_append quiet_step)
qed

section \<open>What the library relies on\<close>

text \<open>\<open>readv(2)\<close> and \<open>write(2)\<close> never report more bytes than they were given room for.\<close>

definition readv_contract :: "os \<Rightarrow> bool" where
  "readv_contract os \<longleftrightarrow>
     (\<forall>h fd iov d. os_readv os h fd iov = Inr d \<longrightarrow> length d \<le> sum_list (map unat iov))"

definition write_contract :: "os \<Rightarrow> bool" where
  "write_contract os \<longleftrightarrow> (\<forall>h fd d n. os_write os h fd d = Inr n \<longrightarrow> n \<le> length d)"

text \<open>
  \<open>epoll_ctl(2)\<close>: adding fails exactly when the descriptor is registered already, changing
  and deleting exactly when it is not (the resource limits of the kernel are left out).
\<close>

definition epoll_ctl_contract :: "os \<Rightarrow> bool" where
  "epoll_ctl_contract os \<longleftrightarrow>
     (\<forall>h ep op fd ev. os_epoll_ctl os h ep op fd ev =
        (case op of
           EPOLL_CTL_ADD \<Rightarrow> if interest h ep fd = None then None else Some EEXIST
         | _ \<Rightarrow> if interest h ep fd = None then Some ENOENT else None))"

text \<open>
  \<open>epoll_wait(2)\<close>: at most as many events as there is room for, each carrying the data of a
  registered descriptor.
\<close>

definition epoll_wait_contract :: "os \<Rightarrow> bool" where
  "epoll_wait_contract os \<longleftrightarrow>
     (\<forall>h ep n evs. os_epoll_wait os h ep n = Inr evs \<longrightarrow>
        length evs \<le> n \<and>
        (\<forall>e \<in> set evs. \<exists>fd r. interest h ep fd = Some r \<and> ee_data e = ee_data r))"

lemma readv_contractD:
  "readv_contract os \<Longrightarrow> os_readv os h fd iov = Inr d \<Longrightarrow> length d \<le> sum_list (map unat iov)"
  by (auto simp: readv_contract_def)

lemma write_contractD: "write_contract os \<Longrightarrow> os_write os h fd d = Inr n \<Longrightarrow> n \<le> length d"
  by (auto simp: write_contract_def)

text \<open>
  \<open>eventfd(2)\<close>: a write of the value one is taken whole (the counter is far from its maximum).
\<close>

definition eventfd_one :: bytes where
  "eventfd_one = [1, 0, 0, 0, 0, 0, 0, 0]"

definition eventfd_contract :: "os \<Rightarrow> c_int \<Rightarrow> bool" where
  "eventfd_contract os fd \<longleftrightarrow> (\<forall>h. os_write os h fd eventfd_one = Inr 8)"

section \<open>A concrete kernel\<close>

text \<open>
  A kernel that delivers the same three bytes to every read, whose sockets accept at most four bytes per write, whose epoll
  keeps the interest list and whose waits time out. It is what the witnesses run on.
\<close>

definition demo_os :: os where
  "demo_os =
     \<lparr>os_readv = (\<lambda>h fd iov. Inr (take (sum_list (map unat iov)) [10, 20, 30])),
      os_write = (\<lambda>h fd d. Inr (min 4 (length d))),
      os_read = (\<lambda>h fd n. Inr (replicate 8 0)),
      os_epoll_ctl = (\<lambda>h ep op fd ev.
        case op of
          EPOLL_CTL_ADD \<Rightarrow> if interest h ep fd = None then None else Some EEXIST
        | _ \<Rightarrow> if interest h ep fd = None then Some ENOENT else None),
      os_epoll_wait = (\<lambda>h ep n. Inr []),
      os_shutdown = (\<lambda>h fd. None),
      os_getsockopt = (\<lambda>h fd. Inr None),
      os_epoll_create = (\<lambda>h. Inr (3 + of_nat (length h))),
      os_eventfd = (\<lambda>h. Inr (3 + of_nat (length h))),
      os_socket = (\<lambda>h. Inr (3 + of_nat (length h))),
      os_bind = (\<lambda>h fd a. None),
      os_listen = (\<lambda>h fd n. None),
      os_accept = (\<lambda>h fd len. Inr (3 + of_nat (length h), [2, 0, 31, 64, 10, 0, 0, 7] @ replicate 8 0)),
      os_getsockname = (\<lambda>h fd. Inr ([2, 0, 31, 64, 127, 0, 0, 1] @ replicate 8 0)),
      os_time = (\<lambda>h. 0)\<rparr>"

lemma demo_os_readv: "readv_contract demo_os"
  by (simp add: readv_contract_def demo_os_def)

lemma demo_os_write: "write_contract demo_os"
  by (simp add: write_contract_def demo_os_def)

lemma demo_os_epoll_ctl: "epoll_ctl_contract demo_os"
  by (simp add: epoll_ctl_contract_def demo_os_def)

lemma demo_os_epoll_wait: "epoll_wait_contract demo_os"
  by (simp add: epoll_wait_contract_def demo_os_def)

text \<open>The same kernel when one descriptor, if registered, is reported by every wait.\<close>

definition ready_os :: "c_int \<Rightarrow> u32 \<Rightarrow> os" where
  "ready_os fd revents = demo_os\<lparr>os_epoll_wait := (\<lambda>h ep n.
     case interest h ep fd of
       None \<Rightarrow> Inr []
     | Some r \<Rightarrow> Inr (take n [\<lparr>ee_events = revents, ee_data = ee_data r\<rparr>]))\<rparr>"

lemma ready_os_simps [simp]:
  "os_readv (ready_os fd m) = os_readv demo_os" "os_write (ready_os fd m) = os_write demo_os"
  "os_read (ready_os fd m) = os_read demo_os" "os_epoll_ctl (ready_os fd m) = os_epoll_ctl demo_os"
  "os_time (ready_os fd m) = os_time demo_os"
  by (simp_all add: ready_os_def)

lemma ready_os_epoll_ctl: "epoll_ctl_contract (ready_os fd m)"
  using demo_os_epoll_ctl by (simp add: epoll_ctl_contract_def)

lemma ready_os_epoll_wait: "epoll_wait_contract (ready_os fd m)"
  by (fastforce simp: epoll_wait_contract_def ready_os_def split: option.splits dest: in_set_takeD)

text \<open>The same kernel with an eventfd at a given descriptor.\<close>

definition eventfd_os :: "c_int \<Rightarrow> os" where
  "eventfd_os efd = demo_os\<lparr>os_write := (\<lambda>h fd d.
     if fd = efd then Inr (length d) else os_write demo_os h fd d)\<rparr>"

lemma eventfd_os_contract: "eventfd_contract (eventfd_os fd) fd"
  by (simp add: eventfd_contract_def eventfd_os_def eventfd_one_def)

lemma eventfd_os_epoll_ctl: "epoll_ctl_contract (eventfd_os fd)"
  using demo_os_epoll_ctl by (simp add: epoll_ctl_contract_def eventfd_os_def)

lemma eventfd_os_write: "write_contract (eventfd_os fd)"
  using demo_os_write by (simp add: write_contract_def eventfd_os_def)

end
