(* ===== verification/Channel.thy ===== *)
theory Channel
  imports Kernel
begin

text \<open>
  A channel (\<open>src/src/Channel.h\<close>, \<open>src/src/Channel.cc\<close>): a descriptor with the events its
  owner is interested in, the events the poller reported, and one callback per kind of event.
  Channels live in a store from addresses to channels, so that a pointer to a destroyed channel
  is a dangling one. The callbacks bound in the library are named by the datatype
  \<open>callback\<close>; what invoking one does is a parameter of the dispatch functions, supplied by
  the components the callbacks belong to. The main lemma describes the dispatch: which callbacks
  run for a report, in which order, and that each runs once.
\<close>

unbundle bit_operations_syntax

section \<open>State\<close>

type_synonym loop_id = nat
type_synonym conn_id = nat
type_synonym Timestamp = int

text \<open>The targets of the \<open>std::bind\<close> calls that set channel callbacks.\<close>

datatype callback =
    EventLoop_handleRead loop_id
  | Acceptor_handleRead
  | TcpConnection_handleRead conn_id
  | TcpConnection_handleWrite conn_id
  | TcpConnection_handleClose conn_id
  | TcpConnection_handleError conn_id

record channel =
  ch_loop :: loop_id
  ch_fd :: c_int
  ch_events :: u32
  ch_revents :: u32
  ch_index :: int
  ch_tie :: "conn_id option"
  ch_tied :: bool
  ch_readCallback :: "callback option"
  ch_writeCallback :: "callback option"
  ch_closeCallback :: "callback option"
  ch_errorCallback :: "callback option"

text \<open>The masks of \<open>sys/epoll.h\<close> and the three interest sets of the class.\<close>

definition EPOLLIN :: u32 where "EPOLLIN = 1"
definition EPOLLPRI :: u32 where "EPOLLPRI = 2"
definition EPOLLOUT :: u32 where "EPOLLOUT = 4"
definition EPOLLERR :: u32 where "EPOLLERR = 8"
definition EPOLLHUP :: u32 where "EPOLLHUP = 16"

lemmas epoll_masks = EPOLLIN_def EPOLLPRI_def EPOLLOUT_def EPOLLERR_def EPOLLHUP_def

definition kNoneEvent :: u32 where
  "kNoneEvent = 0"

definition kReadEvent :: u32 where
  "kReadEvent = EPOLLIN OR EPOLLPRI"

definition kWriteEvent :: u32 where
  "kWriteEvent = EPOLLOUT"

definition Channel_ctor :: "loop_id \<Rightarrow> c_int \<Rightarrow> channel" where
  "Channel_ctor loop fd =
     \<lparr>ch_loop = loop, ch_fd = fd, ch_events = 0, ch_revents = 0, ch_index = -1,
      ch_tie = None, ch_tied = False, ch_readCallback = None, ch_writeCallback = None,
      ch_closeCallback = None, ch_errorCallback = None\<rparr>"

text \<open>The setters of the four callbacks; the constructors of the owners call them.\<close>

definition setReadCallback :: "callback \<Rightarrow> channel \<Rightarrow> channel" where
  [simp]: "setReadCallback cb ch = ch\<lparr>ch_readCallback := Some cb\<rparr>"

definition setWriteCallback :: "callback \<Rightarrow> channel \<Rightarrow> channel" where
  [simp]: "setWriteCallback cb ch = ch\<lparr>ch_writeCallback := Some cb\<rparr>"

definition setCloseCallback :: "callback \<Rightarrow> channel \<Rightarrow> channel" where
  [simp]: "setCloseCallback cb ch = ch\<lparr>ch_closeCallback := Some cb\<rparr>"

definition setErrorCallback :: "callback \<Rightarrow> channel \<Rightarrow> channel" where
  [simp]: "setErrorCallback cb ch = ch\<lparr>ch_errorCallback := Some cb\<rparr>"

definition set_revents :: "u32 \<Rightarrow> channel \<Rightarrow> channel" where
  "set_revents revt ch = ch\<lparr>ch_revents := revt\<rparr>"

definition set_index :: "int \<Rightarrow> channel \<Rightarrow> channel" where
  "set_index idx ch = ch\<lparr>ch_index := idx\<rparr>"

definition tie :: "conn_id \<Rightarrow> channel \<Rightarrow> channel" where
  "tie obj ch = ch\<lparr>ch_tie := Some obj, ch_tied := True\<rparr>"

section \<open>Interest masks\<close>

definition isNoneEvent :: "channel \<Rightarrow> bool" where
  "isNoneEvent ch \<longleftrightarrow> ch_events ch = kNoneEvent"

definition isWriting :: "channel \<Rightarrow> bool" where
  "isWriting ch \<longleftrightarrow> ch_events ch AND kWriteEvent \<noteq> 0"

definition isReading :: "channel \<Rightarrow> bool" where
  "isReading ch \<longleftrightarrow> ch_events ch AND kReadEvent \<noteq> 0"

text \<open>
  What each of the five interest setters does to the mask, before it calls \<open>update()\<close>.
\<close>

datatype interest_op = EnableReading | DisableReading | EnableWriting | DisableWriting | DisableAll

fun set_interest :: "interest_op \<Rightarrow> channel \<Rightarrow> channel" where
  "set_interest EnableReading ch = ch\<lparr>ch_events := ch_events ch OR kReadEvent\<rparr>"
| "set_interest DisableReading ch = ch\<lparr>ch_events := ch_events ch AND NOT kReadEvent\<rparr>"
| "set_interest EnableWriting ch = ch\<lparr>ch_events := ch_events ch OR kWriteEvent\<rparr>"
| "set_interest DisableWriting ch = ch\<lparr>ch_events := ch_events ch AND NOT kWriteEvent\<rparr>"
| "set_interest DisableAll ch = ch\<lparr>ch_events := kNoneEvent\<rparr>"

declare set_interest.simps [simp del]

text \<open>Masks read bit by bit.\<close>

lemma mask_bits:
  "x AND EPOLLIN = 0 \<longleftrightarrow> \<not> bit x 0" "x AND EPOLLPRI = 0 \<longleftrightarrow> \<not> bit x 1"
  "x AND EPOLLOUT = 0 \<longleftrightarrow> \<not> bit x 2" "x AND EPOLLERR = 0 \<longleftrightarrow> \<not> bit x 3"
  "x AND EPOLLHUP = 0 \<longleftrightarrow> \<not> bit x 4"
  using and_exp_eq_0_iff_not_bit [of x 0] and_exp_eq_0_iff_not_bit [of x 1]
    and_exp_eq_0_iff_not_bit [of x 2] and_exp_eq_0_iff_not_bit [of x 3]
    and_exp_eq_0_iff_not_bit [of x 4]
  by (simp_all add: epoll_masks)

lemma bit_two_power: "bit (2 ^ m :: u32) n \<longleftrightarrow> n < 32 \<and> n = m"
  by (auto simp: bit_exp_iff possible_bit_word)

lemma masks_power:
  "EPOLLIN = 2 ^ 0" "EPOLLPRI = 2 ^ 1" "EPOLLOUT = 2 ^ 2" "EPOLLERR = 2 ^ 3" "EPOLLHUP = 2 ^ 4"
  by (simp_all add: epoll_masks)

lemma bit_masks:
  "bit EPOLLIN n \<longleftrightarrow> n = 0" "bit EPOLLPRI n \<longleftrightarrow> n = 1" "bit EPOLLOUT n \<longleftrightarrow> n = 2"
  "bit EPOLLERR n \<longleftrightarrow> n = 3" "bit EPOLLHUP n \<longleftrightarrow> n = 4"
  unfolding masks_power bit_two_power by auto

lemma and_read_mask: "x AND (EPOLLIN OR EPOLLPRI) = 0 \<longleftrightarrow> \<not> bit x 0 \<and> \<not> bit x 1"
proof -
  have "x AND (EPOLLIN OR EPOLLPRI) = (x AND EPOLLIN) OR (x AND EPOLLPRI)"
    by (rule bit.conj_disj_distrib)
  then show ?thesis by (simp add: or_eq_0_iff mask_bits)
qed

lemma isWriting_bit: "isWriting ch \<longleftrightarrow> bit (ch_events ch) 2"
  by (simp add: isWriting_def kWriteEvent_def mask_bits)

lemma isReading_bit: "isReading ch \<longleftrightarrow> bit (ch_events ch) 0 \<or> bit (ch_events ch) 1"
  by (simp add: isReading_def kReadEvent_def and_read_mask)

lemma isWriting_set_interest [simp]:
  "isWriting (set_interest EnableReading ch) = isWriting ch"
  "isWriting (set_interest DisableReading ch) = isWriting ch"
  "isWriting (set_interest EnableWriting ch)"
  "\<not> isWriting (set_interest DisableWriting ch)"
  "\<not> isWriting (set_interest DisableAll ch)"
  by (simp_all add: set_interest.simps isWriting_bit kReadEvent_def kWriteEvent_def kNoneEvent_def bit_or_iff
      bit_and_iff bit_not_iff bit_masks)

lemma isReading_set_interest [simp]:
  "isReading (set_interest EnableReading ch)"
  "\<not> isReading (set_interest DisableReading ch)"
  "isReading (set_interest EnableWriting ch) = isReading ch"
  "isReading (set_interest DisableWriting ch) = isReading ch"
  "\<not> isReading (set_interest DisableAll ch)"
  by (simp_all add: set_interest.simps isReading_bit kReadEvent_def kWriteEvent_def kNoneEvent_def bit_or_iff
      bit_and_iff bit_not_iff bit_masks)

lemma isNoneEvent_imp: "isNoneEvent ch \<Longrightarrow> \<not> isReading ch \<and> \<not> isWriting ch"
  by (simp add: isNoneEvent_def isReading_def isWriting_def kNoneEvent_def)

lemma isNoneEvent_set_interest [simp]:
  "\<not> isNoneEvent (set_interest EnableReading ch)"
  "\<not> isNoneEvent (set_interest EnableWriting ch)"
  "isNoneEvent (set_interest DisableAll ch)"
  by (auto dest: isNoneEvent_imp ) (simp add: isNoneEvent_def set_interest.simps)

lemma set_interest_frame [simp]:
  "ch_loop (set_interest i ch) = ch_loop ch" "ch_fd (set_interest i ch) = ch_fd ch"
  "ch_revents (set_interest i ch) = ch_revents ch" "ch_index (set_interest i ch) = ch_index ch"
  "ch_tie (set_interest i ch) = ch_tie ch" "ch_tied (set_interest i ch) = ch_tied ch"
  "ch_readCallback (set_interest i ch) = ch_readCallback ch"
  "ch_writeCallback (set_interest i ch) = ch_writeCallback ch"
  "ch_closeCallback (set_interest i ch) = ch_closeCallback ch"
  "ch_errorCallback (set_interest i ch) = ch_errorCallback ch"
  by (cases i; simp add: set_interest.simps)+

section \<open>Dispatching a report\<close>

text \<open>Worlds with a store of channels: the address is the pointer the library passes around.\<close>

record chworld = kworld +
  chans :: "ptr \<rightharpoonup> channel"

definition get_channel :: "ptr \<Rightarrow> 'a chworld_scheme \<Rightarrow> failure + channel" where
  "get_channel p w = (case chans w p of None \<Rightarrow> Inl DanglingPointer | Some ch \<Rightarrow> Inr ch)"

definition put_channel :: "ptr \<Rightarrow> channel \<Rightarrow> 'a chworld_scheme \<Rightarrow> 'a chworld_scheme" where
  "put_channel p ch w = w\<lparr>chans := (chans w)(p \<mapsto> ch)\<rparr>"

lemma get_channel_simps [simp]:
  "chans w p = Some ch \<Longrightarrow> get_channel p w = Inr ch"
  "chans w p = None \<Longrightarrow> get_channel p w = Inl DanglingPointer"
  by (simp_all add: get_channel_def)

lemma get_channel_Inr [simp]: "get_channel p w = Inr ch \<longleftrightarrow> chans w p = Some ch"
  by (simp add: get_channel_def split: option.splits)

lemma put_channel_simps [simp]:
  "chans (put_channel p ch w) = (chans w)(p \<mapsto> ch)" "trace (put_channel p ch w) = trace w"
  by (simp_all add: put_channel_def)

text \<open>
  One \<open>if (revents & mask) { if (callback) callback(); }\<close>: both members are read when the
  statement runs, after whatever the callbacks before it did to the channel. The parameter
  \<open>invoke\<close> runs a callback with the time of the report.
\<close>

definition dispatch_if ::
  "(Timestamp \<Rightarrow> callback \<Rightarrow> 'a chworld_scheme \<Rightarrow> failure + 'a chworld_scheme) \<Rightarrow> Timestamp \<Rightarrow> ptr
     \<Rightarrow> (u32 \<Rightarrow> bool) \<Rightarrow> (channel \<Rightarrow> callback option)
     \<Rightarrow> 'a chworld_scheme \<Rightarrow> failure + 'a chworld_scheme" where
  "dispatch_if invoke t p cond cb w =
     bnd (get_channel p w) (\<lambda>ch.
     if cond (ch_revents ch)
     then (case cb ch of None \<Rightarrow> Inr w | Some c \<Rightarrow> invoke t c w)
     else Inr w)"

definition on_close :: "u32 \<Rightarrow> bool" where
  "on_close revents \<longleftrightarrow> revents AND EPOLLHUP \<noteq> 0 \<and> \<not> (revents AND EPOLLIN \<noteq> 0)"

definition on_error :: "u32 \<Rightarrow> bool" where
  "on_error revents \<longleftrightarrow> revents AND EPOLLERR \<noteq> 0"

definition on_read :: "u32 \<Rightarrow> bool" where
  "on_read revents \<longleftrightarrow> revents AND (EPOLLIN OR EPOLLPRI) \<noteq> 0"

definition on_write :: "u32 \<Rightarrow> bool" where
  "on_write revents \<longleftrightarrow> revents AND EPOLLOUT \<noteq> 0"

definition handleEventWithGuard ::
  "(Timestamp \<Rightarrow> callback \<Rightarrow> 'a chworld_scheme \<Rightarrow> failure + 'a chworld_scheme) \<Rightarrow> Timestamp \<Rightarrow> ptr
     \<Rightarrow> 'a chworld_scheme \<Rightarrow> failure + 'a chworld_scheme" where
  "handleEventWithGuard invoke receiveTime p =
     run [dispatch_if invoke receiveTime p on_close ch_closeCallback,
          dispatch_if invoke receiveTime p on_error ch_errorCallback,
          dispatch_if invoke receiveTime p on_read ch_readCallback,
          dispatch_if invoke receiveTime p on_write ch_writeCallback]"

text \<open>
  \<open>handleEvent\<close>: a tied channel runs only while the object it is tied to can be locked
  (\<open>alive\<close>).
\<close>

definition handleEvent ::
  "(Timestamp \<Rightarrow> callback \<Rightarrow> 'a chworld_scheme \<Rightarrow> failure + 'a chworld_scheme)
     \<Rightarrow> ('a chworld_scheme \<Rightarrow> conn_id \<Rightarrow> bool) \<Rightarrow> Timestamp \<Rightarrow> ptr
     \<Rightarrow> 'a chworld_scheme \<Rightarrow> failure + 'a chworld_scheme" where
  "handleEvent invoke alive receiveTime p w =
     bnd (get_channel p w) (\<lambda>ch.
     if ch_tied ch
     then (case ch_tie ch of
             None \<Rightarrow> Inr w
           | Some c \<Rightarrow> if alive w c then handleEventWithGuard invoke receiveTime p w else Inr w)
     else handleEventWithGuard invoke receiveTime p w)"

text \<open>
  The specification of the dispatch: the callbacks due for a report, in order, by the bits of the
  reported mask.
\<close>

definition due :: "channel \<Rightarrow> callback list" where
  "due ch = List.map_filter id (
     (if bit (ch_revents ch) 4 \<and> \<not> bit (ch_revents ch) 0 then [ch_closeCallback ch] else []) @
     (if bit (ch_revents ch) 3 then [ch_errorCallback ch] else []) @
     (if bit (ch_revents ch) 0 \<or> bit (ch_revents ch) 1 then [ch_readCallback ch] else []) @
     (if bit (ch_revents ch) 2 then [ch_writeCallback ch] else []))"

lemma on_event_bits:
  "on_close r \<longleftrightarrow> bit r 4 \<and> \<not> bit r 0" "on_error r \<longleftrightarrow> bit r 3"
  "on_read r \<longleftrightarrow> bit r 0 \<or> bit r 1" "on_write r \<longleftrightarrow> bit r 2"
  by (simp_all add: on_close_def on_error_def on_read_def on_write_def mask_bits and_read_mask)

text \<open>
  Callbacks that leave the channel registered at its address with the same report and the same
  callbacks (they may change its interest, its index or anything else in the world).
\<close>

definition same_dispatch :: "channel \<Rightarrow> channel \<Rightarrow> bool" where
  "same_dispatch ch ch' \<longleftrightarrow>
     ch_revents ch' = ch_revents ch \<and> ch_readCallback ch' = ch_readCallback ch \<and>
     ch_writeCallback ch' = ch_writeCallback ch \<and> ch_closeCallback ch' = ch_closeCallback ch \<and>
     ch_errorCallback ch' = ch_errorCallback ch"

definition shows_dispatch :: "channel \<Rightarrow> ptr \<Rightarrow> 'a chworld_scheme \<Rightarrow> bool" where
  "shows_dispatch ch p w \<longleftrightarrow> (case chans w p of None \<Rightarrow> False | Some ch' \<Rightarrow> same_dispatch ch ch')"

definition keeps_dispatch ::
  "(Timestamp \<Rightarrow> callback \<Rightarrow> 'a chworld_scheme \<Rightarrow> failure + 'a chworld_scheme) \<Rightarrow> ptr \<Rightarrow> bool" where
  "keeps_dispatch invoke p \<longleftrightarrow>
     (\<forall>t c ch w w'. shows_dispatch ch p w \<longrightarrow> invoke t c w = Inr w' \<longrightarrow> shows_dispatch ch p w')"

lemma same_dispatch_refl [simp, intro]: "same_dispatch ch ch"
  by (simp add: same_dispatch_def)

lemma same_dispatch_set_interest [simp]: "same_dispatch ch (set_interest i ch)"
  by (simp add: same_dispatch_def)

lemma dispatch_if_run:
  assumes "shows_dispatch ch p w"
    and "\<And>ch'. same_dispatch ch ch' \<Longrightarrow> cb ch' = cb ch"
  shows "dispatch_if invoke t p cond cb w =
    run (map (invoke t) (List.map_filter id (if cond (ch_revents ch) then [cb ch] else []))) w"
proof -
  from assms(1) obtain ch' where "chans w p = Some ch'" and same: "same_dispatch ch ch'"
    by (auto simp: shows_dispatch_def split: option.splits)
  with assms(2) [OF same] show ?thesis
    by (auto simp: dispatch_if_def same_dispatch_def map_filter_simps bnd_def
        split: option.splits sum.splits)
qed

lemma map_filter_append: "List.map_filter f (xs @ ys) = List.map_filter f xs @ List.map_filter f ys"
  by (simp add: map_filter_def)

lemma handleEventWithGuard_run:
  assumes keeps: "keeps_dispatch invoke p" and "shows_dispatch ch p w"
  shows "handleEventWithGuard invoke t p w = run (map (invoke t) (due ch)) w"
proof -
  have keep: "shows_dispatch ch p v'"
    if "g \<in> set (map (invoke t) cs)" "shows_dispatch ch p v" "g v = Inr v'" for g cs v v'
    using that keeps by (auto simp: keeps_dispatch_def)
  let ?d = "\<lambda>cond cb. dispatch_if invoke t p cond cb"
  let ?c = "\<lambda>cond cb. map (invoke t)
      (List.map_filter id (if cond (ch_revents ch) then [cb ch] else []))"
  have stage: "run (?d cond cb # fs) v = run (?c cond cb @ hs) v"
    if "shows_dispatch ch p v" and cb: "\<And>ch'. same_dispatch ch ch' \<Longrightarrow> cb ch' = cb ch"
      and "\<And>u. shows_dispatch ch p u \<Longrightarrow> run fs u = run hs u"
    for v fs hs and cb :: "channel \<Rightarrow> callback option" and cond
  proof (rule run_stage [where P = "shows_dispatch ch p"])
    show "?d cond cb u = run (?c cond cb) u" if "shows_dispatch ch p u" for u
      using that cb by (rule dispatch_if_run)
  qed (use that keep in auto)
  have four: "run [?d on_write ch_writeCallback] v = run (?c on_write ch_writeCallback @ []) v"
    if "shows_dispatch ch p v" for v
    by (rule stage [OF that]) (auto simp: same_dispatch_def)
  have three: "run [?d on_read ch_readCallback, ?d on_write ch_writeCallback] v =
      run (?c on_read ch_readCallback @ ?c on_write ch_writeCallback @ []) v"
    if "shows_dispatch ch p v" for v
    by (rule stage [OF that]) (auto simp: same_dispatch_def four simp del: run.simps)
  have two: "run [?d on_error ch_errorCallback, ?d on_read ch_readCallback,
        ?d on_write ch_writeCallback] v =
      run (?c on_error ch_errorCallback @ ?c on_read ch_readCallback
        @ ?c on_write ch_writeCallback @ []) v"
    if "shows_dispatch ch p v" for v
    by (rule stage [OF that]) (auto simp: same_dispatch_def three simp del: run.simps)
  have "run [?d on_close ch_closeCallback, ?d on_error ch_errorCallback,
        ?d on_read ch_readCallback, ?d on_write ch_writeCallback] w =
      run (?c on_close ch_closeCallback @ ?c on_error ch_errorCallback
        @ ?c on_read ch_readCallback @ ?c on_write ch_writeCallback @ []) w"
    by (rule stage [OF assms(2)]) (auto simp: same_dispatch_def two simp del: run.simps)
  then show ?thesis
    by (simp add: handleEventWithGuard_def due_def on_event_bits map_filter_append del: run.simps)
qed

lemma handleEvent_dead:
  "chans w p = Some ch \<Longrightarrow> ch_tied ch \<Longrightarrow> (\<forall>c. ch_tie ch = Some c \<longrightarrow> \<not> alive w c) \<Longrightarrow>
     handleEvent invoke alive t p w = Inr w"
  by (simp add: handleEvent_def split: option.splits)

text \<open>
  C19 (dispatch of a report). \<open>handleEvent\<close> runs nothing when the channel is tied to an object that no longer exists.
  Otherwise it runs exactly the callbacks due for the reported mask, each once, in the order
  close, error, read, write: close on hang-up without input, error on an error report, read on
  (priority) input, write on output; kinds without a callback are skipped, and a failing callback
  ends the dispatch. This holds for callbacks that leave the channel's report and callbacks alone.
\<close>

theorem handleEvent_dispatch:
  assumes "keeps_dispatch invoke p" and "chans w p = Some ch"
  shows "handleEvent invoke alive t p w =
    (if ch_tied ch \<and> (\<forall>c. ch_tie ch = Some c \<longrightarrow> \<not> alive w c) then Inr w
     else run (map (invoke t) (due ch)) w)"
proof -
  have "shows_dispatch ch p w" using assms(2) by (simp add: shows_dispatch_def)
  with assms show ?thesis
    by (auto simp: handleEvent_def handleEventWithGuard_run split: option.splits)
qed

text \<open>A hang-up with pending output on a connection's channel: close, then write, and no read.\<close>

theorem handleEvent_dispatch_witness:
  "let ch = (Channel_ctor 0 5)\<lparr>ch_revents := 20, ch_readCallback := Some (TcpConnection_handleRead 1),
         ch_writeCallback := Some (TcpConnection_handleWrite 1),
         ch_closeCallback := Some (TcpConnection_handleClose 1)\<rparr>;
       invoke = (\<lambda>t c w. Inr (if c = TcpConnection_handleClose 1 then emit (EvLog INFO) w
                           else emit (EvLog DEBUG) w))
   in handleEvent invoke (\<lambda>w c. False) 0 64 \<lparr>trace = [], chans = [64 \<mapsto> ch]\<rparr> =
      Inr \<lparr>trace = [EvLog INFO, EvLog DEBUG], chans = [64 \<mapsto> ch]\<rparr>"
proof -
  let ?ch = "(Channel_ctor 0 5)\<lparr>ch_revents := 20, ch_readCallback := Some (TcpConnection_handleRead 1),
         ch_writeCallback := Some (TcpConnection_handleWrite 1),
         ch_closeCallback := Some (TcpConnection_handleClose 1)\<rparr>"
  let ?invoke = "\<lambda>t c w. Inr (if c = TcpConnection_handleClose 1 then emit (EvLog INFO) w
                           else emit (EvLog DEBUG) w)"
  let ?w = "\<lparr>trace = [], chans = [64 \<mapsto> ?ch]\<rparr>"
  have "keeps_dispatch ?invoke 64"
    by (auto simp: keeps_dispatch_def shows_dispatch_def emit_def)
  moreover have "chans ?w 64 = Some ?ch" by simp
  moreover have "due ?ch = [TcpConnection_handleClose 1, TcpConnection_handleWrite 1]"
    by (simp add: due_def map_filter_simps Channel_ctor_def)
  ultimately show ?thesis
    using handleEvent_dispatch [of ?invoke 64 ?w ?ch "\<lambda>w c. False" 0]
    by (simp add: Channel_ctor_def emit_def Let_def)
qed

end
