(* ===== verification/EPollPoller.thy ===== *)
theory EPollPoller
  imports Channel
begin

text \<open>
  The poller (\<open>src/src/Poller.h\<close>, \<open>Poller.cc\<close>, \<open>DefaultPoller.cc\<close>,
  \<open>EPollPoller.h\<close>, \<open>EPollPoller.cc\<close>): the map from descriptors to channels, the buffer
  of reported events, and the system calls that keep the kernel's interest list in step with it.
  The state invariant ties the three together (the map, the index of each channel, and the
  kernel's list); every update keeps it and never runs into the fatal error path. The
  \<open>epoll_data\<close> union is modelled with its layout, and the lemmas say exactly when the pointer
  stored in it survives the store to its \<open>fd\<close> member.
\<close>

unbundle bit_operations_syntax

section \<open>State\<close>

record poller =
  po_ownerLoop :: loop_id
  po_epollfd :: c_int
  po_events :: "epoll_event list"
  po_channels :: "c_int \<rightharpoonup> ptr"

definition kNew :: int where "kNew = -1"
definition kAdded :: int where "kAdded = 1"
definition kDeleted :: int where "kDeleted = 2"

lemmas index_defs = kNew_def kAdded_def kDeleted_def

lemma index_distinct [simp]:
  "kNew \<noteq> kAdded" "kAdded \<noteq> kNew" "kNew \<noteq> kDeleted" "kDeleted \<noteq> kNew"
  "kAdded \<noteq> kDeleted" "kDeleted \<noteq> kAdded"
  by (simp_all add: index_defs)

definition kInitEventListSize :: nat where
  "kInitEventListSize = 16"

definition no_event :: epoll_event where
  "no_event = \<lparr>ee_events = 0, ee_data = 0\<rparr>"

definition EPollPoller_ctor ::
  "os \<Rightarrow> loop_id \<Rightarrow> 'a kworld_scheme \<Rightarrow> failure + (poller \<times> 'a kworld_scheme)" where
  "EPollPoller_ctor os loop w =
     (let (r, w) = sys_epoll_create os w
      in case r of
           Inl e \<Rightarrow> Inl Fatal
         | Inr fd \<Rightarrow> Inr (\<lparr>po_ownerLoop = loop, po_epollfd = fd,
             po_events = replicate kInitEventListSize no_event, po_channels = Map.empty\<rparr>, w))"

definition EPollPoller_dtor :: "poller \<Rightarrow> 'a kworld_scheme \<Rightarrow> 'a kworld_scheme" where
  "EPollPoller_dtor P = sys_close (po_epollfd P)"

text \<open>
  \<open>newDefaultPoller\<close> returns a null pointer when the environment asks for \<open>poll\<close>.
\<close>

definition newDefaultPoller ::
  "bool \<Rightarrow> os \<Rightarrow> loop_id \<Rightarrow> 'a kworld_scheme \<Rightarrow> failure + (poller option \<times> 'a kworld_scheme)" where
  "newDefaultPoller szmuduo_use_poll os loop w =
     (if szmuduo_use_poll then Inr (None, w)
      else bnd (EPollPoller_ctor os loop w) (\<lambda>(P, w). Inr (Some P, w)))"

definition hasChannel :: "poller \<Rightarrow> ptr \<Rightarrow> channel \<Rightarrow> bool" where
  "hasChannel P p ch \<longleftrightarrow> (case po_channels P (ch_fd ch) of None \<Rightarrow> False | Some q \<Rightarrow> q = p)"

section \<open>The data union\<close>

text \<open>
  \<open>epoll_data_t\<close> is a union: \<open>ptr\<close> is all of its 64 bits, \<open>fd\<close> the four bytes at its
  start, which are the low 32 bits on the little-endian machines epoll runs on.
\<close>

definition data_set_ptr :: "ptr \<Rightarrow> 64 word \<Rightarrow> 64 word" where
  "data_set_ptr p u = p"

definition data_set_fd :: "c_int \<Rightarrow> 64 word \<Rightarrow> 64 word" where
  "data_set_fd fd u = push_bit 32 (drop_bit 32 u) OR ucast fd"

text \<open>The event \<open>update\<close> hands to the kernel: the union is written twice, pointer first.\<close>

definition registration :: "ptr \<Rightarrow> channel \<Rightarrow> epoll_event" where
  "registration p ch =
     \<lparr>ee_events = ch_events ch,
      ee_data = data_set_fd (ch_fd ch) (data_set_ptr p 0)\<rparr>"

lemma bit_data_set_fd:
  "bit (data_set_fd fd u) n \<longleftrightarrow> (if n < 32 then bit fd n else n < 64 \<and> bit u n)"
  by (auto simp: data_set_fd_def bit_or_iff bit_push_bit_iff bit_drop_bit_eq bit_ucast_iff
      possible_bit_word dest: bit_imp_possible_bit)

lemma data_survives_iff:
  "data_set_fd fd (data_set_ptr p u) = p \<longleftrightarrow> (ucast p :: c_int) = fd"
proof
  assume eq: "data_set_fd fd (data_set_ptr p u) = p"
  show "(ucast p :: c_int) = fd"
  proof (rule bit_word_eqI)
    fix n
    assume "n < LENGTH(32)"
    with eq show "bit (ucast p :: c_int) n = bit fd n"
      using bit_data_set_fd [of fd p n] by (simp add: data_set_ptr_def bit_ucast_iff possible_bit_word)
  qed
next
  assume "(ucast p :: c_int) = fd"
  then show "data_set_fd fd (data_set_ptr p u) = p"
    by (intro bit_word_eqI)
      (auto simp: bit_data_set_fd data_set_ptr_def bit_ucast_iff possible_bit_word)
qed

lemma data_low: "(ucast (data_set_fd fd u) :: c_int) = fd"
  by (rule bit_word_eqI) (simp add: bit_ucast_iff possible_bit_word bit_data_set_fd)

section \<open>Changing the interest list\<close>

definition EPollPoller_update ::
  "os \<Rightarrow> poller \<Rightarrow> ctl_op \<Rightarrow> ptr \<Rightarrow> channel \<Rightarrow> 'a kworld_scheme \<Rightarrow> failure + 'a kworld_scheme" where
  "EPollPoller_update os P op p ch w =
     (let (r, w) = sys_epoll_ctl os (po_epollfd P) op (ch_fd ch) (registration p ch) w
      in case r of
           None \<Rightarrow> Inr w
         | Some e \<Rightarrow> if op = EPOLL_CTL_DEL then Inr (log_msg ERROR w) else Inl Fatal)"

definition EPollPoller_updateChannel ::
  "os \<Rightarrow> ptr \<Rightarrow> poller \<Rightarrow> channel \<Rightarrow> 'a kworld_scheme
     \<Rightarrow> failure + (poller \<times> channel \<times> 'a kworld_scheme)" where
  "EPollPoller_updateChannel os p P ch w =
     (let index = ch_index ch in
      if index = kNew \<or> index = kDeleted
      then
        (let P = (if index = kNew then P\<lparr>po_channels := (po_channels P)(ch_fd ch \<mapsto> p)\<rparr> else P);
             ch = set_index kAdded ch
         in bnd (EPollPoller_update os P EPOLL_CTL_ADD p ch w) (\<lambda>w. Inr (P, ch, w)))
      else if isNoneEvent ch
      then bnd (EPollPoller_update os P EPOLL_CTL_DEL p ch w)
             (\<lambda>w. Inr (P, set_index kDeleted ch, w))
      else bnd (EPollPoller_update os P EPOLL_CTL_MOD p ch w) (\<lambda>w. Inr (P, ch, w)))"

definition EPollPoller_removeChannel ::
  "os \<Rightarrow> ptr \<Rightarrow> poller \<Rightarrow> channel \<Rightarrow> 'a kworld_scheme
     \<Rightarrow> failure + (poller \<times> channel \<times> 'a kworld_scheme)" where
  "EPollPoller_removeChannel os p P ch w =
     (let P = P\<lparr>po_channels := (po_channels P)(ch_fd ch := None)\<rparr>;
          index = ch_index ch
      in bnd (if index = kAdded then EPollPoller_update os P EPOLL_CTL_DEL p ch w else Inr w)
           (\<lambda>w. Inr (P, set_index kNew ch, w)))"

section \<open>Waiting for events\<close>

text \<open>
  \<open>fillActiveChannels\<close> takes the channel of each of the first \<open>numEvents\<close> entries from
  the entry's data union, records the reported mask in it and lists it as active.
\<close>

fun fill_entries ::
  "epoll_event list \<Rightarrow> 'a chworld_scheme \<Rightarrow> failure + (ptr list \<times> 'a chworld_scheme)" where
  "fill_entries [] w = Inr ([], w)"
| "fill_entries (e # es) w =
     bnd (get_channel (ee_data e) w) (\<lambda>ch.
     bnd (fill_entries es (put_channel (ee_data e) (set_revents (ee_events e) ch) w))
       (\<lambda>(active, w). Inr (ee_data e # active, w)))"

definition fillActiveChannels ::
  "nat \<Rightarrow> poller \<Rightarrow> 'a chworld_scheme \<Rightarrow> failure + (ptr list \<times> 'a chworld_scheme)" where
  "fillActiveChannels numEvents P w =
     (if length (po_events P) < numEvents then Inl OutOfBounds
      else fill_entries (take numEvents (po_events P)) w)"

text \<open>
  \<open>poll\<close>: the kernel fills the front of the event buffer; a full buffer is doubled. The time
  stamp is taken after the wait and returned.
\<close>

definition EPollPoller_poll ::
  "os \<Rightarrow> poller \<Rightarrow> 'a chworld_scheme
     \<Rightarrow> failure + (Timestamp \<times> poller \<times> ptr list \<times> 'a chworld_scheme)" where
  "EPollPoller_poll os P w =
     (let (r, w) = sys_epoll_wait os (po_epollfd P) (length (po_events P)) w;
          now = os_time os (trace w)
      in case r of
           Inl savedError \<Rightarrow>
             Inr (now, P, [], if savedError \<noteq> EINTR then log_msg ERROR w else w)
         | Inr evs \<Rightarrow>
             (let numEvents = length evs in
              bnd (std_copy_in evs (po_events P) 0) (\<lambda>events.
              let P = P\<lparr>po_events := events\<rparr> in
              if 0 < numEvents
              then bnd (fillActiveChannels numEvents P w) (\<lambda>(active, w).
                   Inr (now,
                        if numEvents = length (po_events P)
                        then P\<lparr>po_events := po_events P
                               @ replicate (length (po_events P)) no_event\<rparr>
                        else P,
                        active, w))
              else Inr (now, P, [], w))))"

section \<open>The map, the indices and the kernel's list agree\<close>

text \<open>What the kernel should be watching for a descriptor, according to map and indices.\<close>

definition listed :: "poller \<Rightarrow> 'a chworld_scheme \<Rightarrow> (c_int \<rightharpoonup> epoll_event)" where
  "listed P w fd =
     (case po_channels P fd of
        None \<Rightarrow> None
      | Some p \<Rightarrow>
          (case chans w p of
             None \<Rightarrow> None
           | Some ch \<Rightarrow> if ch_index ch = kAdded then Some (registration p ch) else None))"

definition poller_inv :: "poller \<Rightarrow> 'a chworld_scheme \<Rightarrow> bool" where
  "poller_inv P w \<longleftrightarrow>
     (\<forall>fd p. po_channels P fd = Some p \<longrightarrow>
        (\<exists>ch. chans w p = Some ch \<and> ch_loop ch = po_ownerLoop P \<and> ch_fd ch = fd \<and>
           (ch_index ch = kAdded \<or> ch_index ch = kDeleted))) \<and>
     (\<forall>p ch. chans w p = Some ch \<longrightarrow> ch_loop ch = po_ownerLoop P \<longrightarrow>
        ch_index ch = kNew \<or> po_channels P (ch_fd ch) = Some p) \<and>
     (\<forall>fd. interest (trace w) (po_epollfd P) fd = listed P w fd)"

lemma poller_inv_registered:
  assumes "poller_inv P w" and "po_channels P fd = Some p"
  obtains ch where "chans w p = Some ch" and "ch_loop ch = po_ownerLoop P" and "ch_fd ch = fd"
    and "ch_index ch = kAdded \<or> ch_index ch = kDeleted"
  using assms by (auto simp: poller_inv_def)

lemma poller_inv_index:
  assumes "poller_inv P w" and "chans w p = Some ch" and "ch_loop ch = po_ownerLoop P"
  shows "ch_index ch = kNew \<or>
    (ch_index ch = kAdded \<or> ch_index ch = kDeleted) \<and> po_channels P (ch_fd ch) = Some p"
proof (cases "ch_index ch = kNew")
  case False
  with assms have "po_channels P (ch_fd ch) = Some p" by (auto simp: poller_inv_def)
  with assms show ?thesis by (auto elim: poller_inv_registered)
qed simp

lemma poller_inv_interest:
  "poller_inv P w \<Longrightarrow> interest (trace w) (po_epollfd P) fd = listed P w fd"
  by (simp add: poller_inv_def)

text \<open>
  A channel may be put under its descriptor: it is known to the map already, or the descriptor
  is free.
\<close>

definition may_register :: "poller \<Rightarrow> channel \<Rightarrow> bool" where
  "may_register P ch \<longleftrightarrow> (ch_index ch = kNew \<longrightarrow> po_channels P (ch_fd ch) = None)"

text \<open>Same channel, possibly with another interest mask.\<close>

definition same_slot :: "channel \<Rightarrow> channel \<Rightarrow> bool" where
  "same_slot ch ch' \<longleftrightarrow>
     ch_loop ch' = ch_loop ch \<and> ch_fd ch' = ch_fd ch \<and> ch_index ch' = ch_index ch"

lemma same_slot_set_interest [simp]: "same_slot ch (set_interest i ch)"
  by (simp add: same_slot_def)

lemma registration_set_index [simp]: "registration p (set_index i ch) = registration p ch"
  by (simp add: registration_def set_index_def)

lemma set_index_simps [simp]:
  "ch_index (set_index i ch) = i" "ch_fd (set_index i ch) = ch_fd ch"
  "ch_loop (set_index i ch) = ch_loop ch" "ch_events (set_index i ch) = ch_events ch"
  "isNoneEvent (set_index i ch) = isNoneEvent ch" "isWriting (set_index i ch) = isWriting ch"
  "isReading (set_index i ch) = isReading ch" "same_dispatch ch (set_index i ch)"
  "ch_tie (set_index i ch) = ch_tie ch" "ch_tied (set_index i ch) = ch_tied ch"
  by (simp_all add: set_index_def isNoneEvent_def isWriting_def isReading_def same_dispatch_def)

section \<open>What an update does\<close>

text \<open>The call, the new map and the new index an update comes down to.\<close>

definition ctl_for :: "channel \<Rightarrow> ctl_op" where
  "ctl_for ch =
     (if ch_index ch \<noteq> kAdded then EPOLL_CTL_ADD
      else if isNoneEvent ch then EPOLL_CTL_DEL else EPOLL_CTL_MOD)"

definition index_after :: "channel \<Rightarrow> int" where
  "index_after ch = (if ch_index ch = kAdded \<and> isNoneEvent ch then kDeleted else kAdded)"

definition channels_after :: "ptr \<Rightarrow> channel \<Rightarrow> poller \<Rightarrow> poller" where
  "channels_after p ch P =
     (if ch_index ch = kNew then P\<lparr>po_channels := (po_channels P)(ch_fd ch \<mapsto> p)\<rparr> else P)"

lemma channels_after_simps [simp]:
  "po_ownerLoop (channels_after p ch P) = po_ownerLoop P"
  "po_epollfd (channels_after p ch P) = po_epollfd P"
  "po_events (channels_after p ch P) = po_events P"
  by (simp_all add: channels_after_def)

definition ctl_event :: "poller \<Rightarrow> ctl_op \<Rightarrow> ptr \<Rightarrow> channel \<Rightarrow> event" where
  "ctl_event P op p ch = EvEpollCtl (po_epollfd P) op (ch_fd ch) (registration p ch) None"

lemma EPollPoller_update_ok:
  assumes "epoll_ctl_contract os"
    and "(op = EPOLL_CTL_ADD) = (interest (trace w) (po_epollfd P) (ch_fd ch) = None)"
  shows "EPollPoller_update os P op p ch w = Inr (emit (ctl_event P op p ch) w)"
  using assms
  by (cases op) (auto simp: EPollPoller_update_def sys_epoll_ctl_def epoll_ctl_contract_def
      ctl_event_def Let_def)

lemma EPollPoller_update_Inr:
  "EPollPoller_update os P op p ch w = Inr w' \<Longrightarrow>
     \<exists>r ls. trace w' = trace w @ EvEpollCtl (po_epollfd P) op (ch_fd ch) (registration p ch) r # ls
       \<and> (ls = [] \<or> ls = [EvLog ERROR])"
  by (auto simp: EPollPoller_update_def sys_epoll_ctl_def Let_def split: option.splits if_splits)

text \<open>Whether a channel's descriptor is in the kernel's list is what its index says.\<close>

lemma interest_by_index:
  assumes inv: "poller_inv P w" and p: "chans w p = Some ch" "ch_loop ch = po_ownerLoop P"
    and free: "may_register P ch"
  shows "interest (trace w) (po_epollfd P) (ch_fd ch) = None \<longleftrightarrow> ch_index ch \<noteq> kAdded"
  using poller_inv_index [OF inv p] poller_inv_interest [OF inv, of "ch_fd ch"] p free
  by (auto simp: listed_def may_register_def split: if_splits)

lemma updateChannel_call:
  assumes os: "epoll_ctl_contract os"
    and listed: "interest (trace w) (po_epollfd P) (ch_fd ch) = None \<longleftrightarrow> ch_index ch \<noteq> kAdded"
    and index: "ch_index ch = kNew \<or> ch_index ch = kDeleted \<or> ch_index ch = kAdded"
  shows "EPollPoller_updateChannel os p P ch w =
    Inr (channels_after p ch P, set_index (index_after ch) ch, emit (ctl_event P (ctl_for ch) p ch) w)"
proof -
  have upd: "EPollPoller_update os Q (ctl_for ch) p ch' w = Inr (emit (ctl_event P (ctl_for ch) p ch) w)"
    if "po_epollfd Q = po_epollfd P" "ch_fd ch' = ch_fd ch" "registration p ch' = registration p ch"
    for Q ch'
  proof -
    have "(ctl_for ch = EPOLL_CTL_ADD) = (interest (trace w) (po_epollfd Q) (ch_fd ch') = None)"
      using listed that by (simp add: ctl_for_def)
    from EPollPoller_update_ok [OF os this, of p] that show ?thesis by (simp add: ctl_event_def)
  qed
  show ?thesis
  proof (cases "ch_index ch = kAdded")
    case True
    show ?thesis
    proof (cases "isNoneEvent ch")
      case none: True
      then have "ctl_for ch = EPOLL_CTL_DEL" using True by (simp add: ctl_for_def)
      with upd [of P ch] True none show ?thesis
        by (simp add: EPollPoller_updateChannel_def channels_after_def index_after_def)
    next
      case some: False
      then have "ctl_for ch = EPOLL_CTL_MOD" using True by (simp add: ctl_for_def)
      moreover have "set_index kAdded ch = ch" using True by (simp add: set_index_def)
      ultimately show ?thesis using upd [of P ch] True some
        by (simp add: EPollPoller_updateChannel_def channels_after_def index_after_def)
    qed
  next
    case False
    then have "ctl_for ch = EPOLL_CTL_ADD" by (simp add: ctl_for_def)
    with upd [of "channels_after p ch P" "set_index kAdded ch"] False index show ?thesis
      by (auto simp: EPollPoller_updateChannel_def channels_after_def index_after_def Let_def)
  qed
qed

lemma removeChannel_call:
  assumes os: "epoll_ctl_contract os"
    and listed: "interest (trace w) (po_epollfd P) (ch_fd ch) = None \<longleftrightarrow> ch_index ch \<noteq> kAdded"
  shows "EPollPoller_removeChannel os p P ch w =
    Inr (P\<lparr>po_channels := (po_channels P)(ch_fd ch := None)\<rparr>, set_index kNew ch,
      if ch_index ch = kAdded then emit (ctl_event P EPOLL_CTL_DEL p ch) w else w)"
proof (cases "ch_index ch = kAdded")
  case True
  let ?P = "P\<lparr>po_channels := (po_channels P)(ch_fd ch := None)\<rparr>"
  have "(EPOLL_CTL_DEL = EPOLL_CTL_ADD) = (interest (trace w) (po_epollfd ?P) (ch_fd ch) = None)"
    using listed True by simp
  from EPollPoller_update_ok [OF os this, of p] True show ?thesis
    by (simp add: EPollPoller_removeChannel_def ctl_event_def Let_def)
next
  case False
  then show ?thesis by (simp add: EPollPoller_removeChannel_def Let_def)
qed

lemma slot_facts:
  assumes inv: "poller_inv P w"
    and p: "chans w p = Some ch0" "ch_loop ch0 = po_ownerLoop P"
    and ch: "same_slot ch0 ch" and free: "may_register P ch0"
  shows "interest (trace w) (po_epollfd P) (ch_fd ch) = None \<longleftrightarrow> ch_index ch \<noteq> kAdded"
    and "ch_index ch = kNew \<or> ch_index ch = kDeleted \<or> ch_index ch = kAdded"
  using interest_by_index [OF inv p free] poller_inv_index [OF inv p] ch
  by (auto simp: same_slot_def)

lemma updateChannel_eq:
  assumes "epoll_ctl_contract os" and "poller_inv P w"
    and "chans w p = Some ch0" "ch_loop ch0 = po_ownerLoop P"
    and "same_slot ch0 ch" and "may_register P ch0"
  shows "EPollPoller_updateChannel os p P ch w =
    Inr (channels_after p ch P, set_index (index_after ch) ch, emit (ctl_event P (ctl_for ch) p ch) w)"
  by (rule updateChannel_call [OF assms(1) slot_facts [OF assms(2-6)]])

lemma removeChannel_eq:
  assumes "epoll_ctl_contract os" and "poller_inv P w"
    and "chans w p = Some ch0" "ch_loop ch0 = po_ownerLoop P"
    and "same_slot ch0 ch" and "may_register P ch0"
  shows "EPollPoller_removeChannel os p P ch w =
    Inr (P\<lparr>po_channels := (po_channels P)(ch_fd ch := None)\<rparr>, set_index kNew ch,
      if ch_index ch = kAdded then emit (ctl_event P EPOLL_CTL_DEL p ch) w else w)"
  by (rule removeChannel_call [OF assms(1) slot_facts(1) [OF assms(2-6)]])

section \<open>Updates keep the agreement\<close>

lemma poller_inv_cong:
  "trace w' = trace w \<Longrightarrow> chans w' = chans w \<Longrightarrow> po_ownerLoop P' = po_ownerLoop P \<Longrightarrow>
     po_epollfd P' = po_epollfd P \<Longrightarrow> po_channels P' = po_channels P \<Longrightarrow>
     poller_inv P' w' = poller_inv P w"
  by (simp add: poller_inv_def listed_def cong: option.case_cong)

text \<open>
  The step from one agreeing state to the next: one descriptor's entry changes in the map, in
  the store and in the kernel's list, all others stay.
\<close>

lemma poller_inv_slot:
  assumes inv: "poller_inv P w" and p: "chans w p = Some ch0" "ch_loop ch0 = po_ownerLoop P"
    and ch: "ch_loop ch = ch_loop ch0" "ch_fd ch = ch_fd ch0"
    and owner: "po_ownerLoop P' = po_ownerLoop P" "po_epollfd P' = po_epollfd P"
    and slot: "po_channels P (ch_fd ch) = None \<or> po_channels P (ch_fd ch) = Some p"
    and map: "po_channels P' =
      (po_channels P)(ch_fd ch := (if ch_index ch = kNew then None else Some p))"
    and index: "ch_index ch = kNew \<or> ch_index ch = kAdded \<or> ch_index ch = kDeleted"
    and kernel: "interest (trace w') (po_epollfd P) =
      (interest (trace w) (po_epollfd P))
        (ch_fd ch := (if ch_index ch = kAdded then Some (registration p ch) else None))"
    and store: "chans w' = (chans w)(p \<mapsto> ch)"
  shows "poller_inv P' w'"
proof -
  have other: "fd = ch_fd ch" if "po_channels P fd = Some p" for fd
    using poller_inv_registered [OF inv that] p ch by auto
  have "listed P' w' fd = ((listed P w)
      (ch_fd ch := (if ch_index ch = kAdded then Some (registration p ch) else None))) fd" for fd
    using other [of fd] index by (auto simp: listed_def map store split: option.splits)
  then have list: "listed P' w' = (listed P w)
      (ch_fd ch := (if ch_index ch = kAdded then Some (registration p ch) else None))"
    by (rule ext)
  have kernel_old: "interest (trace w) (po_epollfd P) = listed P w"
    using poller_inv_interest [OF inv] by (rule ext)
  have one: "\<exists>c. chans w' q = Some c \<and> ch_loop c = po_ownerLoop P' \<and> ch_fd c = fd \<and>
      (ch_index c = kAdded \<or> ch_index c = kDeleted)" if q: "po_channels P' fd = Some q" for fd q
  proof (cases "fd = ch_fd ch")
    case True
    with q p ch owner index show ?thesis by (auto simp: map store split: if_splits)
  next
    case False
    with q have "po_channels P fd = Some q" by (simp add: map)
    moreover from this other False have "q \<noteq> p" by auto
    ultimately show ?thesis using poller_inv_registered [OF inv] owner
      by (metis fun_upd_other store)
  qed
  have two: "ch_index c = kNew \<or> po_channels P' (ch_fd c) = Some q"
    if q: "chans w' q = Some c" "ch_loop c = po_ownerLoop P'" for q c
  proof (cases "q = p")
    case True
    with q show ?thesis by (auto simp: map store)
  next
    case False
    with q have "chans w q = Some c" by (simp add: store)
    with inv q owner have "ch_index c = kNew \<or> po_channels P (ch_fd c) = Some q"
      by (simp add: poller_inv_def)
    with False slot show ?thesis by (auto simp: map)
  qed
  show ?thesis
    using one two by (simp add: poller_inv_def list kernel kernel_old owner)
qed

lemma updateChannel_inv:
  assumes os: "epoll_ctl_contract os" and inv: "poller_inv P w"
    and p: "chans w p = Some ch0" "ch_loop ch0 = po_ownerLoop P"
    and ch: "same_slot ch0 ch" and free: "may_register P ch0"
    and upd: "EPollPoller_updateChannel os p P ch w = Inr (P', ch', w')"
  shows "poller_inv P' (put_channel p ch' w')"
proof -
  have eq: "P' = channels_after p ch P" "ch' = set_index (index_after ch) ch"
      "w' = emit (ctl_event P (ctl_for ch) p ch) w"
    using upd updateChannel_eq [OF os inv p ch free] by auto
  have index: "ch_index ch = kNew \<or>
      (ch_index ch = kAdded \<or> ch_index ch = kDeleted) \<and> po_channels P (ch_fd ch) = Some p"
    using poller_inv_index [OF inv p] ch by (simp add: same_slot_def)
  show ?thesis
  proof (rule poller_inv_slot [OF inv p])
    show "po_channels P (ch_fd ch') = None \<or> po_channels P (ch_fd ch') = Some p"
      using index free ch by (auto simp: eq may_register_def same_slot_def)
    show "po_channels P' =
        (po_channels P)(ch_fd ch' := (if ch_index ch' = kNew then None else Some p))"
      using index by (auto simp: eq channels_after_def index_after_def)
    show "interest (trace (put_channel p ch' w')) (po_epollfd P) =
        (interest (trace w) (po_epollfd P))
          (ch_fd ch' := (if ch_index ch' = kAdded then Some (registration p ch') else None))"
      by (simp add: eq interest_snoc ctl_event_def ctl_for_def index_after_def)
  qed (use ch in \<open>simp_all add: eq same_slot_def index_after_def put_channel_def emit_def\<close>)
qed

lemma removeChannel_inv:
  assumes os: "epoll_ctl_contract os" and inv: "poller_inv P w"
    and p: "chans w p = Some ch0" "ch_loop ch0 = po_ownerLoop P"
    and ch: "same_slot ch0 ch" and free: "may_register P ch0"
    and rem: "EPollPoller_removeChannel os p P ch w = Inr (P', ch', w')"
  shows "poller_inv P' (put_channel p ch' w')"
proof -
  have eq: "P' = P\<lparr>po_channels := (po_channels P)(ch_fd ch := None)\<rparr>" "ch' = set_index kNew ch"
      "w' = (if ch_index ch = kAdded then emit (ctl_event P EPOLL_CTL_DEL p ch) w else w)"
    using rem removeChannel_eq [OF os inv p ch free] by auto
  have index: "ch_index ch = kNew \<or>
      (ch_index ch = kAdded \<or> ch_index ch = kDeleted) \<and> po_channels P (ch_fd ch) = Some p"
    using poller_inv_index [OF inv p] ch by (simp add: same_slot_def)
  have "interest (trace w) (po_epollfd P) (ch_fd ch) = None" if "ch_index ch \<noteq> kAdded"
    using interest_by_index [OF inv p free] that ch by (simp add: same_slot_def)
  then have kernel: "interest (trace w') (po_epollfd P) =
      (interest (trace w) (po_epollfd P))(ch_fd ch := None)"
    by (auto simp: eq interest_snoc ctl_event_def)
  show ?thesis
  proof (rule poller_inv_slot [OF inv p])
    show "po_channels P (ch_fd ch') = None \<or> po_channels P (ch_fd ch') = Some p"
      using index free ch by (auto simp: eq may_register_def same_slot_def)
    show "interest (trace (put_channel p ch' w')) (po_epollfd P) =
        (interest (trace w) (po_epollfd P))
          (ch_fd ch' := (if ch_index ch' = kAdded then Some (registration p ch') else None))"
      using kernel by (simp add: eq)
  qed (use ch in \<open>simp_all add: eq same_slot_def put_channel_def emit_def\<close>)
qed

section \<open>What a wait reports\<close>

text \<open>Two worlds that differ in reported masks only.\<close>

definition same_but_revents :: "'a chworld_scheme \<Rightarrow> 'a chworld_scheme \<Rightarrow> bool" where
  "same_but_revents w w' \<longleftrightarrow>
     trace w' = trace w \<and>
     (\<forall>q. map_option (set_revents 0) (chans w' q) = map_option (set_revents 0) (chans w q))"

lemma same_but_revents_refl [simp]: "same_but_revents w w"
  by (simp add: same_but_revents_def)

lemma same_but_revents_trans:
  "same_but_revents u v \<Longrightarrow> same_but_revents v w \<Longrightarrow> same_but_revents u w"
  by (simp add: same_but_revents_def)

lemma same_but_revents_put:
  "chans w q = Some ch \<Longrightarrow> same_but_revents w (put_channel q (set_revents r ch) w)"
  by (auto simp: same_but_revents_def set_revents_def)

lemma same_but_revents_live:
  "same_but_revents w w' \<Longrightarrow> (chans w' q = None) = (chans w q = None)"
  by (metis same_but_revents_def option.map_disc_iff)

lemma fill_entries_ok:
  "(\<forall>e \<in> set es. chans w (ee_data e) \<noteq> None) \<Longrightarrow>
     \<exists>w'. fill_entries es w = Inr (map ee_data es, w') \<and> same_but_revents w w' \<and>
       (\<forall>q. q \<notin> ee_data ` set es \<longrightarrow> chans w' q = chans w q) \<and>
       (distinct (map ee_data es) \<longrightarrow>
          (\<forall>e \<in> set es. \<exists>ch. chans w (ee_data e) = Some ch \<and>
             chans w' (ee_data e) = Some (set_revents (ee_events e) ch)))"
proof (induction es arbitrary: w)
  case Nil
  then show ?case by simp
next
  case (Cons e es)
  from Cons.prems obtain ch where ch: "chans w (ee_data e) = Some ch" by auto
  let ?w = "put_channel (ee_data e) (set_revents (ee_events e) ch) w"
  have "\<forall>e \<in> set es. chans ?w (ee_data e) \<noteq> None" using Cons.prems by auto
  from Cons.IH [OF this] obtain w' where w':
      "fill_entries es ?w = Inr (map ee_data es, w')" "same_but_revents ?w w'"
      "\<forall>q. q \<notin> ee_data ` set es \<longrightarrow> chans w' q = chans ?w q"
      "distinct (map ee_data es) \<longrightarrow> (\<forall>e \<in> set es. \<exists>ch. chans ?w (ee_data e) = Some ch \<and>
          chans w' (ee_data e) = Some (set_revents (ee_events e) ch))"
    by blast
  have "same_but_revents w w'"
    using same_but_revents_put [OF ch] w'(2) by (rule same_but_revents_trans)
  moreover have "fill_entries (e # es) w = Inr (map ee_data (e # es), w')"
    using ch w'(1) by simp
  moreover have "chans w' q = chans w q" if "q \<notin> ee_data ` set (e # es)" for q
    using that w'(3) by simp
  moreover have "\<exists>ch. chans w (ee_data e') = Some ch \<and>
      chans w' (ee_data e') = Some (set_revents (ee_events e') ch)"
    if "distinct (map ee_data (e # es))" and "e' \<in> set (e # es)" for e'
  proof (cases "e' = e")
    case True
    with that w'(3) ch show ?thesis by auto
  next
    case False
    with that have "e' \<in> set es" by simp
    moreover from this that(1) have "ee_data e' \<noteq> ee_data e" by (metis distinct.simps(2)
        image_eqI list.set_map list.simps(9))
    ultimately have "e' \<in> set es" and "ee_data e' \<noteq> ee_data e" by blast+
    with w'(4) that show ?thesis by auto
  qed
  ultimately show ?case by blast
qed

lemma fill_entries_dead:
  "chans w (ee_data e) = None \<Longrightarrow> fill_entries (e # es) w = Inl DanglingPointer"
  by simp

lemma listed_cong: "same_but_revents w w' \<Longrightarrow> listed P w' = listed P w"
proof
  fix fd
  assume same: "same_but_revents w w'"
  have "map_option (\<lambda>ch. (ch_index ch, registration q ch)) (chans w' q) =
      map_option (\<lambda>ch. (ch_index ch, registration q ch)) (chans w q)" for q
  proof -
    have "map_option (\<lambda>ch. (ch_index ch, registration q ch)) (map_option (set_revents 0) (chans w' q)) =
        map_option (\<lambda>ch. (ch_index ch, registration q ch)) (map_option (set_revents 0) (chans w q))"
      using same by (simp add: same_but_revents_def)
    then show ?thesis
      by (simp add: option.map_comp o_def set_revents_def registration_def)
  qed
  note view = this
  show "listed P w' fd = listed P w fd"
  proof (cases "po_channels P fd")
    case (Some q)
    with view [of q] show ?thesis
      by (cases "chans w q"; cases "chans w' q") (auto simp: listed_def)
  qed (simp add: listed_def)
qed

lemma set_revents_0_eqD:
  "set_revents 0 ch' = set_revents 0 ch \<Longrightarrow>
     ch_loop ch' = ch_loop ch \<and> ch_fd ch' = ch_fd ch \<and> ch_index ch' = ch_index ch \<and>
     ch_events ch' = ch_events ch"
  by (cases ch, cases ch') (simp add: set_revents_def)

lemma same_but_revents_chan:
  assumes "same_but_revents w w'" and "chans w q = Some ch"
  shows "\<exists>ch'. chans w' q = Some ch' \<and> ch_loop ch' = ch_loop ch \<and> ch_fd ch' = ch_fd ch \<and>
    ch_index ch' = ch_index ch \<and> ch_events ch' = ch_events ch"
proof -
  have "map_option (set_revents 0) (chans w' q) = Some (set_revents 0 ch)"
    using assms by (simp add: same_but_revents_def)
  then obtain ch' where "chans w' q = Some ch'" and "set_revents 0 ch' = set_revents 0 ch"
    by (cases "chans w' q") auto
  with set_revents_0_eqD show ?thesis by blast
qed

lemma same_but_revents_sym: "same_but_revents w w' \<Longrightarrow> same_but_revents w' w"
  by (simp add: same_but_revents_def)

lemma poller_inv_revents:
  assumes inv: "poller_inv P w" and same: "same_but_revents w w'"
  shows "poller_inv P w'"
  unfolding poller_inv_def
proof (intro conjI allI impI)
  fix fd p
  assume fd: "po_channels P fd = Some p"
  obtain ch where "chans w p = Some ch" "ch_loop ch = po_ownerLoop P" "ch_fd ch = fd"
      "ch_index ch = kAdded \<or> ch_index ch = kDeleted"
    by (rule poller_inv_registered [OF inv fd])
  with same_but_revents_chan [OF same] show "\<exists>ch. chans w' p = Some ch \<and>
      ch_loop ch = po_ownerLoop P \<and> ch_fd ch = fd \<and>
      (ch_index ch = kAdded \<or> ch_index ch = kDeleted)"
    by fastforce
next
  fix p ch'
  assume "chans w' p = Some ch'" and owner: "ch_loop ch' = po_ownerLoop P"
  then obtain ch where "chans w p = Some ch" "ch_loop ch = ch_loop ch'" "ch_fd ch = ch_fd ch'"
      "ch_index ch = ch_index ch'"
    using same_but_revents_chan [OF same_but_revents_sym [OF same]] by blast
  with poller_inv_index [OF inv, of p ch] owner
  show "ch_index ch' = kNew \<or> po_channels P (ch_fd ch') = Some p" by auto
next
  fix fd
  show "interest (trace w') (po_epollfd P) fd = listed P w' fd"
    using poller_inv_interest [OF inv] listed_cong [OF same] same
    by (simp add: same_but_revents_def)
qed

text \<open>The poller after a wait that reported the given events.\<close>

definition poller_after :: "epoll_event list \<Rightarrow> poller \<Rightarrow> poller" where
  "poller_after evs P = P\<lparr>po_events := evs @ drop (length evs) (po_events P)
     @ (if evs \<noteq> [] \<and> length evs = length (po_events P)
        then replicate (length (po_events P)) no_event else [])\<rparr>"

definition waited :: "os \<Rightarrow> poller \<Rightarrow> 'a chworld_scheme \<Rightarrow> 'a chworld_scheme" where
  "waited os P w = emit (EvEpollWait (po_epollfd P) (length (po_events P))
     (os_epoll_wait os (trace w) (po_epollfd P) (length (po_events P)))) w"

lemma chans_emit [simp]: "chans (emit e w) = chans w"
  by (simp add: emit_def)

lemma poll_eq:
  assumes "os_epoll_wait os (trace w) (po_epollfd P) (length (po_events P)) = Inr evs"
    and "length evs \<le> length (po_events P)"
  shows "EPollPoller_poll os P w =
    bnd (fill_entries evs (waited os P w))
      (\<lambda>(active, w'). Inr (os_time os (trace (waited os P w)), poller_after evs P, active, w'))"
proof -
  let ?w = "waited os P w"
  have copy: "std_copy_in evs (po_events P) 0 = Inr (evs @ drop (length evs) (po_events P))"
    using assms(2) by (simp add: std_copy_in_def copy_in_eq)
  show ?thesis
  proof (cases "evs = []")
    case True
    with assms copy show ?thesis
      by (simp add: EPollPoller_poll_def sys_epoll_wait_def waited_def poller_after_def Let_def)
  next
    case False
    have "fillActiveChannels (length evs)
        (P\<lparr>po_events := evs @ drop (length evs) (po_events P)\<rparr>) ?w = fill_entries evs ?w"
      using assms(2) by (simp add: fillActiveChannels_def)
    moreover have "evs @ replicate (length evs) no_event = po_events (poller_after evs P)"
        if "length evs = length (po_events P)"
      using False that by (simp add: poller_after_def)
    ultimately show ?thesis
      using assms copy False
      by (cases "fill_entries evs ?w")
        (auto simp: EPollPoller_poll_def sys_epoll_wait_def waited_def poller_after_def Let_def)
  qed
qed

lemma poller_after_simps [simp]:
  "po_ownerLoop (poller_after evs P) = po_ownerLoop P"
  "po_epollfd (poller_after evs P) = po_epollfd P"
  "po_channels (poller_after evs P) = po_channels P"
  by (simp_all add: poller_after_def)

lemma length_poller_after:
  "length evs \<le> length (po_events P) \<Longrightarrow>
     length (po_events (poller_after evs P)) =
       (if length evs = length (po_events P) then 2 else 1) * length (po_events P)"
  by (auto simp: poller_after_def)

text \<open>Every pointer put into the union is the one that comes out of it.\<close>

definition pointers_survive :: "poller \<Rightarrow> bool" where
  "pointers_survive P \<longleftrightarrow> (\<forall>fd p. po_channels P fd = Some p \<longrightarrow> (ucast p :: c_int) = fd)"

lemma reported_registration:
  assumes wait: "epoll_wait_contract os" and inv: "poller_inv P w"
    and reply: "os_epoll_wait os (trace w) (po_epollfd P) n = Inr evs" and e: "e \<in> set evs"
  obtains p ch where "po_channels P (ch_fd ch) = Some p" and "chans w p = Some ch"
    and "ch_loop ch = po_ownerLoop P" and "ch_index ch = kAdded"
    and "ee_data e = data_set_fd (ch_fd ch) (data_set_ptr p 0)"
proof -
  from wait reply e obtain fd r where fd: "interest (trace w) (po_epollfd P) fd = Some r"
      and data: "ee_data e = ee_data r"
    by (fastforce simp: epoll_wait_contract_def)
  then have "listed P w fd = Some r" using poller_inv_interest [OF inv] by simp
  then obtain p ch where p: "po_channels P fd = Some p" "chans w p = Some ch"
      "ch_index ch = kAdded" "r = registration p ch"
    by (auto simp: listed_def split: option.splits if_splits)
  with poller_inv_registered [OF inv p(1)] have "ch_fd ch = fd" "ch_loop ch = po_ownerLoop P"
    by fastforce+
  with p data show ?thesis by (intro that) (auto simp: registration_def)
qed

lemma poll_ok:
  assumes wait: "epoll_wait_contract os" and inv: "poller_inv P w" and ptrs: "pointers_survive P"
    and reply: "os_epoll_wait os (trace w) (po_epollfd P) (length (po_events P)) = Inr evs"
  obtains w' where "EPollPoller_poll os P w =
      Inr (os_time os (trace (waited os P w)), poller_after evs P, map ee_data evs, w')"
    and "same_but_revents (waited os P w) w'"
    and "\<forall>e \<in> set evs. \<exists>ch. chans w (ee_data e) = Some ch \<and> ch_loop ch = po_ownerLoop P \<and>
        ch_index ch = kAdded \<and> po_channels P (ch_fd ch) = Some (ee_data e)"
    and "distinct (map ee_data evs) \<longrightarrow> (\<forall>e \<in> set evs. \<exists>ch. chans w (ee_data e) = Some ch \<and>
        chans w' (ee_data e) = Some (set_revents (ee_events e) ch))"
proof -
  have reported: "\<exists>ch. chans w (ee_data e) = Some ch \<and> ch_loop ch = po_ownerLoop P \<and>
      ch_index ch = kAdded \<and> po_channels P (ch_fd ch) = Some (ee_data e)" if "e \<in> set evs" for e
  proof -
    obtain p ch where p: "po_channels P (ch_fd ch) = Some p" "chans w p = Some ch"
        "ch_loop ch = po_ownerLoop P" "ch_index ch = kAdded"
        "ee_data e = data_set_fd (ch_fd ch) (data_set_ptr p 0)"
      by (rule reported_registration [OF wait inv reply \<open>e \<in> set evs\<close>])
    then have "ee_data e = p"
      using ptrs data_survives_iff [of "ch_fd ch" p 0] by (auto simp: pointers_survive_def)
    with p show ?thesis by auto
  qed
  have len: "length evs \<le> length (po_events P)"
    using wait reply by (auto simp: epoll_wait_contract_def)
  have live: "\<forall>e \<in> set evs. chans (waited os P w) (ee_data e) \<noteq> None"
    using reported by (fastforce simp: waited_def)
  from fill_entries_ok [OF this] obtain w' where w':
      "fill_entries evs (waited os P w) = Inr (map ee_data evs, w')"
      "same_but_revents (waited os P w) w'"
      "distinct (map ee_data evs) \<longrightarrow> (\<forall>e \<in> set evs. \<exists>ch.
        chans (waited os P w) (ee_data e) = Some ch \<and>
        chans w' (ee_data e) = Some (set_revents (ee_events e) ch))"
    by blast
  show ?thesis
  proof (rule that [of w'])
    show "EPollPoller_poll os P w =
        Inr (os_time os (trace (waited os P w)), poller_after evs P, map ee_data evs, w')"
      using poll_eq [OF reply len] w'(1) by simp
  qed (use w' reported in \<open>auto simp: waited_def\<close>)
qed

lemma waited_inv: "poller_inv P w \<Longrightarrow> poller_inv P (waited os P w)"
  by (simp add: poller_inv_def listed_def waited_def interest_snoc cong: option.case_cong)

section \<open>Properties\<close>

text \<open>
  C6 (updates keep poller and kernel in step). While map, indices and kernel list agree, changing a channel's interest
  and updating it succeeds (no fatal exit), makes exactly one \<open>epoll_ctl\<close> call (add for a
  channel that is not added, delete for an empty mask, modify otherwise), leaves the agreement
  intact, and leaves the kernel watching the channel's descriptor for exactly the channel's mask
  (unless the channel was added and its mask is now empty: then it is no longer watched).
\<close>

theorem updateChannel_agrees:
  assumes "epoll_ctl_contract os" and "poller_inv P w"
    and "chans w p = Some ch" and "ch_loop ch = po_ownerLoop P" and "may_register P ch"
  shows "\<exists>P' ch' w'. EPollPoller_updateChannel os p P (set_interest i ch) w = Inr (P', ch', w') \<and>
    trace w' = trace w @ [ctl_event P (ctl_for (set_interest i ch)) p (set_interest i ch)] \<and>
    poller_inv P' (put_channel p ch' w') \<and>
    map_option ee_events (interest (trace w') (po_epollfd P) (ch_fd ch)) =
      (if ch_index ch = kAdded \<and> isNoneEvent (set_interest i ch) then None
       else Some (ch_events (set_interest i ch)))"
proof -
  let ?ch = "set_interest i ch"
  have eq: "EPollPoller_updateChannel os p P ?ch w = Inr (channels_after p ?ch P,
      set_index (index_after ?ch) ?ch, emit (ctl_event P (ctl_for ?ch) p ?ch) w)"
    by (rule updateChannel_eq [OF assms(1-4) _ assms(5)]) simp
  from updateChannel_inv [OF assms(1-4) _ assms(5) eq]
  have "poller_inv (channels_after p ?ch P) (put_channel p (set_index (index_after ?ch) ?ch)
      (emit (ctl_event P (ctl_for ?ch) p ?ch) w))"
    by simp
  with eq show ?thesis
    by (auto simp: interest_snoc ctl_event_def ctl_for_def registration_def)
qed

theorem updateChannel_agrees_witness:
  "let ch = Channel_ctor 0 8;
       P = \<lparr>po_ownerLoop = 0, po_epollfd = 3, po_events = [], po_channels = Map.empty\<rparr>
   in \<exists>P' ch' w'. EPollPoller_updateChannel demo_os 8 P (set_interest EnableReading ch)
        \<lparr>trace = [], chans = [8 \<mapsto> ch]\<rparr> = Inr (P', ch', w') \<and>
      map_option ee_events (interest (trace w') 3 8) = Some kReadEvent"
proof -
  let ?P = "\<lparr>po_ownerLoop = 0, po_epollfd = 3, po_events = [], po_channels = Map.empty\<rparr>"
  let ?ch = "Channel_ctor 0 8"
  let ?w = "\<lparr>trace = [], chans = [8 \<mapsto> ?ch]\<rparr>"
  have "poller_inv ?P ?w"
    by (simp add: poller_inv_def listed_def Channel_ctor_def kNew_def)
  from updateChannel_agrees [OF demo_os_epoll_ctl this, of 8 ?ch EnableReading]
  show ?thesis
    by (simp add: may_register_def Channel_ctor_def set_interest.simps index_defs Let_def)
      blast
qed

text \<open>
  Removal. Under the same agreement, removing a channel succeeds, takes its descriptor out of the map
  and out of the kernel's list, makes a call only if the channel was added, and keeps the
  agreement; a channel that was removed is not found any more.
\<close>

theorem removeChannel_agrees:
  assumes "epoll_ctl_contract os" and "poller_inv P w"
    and "chans w p = Some ch" and "ch_loop ch = po_ownerLoop P" and "may_register P ch"
  shows "\<exists>P' ch' w'. EPollPoller_removeChannel os p P ch w = Inr (P', ch', w') \<and>
    trace w' = trace w @ (if ch_index ch = kAdded then [ctl_event P EPOLL_CTL_DEL p ch] else []) \<and>
    poller_inv P' (put_channel p ch' w') \<and> \<not> hasChannel P' p ch' \<and>
    interest (trace w') (po_epollfd P) (ch_fd ch) = None"
proof -
  have slot: "same_slot ch ch" by (simp add: same_slot_def)
  note eq = removeChannel_eq [OF assms(1-4) slot assms(5)]
  note inv = removeChannel_inv [OF assms(1-4) slot assms(5) eq]
  have "interest (trace w) (po_epollfd P) (ch_fd ch) = None" if "ch_index ch \<noteq> kAdded"
    using interest_by_index [OF assms(2-5)] that by simp
  with eq inv show ?thesis
    by (auto simp: interest_snoc ctl_event_def hasChannel_def)
qed

theorem removeChannel_agrees_witness:
  "let ch = (Channel_ctor 0 8)\<lparr>ch_index := kDeleted\<rparr>;
       P = \<lparr>po_ownerLoop = 0, po_epollfd = 3, po_events = [], po_channels = [8 \<mapsto> 8]\<rparr>
   in \<exists>P' ch' w'. EPollPoller_removeChannel demo_os 8 P ch \<lparr>trace = [], chans = [8 \<mapsto> ch]\<rparr>
        = Inr (P', ch', w') \<and> \<not> hasChannel P' 8 ch'"
proof -
  let ?P = "\<lparr>po_ownerLoop = 0, po_epollfd = 3, po_events = [], po_channels = [8 \<mapsto> 8]\<rparr>"
  let ?ch = "(Channel_ctor 0 8)\<lparr>ch_index := kDeleted\<rparr>"
  let ?w = "\<lparr>trace = [], chans = [8 \<mapsto> ?ch]\<rparr>"
  have "poller_inv ?P ?w"
    by (simp add: poller_inv_def listed_def Channel_ctor_def)
  from removeChannel_agrees [OF demo_os_epoll_ctl this, of 8 ?ch]
  show ?thesis
    by (simp add: may_register_def Channel_ctor_def Let_def) blast
qed

text \<open>
  C29 (the union overwrites the pointer). \<open>update\<close> stores the channel pointer in the union and then
  the descriptor over its low half, so that the pointer a wait hands back is the channel's address
  only if the low 32 bits of the address happen to be the descriptor. Let all channels live at
  addresses that are multiples of eight, as \<open>alignof(Channel)\<close> demands, and no registered descriptor
  be a multiple of eight. Then every event a wait reports belongs to a registered channel and carries
  another pointer than that channel's, namely with the descriptor for its low half, and the first of
  them sends \<open>fillActiveChannels\<close> to an address where no channel lives.
\<close>

theorem poll_loses_channel:
  assumes "epoll_wait_contract os" and "poller_inv P w"
    and "\<forall>q. chans w q \<noteq> None \<longrightarrow> q AND 7 = 0"
    and "\<forall>fd p. po_channels P fd = Some p \<longrightarrow> fd AND 7 \<noteq> 0"
    and "os_epoll_wait os (trace w) (po_epollfd P) (length (po_events P)) = Inr evs" and "evs \<noteq> []"
  shows "EPollPoller_poll os P w = Inl DanglingPointer \<and>
    (\<forall>e \<in> set evs. \<exists>p ch. po_channels P (ch_fd ch) = Some p \<and> chans w p = Some ch \<and>
       ee_data e = push_bit 32 (drop_bit 32 p) OR ucast (ch_fd ch) \<and> ee_data e \<noteq> p)"
proof -
  have reported: "\<exists>p ch. po_channels P (ch_fd ch) = Some p \<and> chans w p = Some ch \<and>
      ee_data e = push_bit 32 (drop_bit 32 p) OR ucast (ch_fd ch) \<and> ee_data e \<noteq> p \<and>
      chans w (ee_data e) = None" if e: "e \<in> set evs" for e
  proof -
    obtain p ch where p: "po_channels P (ch_fd ch) = Some p" "chans w p = Some ch"
        "ee_data e = data_set_fd (ch_fd ch) (data_set_ptr p 0)"
      by (rule reported_registration [OF assms(1,2,5) e])
    have "(ucast (ee_data e AND 7) :: c_int) = ucast (ee_data e) AND 7"
      by (simp add: unsigned_and_eq)
    also have "\<dots> = ch_fd ch AND 7" by (simp add: p data_low)
    finally have "ee_data e AND 7 \<noteq> 0" using assms(4) p(1) by (metis unsigned_0)
    then have dead: "chans w (ee_data e) = None" using assms(3) by auto
    with p(2) have "ee_data e \<noteq> p" by auto
    with p dead show ?thesis
      by (intro exI [of _ p] exI [of _ ch]) (simp add: data_set_fd_def data_set_ptr_def)
  qed
  obtain e es where evs: "evs = e # es" using assms(6) by (cases evs) auto
  with reported have dead: "chans (waited os P w) (ee_data e) = None" by (fastforce simp: waited_def)
  have len: "length evs \<le> length (po_events P)"
    using assms(1,5) by (auto simp: epoll_wait_contract_def)
  from poll_eq [OF assms(5) len] fill_entries_dead [OF dead] evs
  have "EPollPoller_poll os P w = Inl DanglingPointer" by simp
  with reported show ?thesis by blast
qed

text \<open>A world with one registered channel, at a given address and descriptor.\<close>

definition one_channel :: "ptr \<Rightarrow> c_int \<Rightarrow> channel" where
  "one_channel p fd = (Channel_ctor 0 fd)\<lparr>ch_index := kAdded, ch_events := kReadEvent\<rparr>"

definition one_poller :: "ptr \<Rightarrow> c_int \<Rightarrow> poller" where
  "one_poller p fd = \<lparr>po_ownerLoop = 0, po_epollfd = 3,
     po_events = replicate kInitEventListSize no_event, po_channels = [fd \<mapsto> p]\<rparr>"

definition one_world :: "ptr \<Rightarrow> c_int \<Rightarrow> chworld" where
  "one_world p fd =
     \<lparr>trace = [ctl_event (one_poller p fd) EPOLL_CTL_ADD p (one_channel p fd)],
      chans = [p \<mapsto> one_channel p fd]\<rparr>"

lemma one_poller_inv: "poller_inv (one_poller p fd) (one_world p fd)"
  by (auto simp: poller_inv_def listed_def one_poller_def one_world_def one_channel_def
      Channel_ctor_def ctl_event_def interest_def)

lemma one_reply:
  "os_epoll_wait (ready_os fd r) (trace (one_world p fd)) (po_epollfd (one_poller p fd))
      (length (po_events (one_poller p fd))) =
    Inr [\<lparr>ee_events = r, ee_data = data_set_fd fd (data_set_ptr p 0)\<rparr>]"
  by (simp add: ready_os_def one_world_def one_poller_def one_channel_def Channel_ctor_def
      ctl_event_def interest_def registration_def kInitEventListSize_def)

theorem poll_loses_channel_witness:
  "EPollPoller_poll (ready_os 5 1) (one_poller 16 5) (one_world 16 5) = Inl DanglingPointer"
proof -
  have aligned: "\<forall>q. chans (one_world 16 5) q \<noteq> None \<longrightarrow> q AND 7 = 0"
      "\<forall>fd p. po_channels (one_poller 16 5) fd = Some p \<longrightarrow> fd AND 7 \<noteq> 0"
    by (simp_all add: one_world_def one_poller_def)
  from poll_loses_channel [OF ready_os_epoll_wait one_poller_inv aligned one_reply] show ?thesis by simp
qed

text \<open>
  C28 (reports reach the right channels). When the pointers do survive in the union, a wait reports only channels that are
  registered with this poller and added, in the kernel's order; it records each reported mask in
  its channel and changes no other channel and no other member; map, indices and kernel list
  still agree; and the event buffer is doubled exactly when it was filled, so that it never
  becomes empty.
\<close>

theorem poll_reports:
  assumes "epoll_wait_contract os" and "poller_inv P w" and "pointers_survive P"
    and "os_epoll_wait os (trace w) (po_epollfd P) (length (po_events P)) = Inr evs"
  shows "\<exists>now P' w'. EPollPoller_poll os P w = Inr (now, P', map ee_data evs, w') \<and>
    poller_inv P' w' \<and> pointers_survive P' \<and>
    (\<forall>p \<in> set (map ee_data evs). \<exists>ch. chans w p = Some ch \<and> ch_index ch = kAdded \<and>
       ch_loop ch = po_ownerLoop P \<and> po_channels P (ch_fd ch) = Some p) \<and>
    (distinct (map ee_data evs) \<longrightarrow> (\<forall>e \<in> set evs. \<exists>ch. chans w (ee_data e) = Some ch \<and>
       chans w' (ee_data e) = Some (set_revents (ee_events e) ch))) \<and>
    same_but_revents (waited os P w) w' \<and>
    length (po_events P') =
      (if length evs = length (po_events P) then 2 else 1) * length (po_events P)"
proof -
  obtain w' where w': "EPollPoller_poll os P w =
      Inr (os_time os (trace (waited os P w)), poller_after evs P, map ee_data evs, w')"
    "same_but_revents (waited os P w) w'"
    "\<forall>e \<in> set evs. \<exists>ch. chans w (ee_data e) = Some ch \<and> ch_loop ch = po_ownerLoop P \<and>
        ch_index ch = kAdded \<and> po_channels P (ch_fd ch) = Some (ee_data e)"
    "distinct (map ee_data evs) \<longrightarrow> (\<forall>e \<in> set evs. \<exists>ch. chans w (ee_data e) = Some ch \<and>
        chans w' (ee_data e) = Some (set_revents (ee_events e) ch))"
    by (rule poll_ok [OF assms])
  have len: "length evs \<le> length (po_events P)"
    using assms(1,4) by (auto simp: epoll_wait_contract_def)
  have "poller_inv (poller_after evs P) w' = poller_inv P w'"
    by (rule poller_inv_cong) simp_all
  then have "poller_inv (poller_after evs P) w'"
    using poller_inv_revents [OF waited_inv [OF assms(2)] w'(2)] by simp
  moreover have "pointers_survive (poller_after evs P)"
    using assms(3) by (simp add: pointers_survive_def)
  ultimately show ?thesis
    using w' length_poller_after [OF len] by fastforce
qed

theorem poll_reports_witness:
  "\<exists>now P' w'. EPollPoller_poll (ready_os 8 1) (one_poller 8 8) (one_world 8 8) =
      Inr (now, P', [8], w') \<and>
    chans w' 8 = Some (set_revents 1 (one_channel 8 8))"
proof -
  have survive: "data_set_fd 8 (data_set_ptr 8 0) = 8"
    by (simp add: data_set_fd_def data_set_ptr_def)
  have "pointers_survive (one_poller 8 8)"
    by (simp add: pointers_survive_def one_poller_def)
  from poll_reports [OF ready_os_epoll_wait one_poller_inv this one_reply, of 1]
  show ?thesis by (fastforce simp: survive one_world_def)
qed

end
