(* ===== verification/InterestRegistry.thy ===== *)
theory InterestRegistry
  imports Channel
begin

text \<open>
  The interface \<open>Poller\<close> offers to the owners of channels (\<open>src/src/Poller.h\<close>), as they see
  it through \<open>Channel\<close>: change the interest of a channel, remove it. The abstract machine keeps
  two tables, the mask each channel declares and the mask the kernel watches for it; the locale
  \<open>interest_registry\<close> names the laws a provider promises, and shows once that any script of
  operations then refines the abstract machine.
\<close>

unbundle bit_operations_syntax

text \<open>The mask an interest operation leaves.\<close>

fun interest_mask :: "interest_op \<Rightarrow> u32 \<Rightarrow> u32" where
  "interest_mask EnableReading m = m OR kReadEvent"
| "interest_mask DisableReading m = m AND NOT kReadEvent"
| "interest_mask EnableWriting m = m OR kWriteEvent"
| "interest_mask DisableWriting m = m AND NOT kWriteEvent"
| "interest_mask DisableAll m = kNoneEvent"

lemma ch_events_set_interest [simp]: "ch_events (set_interest i ch) = interest_mask i (ch_events ch)"
  by (cases i) (simp_all add: set_interest.simps)

datatype registry_op = Change interest_op ptr | Drop ptr

fun target :: "registry_op \<Rightarrow> ptr" where
  "target (Change i p) = p"
| "target (Drop p) = p"

text \<open>
  The abstract machine. A channel that is watched and left without interest is dropped from the
  kernel's table; a channel that is not watched enters it even with an empty mask.
\<close>

fun spec_step ::
  "registry_op \<Rightarrow> (ptr \<Rightarrow> u32) \<times> (ptr \<Rightarrow> u32 option) \<Rightarrow> (ptr \<Rightarrow> u32) \<times> (ptr \<Rightarrow> u32 option)" where
  "spec_step (Change i p) (m, k) =
     (let v = interest_mask i (m p)
      in (m(p := v), k(p := (if k p \<noteq> None \<and> v = kNoneEvent then None else Some v))))"
| "spec_step (Drop p) (m, k) = (m, k(p := None))"

text \<open>The kernel watches nothing but what is declared.\<close>

definition faithful :: "(ptr \<Rightarrow> u32) \<times> (ptr \<Rightarrow> u32 option) \<Rightarrow> bool" where
  "faithful mk \<longleftrightarrow> (\<forall>p v. snd mk p = Some v \<longrightarrow> v = fst mk p)"

lemma spec_step_faithful: "faithful mk \<Longrightarrow> faithful (spec_step op mk)"
  by (cases op; cases mk) (auto simp: faithful_def Let_def)

lemma fold_spec_faithful: "faithful mk \<Longrightarrow> faithful (fold spec_step ops mk)"
  by (induction ops arbitrary: mk) (simp_all add: spec_step_faithful del: split_paired_All)

lemma spec_step_other:
  "q \<noteq> target op \<Longrightarrow>
     fst (spec_step op mk) q = fst mk q \<and> snd (spec_step op mk) q = snd mk q"
  by (cases op; cases mk) (auto simp: Let_def)

text \<open>One operation of a script, over given operations.\<close>

fun registry_step ::
  "(interest_op \<Rightarrow> ptr \<Rightarrow> 's \<Rightarrow> failure + 's) \<Rightarrow> (ptr \<Rightarrow> 's \<Rightarrow> failure + 's) \<Rightarrow> registry_op
     \<Rightarrow> 's \<Rightarrow> failure + 's" where
  "registry_step change remove (Change i p) s = change i p s"
| "registry_step change remove (Drop p) s = remove p s"

locale interest_registry =
  fixes inv :: "'s \<Rightarrow> bool"
    and owned :: "'s \<Rightarrow> ptr set"
    and mask_of :: "'s \<Rightarrow> ptr \<Rightarrow> u32"
    and watched :: "'s \<Rightarrow> ptr \<Rightarrow> u32 option"
    and change :: "interest_op \<Rightarrow> ptr \<Rightarrow> 's \<Rightarrow> failure + 's"
    and remove :: "ptr \<Rightarrow> 's \<Rightarrow> failure + 's"
  assumes change_law: "inv s \<Longrightarrow> p \<in> owned s \<Longrightarrow>
      \<exists>s'. change i p s = Inr s' \<and> inv s' \<and> owned s' = owned s \<and>
        (mask_of s', watched s') = spec_step (Change i p) (mask_of s, watched s)"
    and remove_law: "inv s \<Longrightarrow> p \<in> owned s \<Longrightarrow>
      \<exists>s'. remove p s = Inr s' \<and> inv s' \<and> owned s' = owned s \<and>
        (mask_of s', watched s') = spec_step (Drop p) (mask_of s, watched s)"
begin

lemma step_law:
  assumes "inv s" and "target op \<in> owned s"
  shows "\<exists>s'. registry_step change remove op s = Inr s' \<and> inv s' \<and> owned s' = owned s \<and>
    (mask_of s', watched s') = spec_step op (mask_of s, watched s)"
proof (cases op)
  case (Change i p)
  with assms change_law [of s p i] show ?thesis by simp
next
  case (Drop p)
  with assms remove_law [of s p] show ?thesis by simp
qed

lemma script_refines:
  "inv s \<Longrightarrow> target ` set ops \<subseteq> owned s \<Longrightarrow>
     \<exists>s'. run (map (registry_step change remove) ops) s = Inr s' \<and> inv s' \<and> owned s' = owned s \<and>
       (mask_of s', watched s') = fold spec_step ops (mask_of s, watched s)"
proof (induction ops arbitrary: s)
  case Nil
  then show ?case by simp
next
  case (Cons op ops)
  have "target op \<in> owned s" using Cons.prems(2) by simp
  from step_law [OF Cons.prems(1) this] obtain s1 where
      s1: "registry_step change remove op s = Inr s1" "inv s1" "owned s1 = owned s"
      "(mask_of s1, watched s1) = spec_step op (mask_of s, watched s)"
    by blast
  have "target ` set ops \<subseteq> owned s1" using Cons.prems(2) s1(3) by simp
  from Cons.IH [OF s1(2) this] s1(1,3,4) show ?case by simp
qed

lemma script_faithful:
  assumes "inv s" and "target ` set ops \<subseteq> owned s" and "faithful (mask_of s, watched s)"
  obtains s' where "run (map (registry_step change remove) ops) s = Inr s'" and "inv s'"
    and "faithful (mask_of s', watched s')"
proof -
  obtain s' where "run (map (registry_step change remove) ops) s = Inr s'" and "inv s'"
      and "(mask_of s', watched s') = fold spec_step ops (mask_of s, watched s)"
    using script_refines [OF assms(1,2)] by blast
  with fold_spec_faithful [OF assms(3), of ops] show ?thesis by (intro that) auto
qed

end

end
