(* ===== verification/EventLoop.thy ===== *)
theory EventLoop
  imports EPollPoller InterestRegistry
begin

text \<open>
  The event loop (\<open>src/src/EventLoop.h\<close>, \<open>src/src/EventLoop.cc\<close>) and the channel operations
  that go through it (\<open>Channel::update\<close>, \<open>remove\<close>, the interest setters). The world is
  extended by the loops, the thread that is running, the per-thread loop pointer and the static
  counter of created threads. Functors are
  values of a type \<open>'f\<close>; running one is a parameter \<open>exec\<close>, as running a channel callback
  is the parameter \<open>invoke\<close>: the components that bind them supply both. The interleaving of
  several threads on one loop is the subject of the theory \<open>LoopProtocol\<close>.
\<close>

unbundle bit_operations_syntax

section \<open>State\<close>

type_synonym tid = nat

record 'f event_loop =
  el_looping :: bool
  el_quit :: bool
  el_threadId :: tid
  el_pollReturnTime :: Timestamp
  el_poller :: "poller option"
  el_wakeupFd :: c_int
  el_wakeupChannel :: ptr
  el_activeChannels :: "ptr list"
  el_callingPendingFunctors :: bool
  el_pendingFunctors :: "'f list"

record 'f lworld = chworld +
  cur_tid :: tid
  loops :: "loop_id \<rightharpoonup> 'f event_loop"
  t_loopInThisThread :: "tid \<rightharpoonup> loop_id"
  numCreated :: int

definition get_loop :: "loop_id \<Rightarrow> ('f, 'a) lworld_scheme \<Rightarrow> failure + 'f event_loop" where
  "get_loop l w = (case loops w l of None \<Rightarrow> Inl DanglingPointer | Some L \<Rightarrow> Inr L)"

definition put_loop ::
  "loop_id \<Rightarrow> 'f event_loop \<Rightarrow> ('f, 'a) lworld_scheme \<Rightarrow> ('f, 'a) lworld_scheme" where
  "put_loop l L w = w\<lparr>loops := (loops w)(l \<mapsto> L)\<rparr>"

lemma get_loop_simps [simp]:
  "loops w l = Some L \<Longrightarrow> get_loop l w = Inr L"
  "loops w l = None \<Longrightarrow> get_loop l w = Inl DanglingPointer"
  by (simp_all add: get_loop_def)

lemma get_loop_Inr [simp]: "get_loop l w = Inr L \<longleftrightarrow> loops w l = Some L"
  by (simp add: get_loop_def split: option.splits)

lemma put_loop_simps [simp]:
  "loops (put_loop l L w) = (loops w)(l \<mapsto> L)" "trace (put_loop l L w) = trace w"
  "chans (put_loop l L w) = chans w" "cur_tid (put_loop l L w) = cur_tid w"
  "t_loopInThisThread (put_loop l L w) = t_loopInThisThread w"
  "numCreated (put_loop l L w) = numCreated w"
  by (simp_all add: put_loop_def)

lemma put_loop_twice [simp]: "put_loop l L (put_loop l L' w) = put_loop l L w"
  by (simp add: put_loop_def)

lemma emit_lworld [simp]:
  "loops (emit e w) = loops w" "cur_tid (emit e w) = cur_tid w"
  "t_loopInThisThread (emit e w) = t_loopInThisThread w"
  "loops (log_msg v w) = loops w" "cur_tid (log_msg v w) = cur_tid w"
  "t_loopInThisThread (log_msg v w) = t_loopInThisThread w" "chans (log_msg v w) = chans w"
  "numCreated (emit e w) = numCreated w" "numCreated (log_msg v w) = numCreated w"
  by (simp_all add: emit_def log_msg_def)

lemma put_channel_lworld [simp]:
  "loops (put_channel p ch w) = loops w" "cur_tid (put_channel p ch w) = cur_tid w"
  "t_loopInThisThread (put_channel p ch w) = t_loopInThisThread w"
  "numCreated (put_channel p ch w) = numCreated w"
  by (simp_all add: put_channel_def)

text \<open>Changing one loop's members.\<close>

definition upd_loop ::
  "loop_id \<Rightarrow> ('f event_loop \<Rightarrow> 'f event_loop) \<Rightarrow> ('f, 'a) lworld_scheme
     \<Rightarrow> failure + ('f, 'a) lworld_scheme" where
  "upd_loop l f w = bnd (get_loop l w) (\<lambda>L. Inr (put_loop l (f L) w))"

definition isInLoopThread :: "'f event_loop \<Rightarrow> ('f, 'a) lworld_scheme \<Rightarrow> bool" where
  "isInLoopThread L w \<longleftrightarrow> el_threadId L = cur_tid w"

section \<open>Channels and their loop's poller\<close>

definition EventLoop_updateChannel ::
  "os \<Rightarrow> loop_id \<Rightarrow> ptr \<Rightarrow> ('f, 'a) lworld_scheme \<Rightarrow> failure + ('f, 'a) lworld_scheme" where
  "EventLoop_updateChannel os l p w =
     bnd (get_loop l w) (\<lambda>L.
     case el_poller L of
       None \<Rightarrow> Inl NullPointer
     | Some P \<Rightarrow>
         bnd (get_channel p w) (\<lambda>ch.
         bnd (EPollPoller_updateChannel os p P ch w) (\<lambda>(P, ch, w).
         Inr (put_channel p ch (put_loop l (L\<lparr>el_poller := Some P\<rparr>) w)))))"

definition EventLoop_removeChannel ::
  "os \<Rightarrow> loop_id \<Rightarrow> ptr \<Rightarrow> ('f, 'a) lworld_scheme \<Rightarrow> failure + ('f, 'a) lworld_scheme" where
  "EventLoop_removeChannel os l p w =
     bnd (get_loop l w) (\<lambda>L.
     case el_poller L of
       None \<Rightarrow> Inl NullPointer
     | Some P \<Rightarrow>
         bnd (get_channel p w) (\<lambda>ch.
         bnd (EPollPoller_removeChannel os p P ch w) (\<lambda>(P, ch, w).
         Inr (put_channel p ch (put_loop l (L\<lparr>el_poller := Some P\<rparr>) w)))))"

definition EventLoop_hasChannel ::
  "loop_id \<Rightarrow> ptr \<Rightarrow> ('f, 'a) lworld_scheme \<Rightarrow> failure + bool" where
  "EventLoop_hasChannel l p w =
     bnd (get_loop l w) (\<lambda>L.
     case el_poller L of
       None \<Rightarrow> Inl NullPointer
     | Some P \<Rightarrow> bnd (get_channel p w) (\<lambda>ch. Inr (hasChannel P p ch)))"

definition Channel_update ::
  "os \<Rightarrow> ptr \<Rightarrow> ('f, 'a) lworld_scheme \<Rightarrow> failure + ('f, 'a) lworld_scheme" where
  "Channel_update os p w =
     bnd (get_channel p w) (\<lambda>ch. EventLoop_updateChannel os (ch_loop ch) p w)"

definition Channel_remove ::
  "os \<Rightarrow> ptr \<Rightarrow> ('f, 'a) lworld_scheme \<Rightarrow> failure + ('f, 'a) lworld_scheme" where
  "Channel_remove os p w =
     bnd (get_channel p w) (\<lambda>ch. EventLoop_removeChannel os (ch_loop ch) p w)"

text \<open>
  \<open>enableReading\<close>, \<open>disableReading\<close>, \<open>enableWriting\<close>, \<open>disableWriting\<close>, \<open>disableAll\<close>:
  change the mask, then \<open>update\<close>.
\<close>

definition Channel_interest ::
  "os \<Rightarrow> interest_op \<Rightarrow> ptr \<Rightarrow> ('f, 'a) lworld_scheme \<Rightarrow> failure + ('f, 'a) lworld_scheme" where
  "Channel_interest os i p w =
     bnd (get_channel p w) (\<lambda>ch. Channel_update os p (put_channel p (set_interest i ch) w))"

abbreviation enableReading where "enableReading os \<equiv> Channel_interest os EnableReading"
abbreviation disableReading where "disableReading os \<equiv> Channel_interest os DisableReading"
abbreviation enableWriting where "enableWriting os \<equiv> Channel_interest os EnableWriting"
abbreviation disableWriting where "disableWriting os \<equiv> Channel_interest os DisableWriting"
abbreviation disableAll where "disableAll os \<equiv> Channel_interest os DisableAll"

section \<open>Waking, queueing and running functors\<close>

definition wakeup ::
  "os \<Rightarrow> loop_id \<Rightarrow> ('f, 'a) lworld_scheme \<Rightarrow> failure + ('f, 'a) lworld_scheme" where
  "wakeup os l w =
     bnd (get_loop l w) (\<lambda>L.
     let (n, w) = sys_write os (el_wakeupFd L) eventfd_one w
     in Inr (if n \<noteq> Inr 8 then log_msg ERROR w else w))"

definition EventLoop_handleRead_body ::
  "os \<Rightarrow> loop_id \<Rightarrow> ('f, 'a) lworld_scheme \<Rightarrow> failure + ('f, 'a) lworld_scheme" where
  "EventLoop_handleRead_body os l w =
     bnd (get_loop l w) (\<lambda>L.
     let (n, w) = sys_read os (el_wakeupFd L) 8 w
     in Inr (if map_sum id length n \<noteq> Inr 8 then log_msg ERROR w else w))"

definition queueInLoop ::
  "os \<Rightarrow> loop_id \<Rightarrow> 'f \<Rightarrow> ('f, 'a) lworld_scheme \<Rightarrow> failure + ('f, 'a) lworld_scheme" where
  "queueInLoop os l cb w =
     bnd (upd_loop l (\<lambda>L. L\<lparr>el_pendingFunctors := el_pendingFunctors L @ [cb]\<rparr>) w) (\<lambda>w.
     bnd (get_loop l w) (\<lambda>L.
     if \<not> isInLoopThread L w \<or> el_callingPendingFunctors L then wakeup os l w else Inr w))"

definition runInLoop ::
  "('f \<Rightarrow> ('f, 'a) lworld_scheme \<Rightarrow> failure + ('f, 'a) lworld_scheme)
     \<Rightarrow> os \<Rightarrow> loop_id \<Rightarrow> 'f \<Rightarrow> ('f, 'a) lworld_scheme \<Rightarrow> failure + ('f, 'a) lworld_scheme" where
  "runInLoop exec os l cb w =
     bnd (get_loop l w) (\<lambda>L.
     if isInLoopThread L w then exec cb w else queueInLoop os l cb w)"

definition quit ::
  "os \<Rightarrow> loop_id \<Rightarrow> ('f, 'a) lworld_scheme \<Rightarrow> failure + ('f, 'a) lworld_scheme" where
  "quit os l w =
     bnd (upd_loop l (\<lambda>L. L\<lparr>el_quit := True\<rparr>) w) (\<lambda>w.
     bnd (get_loop l w) (\<lambda>L.
     if \<not> isInLoopThread L w then wakeup os l w else Inr w))"

definition doPendingFunctors ::
  "('f \<Rightarrow> ('f, 'a) lworld_scheme \<Rightarrow> failure + ('f, 'a) lworld_scheme)
     \<Rightarrow> loop_id \<Rightarrow> ('f, 'a) lworld_scheme \<Rightarrow> failure + ('f, 'a) lworld_scheme" where
  "doPendingFunctors exec l w =
     bnd (upd_loop l (\<lambda>L. L\<lparr>el_callingPendingFunctors := True\<rparr>) w) (\<lambda>w.
     bnd (get_loop l w) (\<lambda>L.
     let functors = el_pendingFunctors L in
     bnd (upd_loop l (\<lambda>L. L\<lparr>el_pendingFunctors := []\<rparr>) w) (\<lambda>w.
     bnd (run (map exec functors) w)
       (upd_loop l (\<lambda>L. L\<lparr>el_callingPendingFunctors := False\<rparr>)))))"

section \<open>Construction and destruction\<close>

text \<open>
  The constructor runs in the thread that will run the loop. The address of the new wakeup
  channel and the identity of the loop are arguments.
\<close>

definition createEventfd ::
  "os \<Rightarrow> 'a kworld_scheme \<Rightarrow> failure + (c_int \<times> 'a kworld_scheme)" where
  "createEventfd os w =
     (let (r, w) = sys_eventfd os w in case r of Inl e \<Rightarrow> Inl Fatal | Inr fd \<Rightarrow> Inr (fd, w))"

definition EventLoop_ctor ::
  "bool \<Rightarrow> os \<Rightarrow> loop_id \<Rightarrow> ptr \<Rightarrow> ('f, 'a) lworld_scheme \<Rightarrow> failure + ('f, 'a) lworld_scheme" where
  "EventLoop_ctor use_poll os l p w =
     bnd (newDefaultPoller use_poll os l w) (\<lambda>(P, w).
     bnd (createEventfd os w) (\<lambda>(wakeupFd, w).
     let L = \<lparr>el_looping = False, el_quit = False, el_threadId = cur_tid w,
           el_pollReturnTime = 0, el_poller = P, el_wakeupFd = wakeupFd, el_wakeupChannel = p,
           el_activeChannels = [], el_callingPendingFunctors = False,
           el_pendingFunctors = []\<rparr>;
         w = put_channel p (Channel_ctor l wakeupFd) (put_loop l L w)
     in if t_loopInThisThread w (cur_tid w) \<noteq> None then Inl Fatal
        else
          let w = w\<lparr>t_loopInThisThread := (t_loopInThisThread w)(cur_tid w \<mapsto> l)\<rparr>
          in bnd (get_channel p w) (\<lambda>ch.
             enableReading os p
               (put_channel p (setReadCallback (EventLoop_handleRead l) ch) w))))"

definition EventLoop_dtor ::
  "os \<Rightarrow> loop_id \<Rightarrow> ('f, 'a) lworld_scheme \<Rightarrow> failure + ('f, 'a) lworld_scheme" where
  "EventLoop_dtor os l w =
     bnd (get_loop l w) (\<lambda>L.
     bnd (disableAll os (el_wakeupChannel L) w) (\<lambda>w.
     bnd (Channel_remove os (el_wakeupChannel L) w) (\<lambda>w.
     let w = sys_close (el_wakeupFd L) w;
         w = w\<lparr>t_loopInThisThread := (t_loopInThisThread w)(cur_tid w := None)\<rparr>;
         w = w\<lparr>chans := (chans w)(el_wakeupChannel L := None)\<rparr>
     in bnd (get_loop l w) (\<lambda>L.
        let w = (case el_poller L of None \<Rightarrow> w | Some P \<Rightarrow> EPollPoller_dtor P w)
        in Inr (w\<lparr>loops := (loops w)(l := None)\<rparr>)))))"

section \<open>The loop\<close>

definition poll_step ::
  "os \<Rightarrow> loop_id \<Rightarrow> ('f, 'a) lworld_scheme \<Rightarrow> failure + ('f, 'a) lworld_scheme" where
  "poll_step os l w =
     bnd (get_loop l w) (\<lambda>L.
     case el_poller L of
       None \<Rightarrow> Inl NullPointer
     | Some P \<Rightarrow>
         bnd (EPollPoller_poll os P w) (\<lambda>(now, P, active, w).
         upd_loop l (\<lambda>L. L\<lparr>el_poller := Some P, el_pollReturnTime := now,
           el_activeChannels := el_activeChannels L @ active\<rparr>) w))"

definition handle_active ::
  "(Timestamp \<Rightarrow> callback \<Rightarrow> ('f, 'a) lworld_scheme \<Rightarrow> failure + ('f, 'a) lworld_scheme)
     \<Rightarrow> (('f, 'a) lworld_scheme \<Rightarrow> conn_id \<Rightarrow> bool) \<Rightarrow> loop_id
     \<Rightarrow> ('f, 'a) lworld_scheme \<Rightarrow> failure + ('f, 'a) lworld_scheme" where
  "handle_active invoke alive l w =
     bnd (get_loop l w) (\<lambda>L.
     run (map (handleEvent invoke alive (el_pollReturnTime L)) (el_activeChannels L)) w)"

definition loop_body ::
  "(Timestamp \<Rightarrow> callback \<Rightarrow> ('f, 'a) lworld_scheme \<Rightarrow> failure + ('f, 'a) lworld_scheme)
     \<Rightarrow> (('f, 'a) lworld_scheme \<Rightarrow> conn_id \<Rightarrow> bool)
     \<Rightarrow> ('f \<Rightarrow> ('f, 'a) lworld_scheme \<Rightarrow> failure + ('f, 'a) lworld_scheme)
     \<Rightarrow> os \<Rightarrow> loop_id \<Rightarrow> ('f, 'a) lworld_scheme \<Rightarrow> failure + ('f, 'a) lworld_scheme" where
  "loop_body invoke alive exec os l =
     run [upd_loop l (\<lambda>L. L\<lparr>el_activeChannels := []\<rparr>),
          poll_step os l,
          handle_active invoke alive l,
          doPendingFunctors exec l]"

text \<open>
  \<open>while (!quit_) ...\<close>: the flag is read before every round. A loop nobody ends does not
  return, which is \<open>None\<close>.
\<close>

partial_function (option) while_not_quit ::
  "(('f, 'a) lworld_scheme \<Rightarrow> failure + ('f, 'a) lworld_scheme) \<Rightarrow> loop_id
     \<Rightarrow> ('f, 'a) lworld_scheme \<Rightarrow> (failure + ('f, 'a) lworld_scheme) option" where
  "while_not_quit body l w =
     (case get_loop l w of
        Inl e \<Rightarrow> Some (Inl e)
      | Inr L \<Rightarrow>
          if el_quit L then Some (Inr w)
          else (case body w of
                  Inl e \<Rightarrow> Some (Inl e)
                | Inr w' \<Rightarrow> while_not_quit body l w'))"

definition EventLoop_loop ::
  "(('f, 'a) lworld_scheme \<Rightarrow> failure + ('f, 'a) lworld_scheme) \<Rightarrow> loop_id
     \<Rightarrow> ('f, 'a) lworld_scheme \<Rightarrow> (failure + ('f, 'a) lworld_scheme) option" where
  "EventLoop_loop body l w =
     (case upd_loop l (\<lambda>L. L\<lparr>el_looping := True, el_quit := False\<rparr>) w of
        Inl e \<Rightarrow> Some (Inl e)
      | Inr w \<Rightarrow>
          (case while_not_quit body l w of
             None \<Rightarrow> None
           | Some r \<Rightarrow> Some (bnd r (upd_loop l (\<lambda>L. L\<lparr>el_looping := False\<rparr>)))))"

section \<open>What the channel operations leave alone\<close>

lemma lworld_more [simp]:
  "lworld.more (emit e w) = lworld.more w" "lworld.more (log_msg v w) = lworld.more w"
  "lworld.more (put_channel p ch w) = lworld.more w" "lworld.more (put_loop l L w) = lworld.more w"
  by (simp_all add: emit_def log_msg_def put_channel_def put_loop_def)

lemma upd_loop_Inr:
  "upd_loop l f w = Inr w' \<longleftrightarrow> (\<exists>L. loops w l = Some L \<and> w' = put_loop l (f L) w)"
  by (auto simp: upd_loop_def step_simps)

lemma upd_loop_ok [simp]: "loops w l = Some L \<Longrightarrow> upd_loop l f w = Inr (put_loop l (f L) w)"
  by (simp add: upd_loop_def)

text \<open>The calls a channel operation makes: changes of an interest list, and log lines.\<close>

fun is_ctl :: "event \<Rightarrow> bool" where
  "is_ctl (EvEpollCtl ep op fd ev r) = True"
| "is_ctl (EvLog l) = True"
| "is_ctl _ = False"

definition ctl_frame :: "('f, 'a) lworld_scheme \<Rightarrow> ('f, 'a) lworld_scheme \<Rightarrow> bool" where
  "ctl_frame w w' \<longleftrightarrow>
     lworld.more w' = lworld.more w \<and> cur_tid w' = cur_tid w \<and>
     t_loopInThisThread w' = t_loopInThisThread w \<and> numCreated w' = numCreated w \<and>
     (\<forall>l. map_option (el_poller_update (\<lambda>_. None)) (loops w' l) =
          map_option (el_poller_update (\<lambda>_. None)) (loops w l)) \<and>
     (\<exists>es. trace w' = trace w @ es \<and> list_all is_ctl es)"

lemma EPollPoller_update_frame:
  "EPollPoller_update os P op p ch w = Inr w' \<Longrightarrow>
     \<exists>es. w' = w\<lparr>trace := trace w @ es\<rparr> \<and> list_all is_ctl es"
  by (auto simp: EPollPoller_update_def sys_epoll_ctl_def Let_def emit_def log_msg_def
      split: option.splits if_splits)

lemma set_index_self: "\<exists>i. ch = set_index i ch"
  by (rule exI [of _ "ch_index ch"]) (simp add: set_index_def)

lemma trace_self: "\<exists>es. w = w\<lparr>trace := trace w @ es\<rparr> \<and> list_all is_ctl es"
  by (rule exI [of _ "[]"]) simp

lemma updateChannel_frame:
  "EPollPoller_updateChannel os p P ch w = Inr (P', ch', w') \<Longrightarrow>
     (\<exists>es. w' = w\<lparr>trace := trace w @ es\<rparr> \<and> list_all is_ctl es) \<and> (\<exists>i. ch' = set_index i ch)"
  by (auto simp: EPollPoller_updateChannel_def Let_def step_simps intro: set_index_self
      dest!: EPollPoller_update_frame split: if_splits)

lemma removeChannel_frame:
  "EPollPoller_removeChannel os p P ch w = Inr (P', ch', w') \<Longrightarrow>
     (\<exists>es. w' = w\<lparr>trace := trace w @ es\<rparr> \<and> list_all is_ctl es) \<and> (\<exists>i. ch' = set_index i ch)"
  by (auto simp: EPollPoller_removeChannel_def Let_def step_simps intro: trace_self
      dest!: EPollPoller_update_frame split: if_splits)

lemma set_index_twice: "set_index i (set_index j ch) = set_index i ch"
  by (simp add: set_index_def)

lemma store_back_frame:
  assumes "loops w l = Some L" and "w1 = w\<lparr>trace := trace w @ es\<rparr>" and "list_all is_ctl es"
  shows "ctl_frame w (put_channel p ch (put_loop l (L\<lparr>el_poller := P\<rparr>) w1))"
  using assms by (auto simp: ctl_frame_def put_channel_def put_loop_def)

lemma EventLoop_updateChannel_frame:
  assumes "EventLoop_updateChannel os l p w = Inr w'"
  shows "ctl_frame w w'"
    and "\<exists>ch i. chans w p = Some ch \<and> chans w' = (chans w)(p \<mapsto> set_index i ch)"
  using assms
  by (auto simp: EventLoop_updateChannel_def step_simps split: option.splits
      dest!: updateChannel_frame intro: store_back_frame) (rule exI, rule refl)

lemma EventLoop_removeChannel_frame:
  assumes "EventLoop_removeChannel os l p w = Inr w'"
  shows "ctl_frame w w'"
    and "\<exists>ch i. chans w p = Some ch \<and> chans w' = (chans w)(p \<mapsto> set_index i ch)"
  using assms
  by (auto simp: EventLoop_removeChannel_def step_simps split: option.splits
      dest!: removeChannel_frame intro: store_back_frame) (rule exI, rule refl)

lemma ctl_frame_put_channel: "ctl_frame (put_channel p ch w) w' = ctl_frame w w'"
  by (simp add: ctl_frame_def)

text \<open>
  The lemma every client uses: an interest operation that succeeds changes the channel's mask as
  announced, possibly its index, and otherwise only pollers and the trace.
\<close>

lemma Channel_interest_frame:
  assumes "Channel_interest os i p w = Inr w'"
  obtains ch j where "chans w p = Some ch"
    and "chans w' = (chans w)(p \<mapsto> set_index j (set_interest i ch))" and "ctl_frame w w'"
proof -
  from assms obtain ch where ch: "chans w p = Some ch"
    and upd: "EventLoop_updateChannel os (ch_loop ch) p (put_channel p (set_interest i ch) w) = Inr w'"
    by (auto simp: Channel_interest_def Channel_update_def step_simps)
  from EventLoop_updateChannel_frame [OF upd] ch that show ?thesis
    by (auto simp: ctl_frame_put_channel)
qed

lemma Channel_remove_frame:
  assumes "Channel_remove os p w = Inr w'"
  obtains ch j where "chans w p = Some ch"
    and "chans w' = (chans w)(p \<mapsto> set_index j ch)" and "ctl_frame w w'"
proof -
  from assms obtain ch where ch: "chans w p = Some ch"
    and rem: "EventLoop_removeChannel os (ch_loop ch) p w = Inr w'"
    by (auto simp: Channel_remove_def step_simps)
  from EventLoop_removeChannel_frame [OF rem] ch that show ?thesis by auto
qed

section \<open>A loop's poller as an interest registry\<close>

text \<open>
  The state of one loop as its channels' owners see it: live channels of the loop have different
  descriptors, each owner having its own open one.
\<close>

definition distinct_fds :: "loop_id \<Rightarrow> ('f, 'a) lworld_scheme \<Rightarrow> bool" where
  "distinct_fds l w \<longleftrightarrow>
     (\<forall>p q c d. chans w p = Some c \<longrightarrow> chans w q = Some d \<longrightarrow> ch_loop c = l \<longrightarrow> ch_loop d = l \<longrightarrow>
        ch_fd c = ch_fd d \<longrightarrow> p = q)"

definition loop_poller :: "loop_id \<Rightarrow> ('f, 'a) lworld_scheme \<Rightarrow> poller option" where
  "loop_poller l w = (case loops w l of None \<Rightarrow> None | Some L \<Rightarrow> el_poller L)"

definition loop_inv :: "os \<Rightarrow> loop_id \<Rightarrow> ('f, 'a) lworld_scheme \<Rightarrow> bool" where
  "loop_inv os l w \<longleftrightarrow>
     epoll_ctl_contract os \<and> distinct_fds l w \<and>
     (\<exists>P. loop_poller l w = Some P \<and> po_ownerLoop P = l \<and> poller_inv P w)"

definition loop_owned :: "loop_id \<Rightarrow> ('f, 'a) lworld_scheme \<Rightarrow> ptr set" where
  "loop_owned l w = {p. \<exists>ch. chans w p = Some ch \<and> ch_loop ch = l}"

definition loop_mask :: "('f, 'a) lworld_scheme \<Rightarrow> ptr \<Rightarrow> u32" where
  "loop_mask w p = (case chans w p of None \<Rightarrow> 0 | Some ch \<Rightarrow> ch_events ch)"

definition loop_watched :: "loop_id \<Rightarrow> ('f, 'a) lworld_scheme \<Rightarrow> ptr \<Rightarrow> u32 option" where
  "loop_watched l w p =
     (case (chans w p, loop_poller l w) of
        (Some ch, Some P) \<Rightarrow>
          if ch_loop ch = l
          then map_option ee_events (interest (trace w) (po_epollfd P) (ch_fd ch)) else None
      | _ \<Rightarrow> None)"

lemma loop_poller_Some:
  "loop_poller l w = Some P \<longleftrightarrow> (\<exists>L. loops w l = Some L \<and> el_poller L = Some P)"
  by (auto simp: loop_poller_def split: option.splits)

lemma distinct_fds_may_register:
  assumes "distinct_fds l w" and "poller_inv P w" and "po_ownerLoop P = l"
    and "chans w p = Some ch" and "ch_loop ch = l"
  shows "may_register P ch"
  unfolding may_register_def
proof
  assume new: "ch_index ch = kNew"
  show "po_channels P (ch_fd ch) = None"
  proof (rule ccontr)
    assume "po_channels P (ch_fd ch) \<noteq> None"
    then obtain q where q: "po_channels P (ch_fd ch) = Some q" by auto
    obtain d where d: "chans w q = Some d" "ch_loop d = po_ownerLoop P" "ch_fd d = ch_fd ch"
        "ch_index d = kAdded \<or> ch_index d = kDeleted"
      by (rule poller_inv_registered [OF assms(2) q])
    then have "q = p" using assms unfolding distinct_fds_def by blast
    with d assms(4) new show False by auto
  qed
qed

text \<open>Writing poller and channel back: what a successful operation leaves, seen as a registry.\<close>

lemma registry_after:
  fixes w :: "('f, 'a) lworld_scheme"
  assumes inv: "loop_inv os l w" and p: "chans w p = Some ch" "ch_loop ch = l"
    and P: "loop_poller l w = Some P"
    and ch': "ch_fd ch' = ch_fd ch" "ch_loop ch' = l"
    and P': "po_ownerLoop P' = l" "po_epollfd P' = po_epollfd P" "poller_inv P' w'"
    and w': "chans w' = (chans w)(p \<mapsto> ch')" "loop_poller l w' = Some P'"
      "interest (trace w') (po_epollfd P) = (interest (trace w) (po_epollfd P))(ch_fd ch := r)"
  shows "loop_inv os l w'" and "loop_owned l w' = loop_owned l w"
    and "loop_mask w' = (loop_mask w)(p := ch_events ch')"
    and "loop_watched l w' = (loop_watched l w)(p := map_option ee_events r)"
proof -
  have dist: "distinct_fds l w" using inv by (simp add: loop_inv_def)
  then have "distinct_fds l w'"
    using p ch' unfolding distinct_fds_def w' by (metis fun_upd_apply option.inject)
  with inv P' w' show "loop_inv os l w'" by (auto simp: loop_inv_def)
  show "loop_owned l w' = loop_owned l w"
    using p ch' by (auto simp: loop_owned_def w')
  show "loop_mask w' = (loop_mask w)(p := ch_events ch')"
    by (auto simp: loop_mask_def w')
  show "loop_watched l w' = (loop_watched l w)(p := map_option ee_events r)"
  proof
    fix q
    show "loop_watched l w' q = ((loop_watched l w)(p := map_option ee_events r)) q"
    proof (cases "q = p")
      case True
      then show ?thesis using w' P' ch' by (simp add: loop_watched_def)
    next
      case False
      then have "ch_fd d \<noteq> ch_fd ch" if "chans w q = Some d" "ch_loop d = l" for d
        using dist that p unfolding distinct_fds_def by blast
      with False show ?thesis
        using w' P P' by (auto simp: loop_watched_def split: option.splits)
    qed
  qed
qed

lemma loop_poller_put [simp]:
  "loop_poller l (put_channel p ch w) = loop_poller l w"
  "loop_poller l (put_loop l L w) = el_poller L"
  "loop_poller l (emit e w) = loop_poller l w"
  by (simp_all add: loop_poller_def)

lemma loop_change:
  fixes w :: "('f, 'a) lworld_scheme"
  assumes inv: "loop_inv os l w" and owned: "p \<in> loop_owned l w"
  shows "\<exists>w'. Channel_interest os i p w = Inr w' \<and> loop_inv os l w' \<and>
    loop_owned l w' = loop_owned l w \<and>
    (loop_mask w', loop_watched l w') = spec_step (Change i p) (loop_mask w, loop_watched l w)"
proof -
  from owned obtain ch where ch: "chans w p = Some ch" "ch_loop ch = l"
    by (auto simp: loop_owned_def)
  from inv obtain P where os: "epoll_ctl_contract os" and P: "loop_poller l w = Some P"
      "po_ownerLoop P = l" "poller_inv P w" and dist: "distinct_fds l w"
    by (auto simp: loop_inv_def)
  from P(1) obtain L where L: "loops w l = Some L" "el_poller L = Some P"
    by (auto simp: loop_poller_Some)
  have free: "may_register P ch" by (rule distinct_fds_may_register [OF dist P(3,2) ch])
  have own: "ch_loop ch = po_ownerLoop P" using ch P by simp
  let ?c = "set_interest i ch" and ?w1 = "put_channel p (set_interest i ch) w"
  let ?c' = "set_index (index_after ?c) ?c" and ?P' = "channels_after p ?c P"
  let ?ev = "ctl_event P (ctl_for ?c) p ?c"
  let ?w' = "put_channel p ?c' (put_loop l (L\<lparr>el_poller := Some ?P'\<rparr>) (emit ?ev ?w1))"
  have slot: "same_slot ch ?c" by simp
  note facts = slot_facts [OF P(3) ch(1) own slot free]
  have "EPollPoller_updateChannel os p P ?c ?w1 = Inr (?P', ?c', emit ?ev ?w1)"
    by (rule updateChannel_call [OF os]) (use facts in simp_all)
  then have call: "Channel_interest os i p w = Inr ?w'"
    using ch L by (simp add: Channel_interest_def Channel_update_def EventLoop_updateChannel_def)
  have eq: "EPollPoller_updateChannel os p P ?c w = Inr (?P', ?c', emit ?ev w)"
    by (rule updateChannel_eq [OF os P(3) ch(1) own slot free])
  have "poller_inv ?P' ?w' = poller_inv ?P' (put_channel p ?c' (emit ?ev w))"
    by (rule poller_inv_cong) simp_all
  with updateChannel_inv [OF os P(3) ch(1) own slot free eq] have inv': "poller_inv ?P' ?w'" by simp
  have kernel: "interest (trace ?w') (po_epollfd P) = (interest (trace w) (po_epollfd P))(ch_fd ch :=
      (if ch_index ch = kAdded \<and> isNoneEvent ?c then None else Some (registration p ?c)))"
    by (auto simp: interest_snoc ctl_event_def ctl_for_def)
  have watched: "loop_watched l w p = None \<longleftrightarrow> ch_index ch \<noteq> kAdded"
    using ch P facts(1) by (simp add: loop_watched_def)
  have mask: "loop_mask w p = ch_events ch" using ch by (simp add: loop_mask_def)
  note after = registry_after [OF inv ch P(1), of ?c' ?P' ?w', OF _ _ _ _ inv' _ _ kernel]
  have "(loop_mask ?w', loop_watched l ?w') = spec_step (Change i p) (loop_mask w, loop_watched l w)"
    using after(3,4) ch P watched
    by (simp add: mask registration_def isNoneEvent_def Let_def)
  with after(1,2) call ch P show ?thesis by auto
qed

lemma loop_remove:
  fixes w :: "('f, 'a) lworld_scheme"
  assumes inv: "loop_inv os l w" and owned: "p \<in> loop_owned l w"
  shows "\<exists>w'. Channel_remove os p w = Inr w' \<and> loop_inv os l w' \<and>
    loop_owned l w' = loop_owned l w \<and>
    (loop_mask w', loop_watched l w') = spec_step (Drop p) (loop_mask w, loop_watched l w)"
proof -
  from owned obtain ch where ch: "chans w p = Some ch" "ch_loop ch = l"
    by (auto simp: loop_owned_def)
  from inv obtain P where os: "epoll_ctl_contract os" and P: "loop_poller l w = Some P"
      "po_ownerLoop P = l" "poller_inv P w" and dist: "distinct_fds l w"
    by (auto simp: loop_inv_def)
  from P(1) obtain L where L: "loops w l = Some L" "el_poller L = Some P"
    by (auto simp: loop_poller_Some)
  have free: "may_register P ch" by (rule distinct_fds_may_register [OF dist P(3,2) ch])
  have own: "ch_loop ch = po_ownerLoop P" using ch P by simp
  let ?P' = "P\<lparr>po_channels := (po_channels P)(ch_fd ch := None)\<rparr>" and ?c' = "set_index kNew ch"
  let ?w1 = "if ch_index ch = kAdded then emit (ctl_event P EPOLL_CTL_DEL p ch) w else w"
  let ?w' = "put_channel p ?c' (put_loop l (L\<lparr>el_poller := Some ?P'\<rparr>) ?w1)"
  have slot: "same_slot ch ch" by (simp add: same_slot_def)
  have eq: "EPollPoller_removeChannel os p P ch w = Inr (?P', ?c', ?w1)"
    by (rule removeChannel_eq [OF os P(3) ch(1) own slot free])
  then have call: "Channel_remove os p w = Inr ?w'"
    using ch L by (simp add: Channel_remove_def EventLoop_removeChannel_def)
  have "poller_inv ?P' ?w' = poller_inv ?P' (put_channel p ?c' ?w1)"
    by (rule poller_inv_cong) simp_all
  with removeChannel_inv [OF os P(3) ch(1) own slot free eq] have inv': "poller_inv ?P' ?w'" by simp
  have "interest (trace w) (po_epollfd P) (ch_fd ch) = None" if "ch_index ch \<noteq> kAdded"
    using slot_facts(1) [OF P(3) ch(1) own slot free] that by simp
  then have kernel: "interest (trace ?w') (po_epollfd P) =
      (interest (trace w) (po_epollfd P))(ch_fd ch := None)"
    by (auto simp: interest_snoc ctl_event_def)
  note after = registry_after [OF inv ch P(1), of ?c' ?P' ?w', OF _ _ _ _ inv' _ _ kernel]
  have "(loop_mask ?w', loop_watched l ?w') = spec_step (Drop p) (loop_mask w, loop_watched l w)"
    using after(3,4) ch P by (auto simp: loop_mask_def)
  with after(1,2) call ch P show ?thesis by auto
qed

interpretation reg: interest_registry "loop_inv os l" "loop_owned l" loop_mask "loop_watched l"
    "Channel_interest os" "Channel_remove os" for os :: os and l :: loop_id
  by unfold_locales (rule loop_change loop_remove; assumption)+

section \<open>A fresh loop\<close>

lemma fresh_loop_inv:
  assumes os: "epoll_ctl_contract os" and P: "loop_poller l w = Some P" "po_ownerLoop P = l"
    and empty: "po_channels P = Map.empty" "interest (trace w) (po_epollfd P) = Map.empty"
    and only: "chans w = m(p \<mapsto> ch)" "\<forall>q d. m q = Some d \<longrightarrow> ch_loop d \<noteq> l"
      "ch_index ch = kNew"
  shows "loop_inv os l w"
proof -
  have "distinct_fds l w" using only by (auto simp: distinct_fds_def)
  moreover have "poller_inv P w" using P empty only by (auto simp: poller_inv_def listed_def)
  ultimately show ?thesis using os P by (auto simp: loop_inv_def)
qed

text \<open>The world the constructor has built when it subscribes the wake-up channel.\<close>

definition constructed ::
  "c_int \<Rightarrow> c_int \<Rightarrow> loop_id \<Rightarrow> ptr \<Rightarrow> ('f, 'a) lworld_scheme \<Rightarrow> ('f, 'a) lworld_scheme" where
  "constructed ep fd l p w =
     put_channel p ((Channel_ctor l fd)\<lparr>ch_readCallback := Some (EventLoop_handleRead l)\<rparr>)
       ((put_loop l \<lparr>el_looping = False, el_quit = False, el_threadId = cur_tid w,
             el_pollReturnTime = 0,
             el_poller = Some \<lparr>po_ownerLoop = l, po_epollfd = ep,
               po_events = replicate kInitEventListSize no_event, po_channels = Map.empty\<rparr>,
             el_wakeupFd = fd, el_wakeupChannel = p, el_activeChannels = [],
             el_callingPendingFunctors = False, el_pendingFunctors = []\<rparr>
           (emit (EvEventfd (Inr fd)) (emit (EvEpollCreate (Inr ep)) w)))
         \<lparr>t_loopInThisThread := (t_loopInThisThread w)(cur_tid w \<mapsto> l)\<rparr>)"

lemma EventLoop_ctor_call:
  assumes "os_epoll_create os (trace w) = Inr ep"
    and "os_eventfd os (trace w @ [EvEpollCreate (Inr ep)]) = Inr fd"
  shows "EventLoop_ctor False os l p w =
    (if t_loopInThisThread w (cur_tid w) = None
     then enableReading os p (constructed ep fd l p w) else Inl Fatal)"
  using assms
  by (simp add: EventLoop_ctor_def newDefaultPoller_def EPollPoller_ctor_def createEventfd_def
      sys_epoll_create_def sys_eventfd_def Let_def constructed_def put_channel_def)

lemma constructed_simps [simp]:
  "chans (constructed ep fd l p w) = (chans w)(p \<mapsto>
     (Channel_ctor l fd)\<lparr>ch_readCallback := Some (EventLoop_handleRead l)\<rparr>)"
  "trace (constructed ep fd l p w) = trace w @ [EvEpollCreate (Inr ep), EvEventfd (Inr fd)]"
  "t_loopInThisThread (constructed ep fd l p w) = (t_loopInThisThread w)(cur_tid w \<mapsto> l)"
  "loop_poller l (constructed ep fd l p w) = Some \<lparr>po_ownerLoop = l, po_epollfd = ep,
     po_events = replicate kInitEventListSize no_event, po_channels = Map.empty\<rparr>"
  by (simp_all add: constructed_def put_channel_def put_loop_def emit_def loop_poller_def)

lemma constructed_inv:
  assumes "epoll_ctl_contract os" and "\<forall>q d. chans w q = Some d \<longrightarrow> ch_loop d \<noteq> l"
  shows "loop_inv os l (constructed ep fd l p w)"
  by (rule fresh_loop_inv [where P = "\<lparr>po_ownerLoop = l, po_epollfd = ep,
        po_events = replicate kInitEventListSize no_event, po_channels = Map.empty\<rparr>",
        OF assms(1) _ _ _ _ constructed_simps(1) assms(2)])
    (simp_all add: table_append Channel_ctor_def kNew_def)

text \<open>A world with one constructed loop, for the witnesses.\<close>

definition empty_world :: "nat lworld" where
  "empty_world = \<lparr>trace = [], chans = Map.empty, cur_tid = 1, loops = Map.empty,
     t_loopInThisThread = Map.empty, numCreated = 0\<rparr>"

definition small_world :: "nat lworld" where
  "small_world = constructed 3 4 0 8 empty_world"

definition small_loop :: "'f event_loop" where
  "small_loop =
     \<lparr>el_looping = False, el_quit = False, el_threadId = 1, el_pollReturnTime = 0,
      el_poller = Some \<lparr>po_ownerLoop = 0, po_epollfd = 3,
        po_events = replicate kInitEventListSize no_event, po_channels = Map.empty\<rparr>,
      el_wakeupFd = 4, el_wakeupChannel = 8, el_activeChannels = [],
      el_callingPendingFunctors = False, el_pendingFunctors = []\<rparr>"

lemma empty_world_simps [simp]:
  "trace empty_world = []" "chans empty_world = Map.empty" "cur_tid empty_world = 1"
  "t_loopInThisThread empty_world = Map.empty"
  by (simp_all add: empty_world_def)

lemma small_world_simps [simp]:
  "loops small_world = [0 \<mapsto> small_loop]" "cur_tid small_world = 1"
  "trace small_world = [EvEpollCreate (Inr 3), EvEventfd (Inr 4)]"
  by (simp_all add: small_world_def constructed_def small_loop_def empty_world_def)

lemma small_loop_simps [simp]:
  "el_threadId small_loop = 1" "el_wakeupFd small_loop = 4"
  "\<not> el_callingPendingFunctors small_loop" "el_pendingFunctors small_loop = []"
  "\<not> el_quit small_loop"
  by (simp_all add: small_loop_def)

lemma small_world_inv: "epoll_ctl_contract os \<Longrightarrow> loop_inv os 0 small_world"
  unfolding small_world_def by (rule constructed_inv) simp_all

lemma small_world_owned: "loop_owned 0 small_world = {8}"
  by (simp add: small_world_def loop_owned_def Channel_ctor_def)

section \<open>Rounds\<close>

definition running :: "loop_id \<Rightarrow> ('f, 'a) lworld_scheme \<Rightarrow> bool" where
  "running l w \<longleftrightarrow> (\<exists>L. loops w l = Some L \<and> \<not> el_quit L)"

definition stopped :: "loop_id \<Rightarrow> ('f, 'a) lworld_scheme \<Rightarrow> bool" where
  "stopped l w \<longleftrightarrow> (\<exists>L. loops w l = Some L \<and> el_quit L)"

text \<open>\<open>n\<close> rounds were run, the flag was seen clear before each, and is seen set after them.\<close>

definition after_rounds ::
  "(('f, 'a) lworld_scheme \<Rightarrow> failure + ('f, 'a) lworld_scheme) \<Rightarrow> loop_id \<Rightarrow> nat
     \<Rightarrow> ('f, 'a) lworld_scheme \<Rightarrow> ('f, 'a) lworld_scheme \<Rightarrow> bool" where
  "after_rounds body l n w w' \<longleftrightarrow>
     run (replicate n body) w = Inr w' \<and> stopped l w' \<and>
     (\<forall>k < n. \<exists>v. run (replicate k body) w = Inr v \<and> running l v)"

lemma after_rounds_0: "after_rounds body l 0 w w' \<longleftrightarrow> w' = w \<and> stopped l w"
  by (auto simp: after_rounds_def)

lemma after_rounds_Suc:
  "after_rounds body l (Suc n) w w' \<longleftrightarrow>
     running l w \<and> (\<exists>v. body w = Inr v \<and> after_rounds body l n v w')"
  (is "?lhs \<longleftrightarrow> ?rhs")
proof
  assume l: ?lhs
  then have "running l w" by (fastforce simp: after_rounds_def)
  moreover from l obtain v where v: "body w = Inr v" "run (replicate n body) v = Inr w'"
    by (auto simp: after_rounds_def)
  moreover have "\<exists>u. run (replicate k body) v = Inr u \<and> running l u" if "k < n" for k
  proof -
    from l that obtain u where "run (replicate (Suc k) body) w = Inr u" "running l u"
      unfolding after_rounds_def using Suc_less_eq by metis
    with v show ?thesis by simp
  qed
  ultimately show ?rhs using l by (auto simp: after_rounds_def)
next
  assume r: ?rhs
  then obtain v where v: "body w = Inr v" "after_rounds body l n v w'" by auto
  have "\<exists>u. run (replicate k body) w = Inr u \<and> running l u" if "k < Suc n" for k
    using r v that by (cases k) (auto simp: after_rounds_def)
  with v show ?lhs by (auto simp: after_rounds_def)
qed

lemma while_after_rounds:
  "after_rounds body l n w w' \<Longrightarrow> while_not_quit body l w = Some (Inr w')"
proof (induction n arbitrary: w)
  case 0
  then show ?case by (subst while_not_quit.simps) (auto simp: after_rounds_0 stopped_def)
next
  case (Suc n)
  then obtain v where "running l w" "body w = Inr v" "while_not_quit body l v = Some (Inr w')"
    by (auto simp: after_rounds_Suc)
  then show ?case by (subst while_not_quit.simps) (auto simp: running_def)
qed

lemma while_returns:
  assumes "while_not_quit body l w = Some r"
  shows "\<forall>w'. r = Inr w' \<longrightarrow> (\<exists>n. after_rounds body l n w w')"
proof (rule while_not_quit.raw_induct [OF _ assms], intro allI impI)
  fix rec :: "(('a, 'b) lworld_scheme \<Rightarrow> failure + ('a, 'b) lworld_scheme) \<Rightarrow> loop_id
      \<Rightarrow> ('a, 'b) lworld_scheme \<Rightarrow> (failure + ('a, 'b) lworld_scheme) option"
    and body l w r w'
  assume IH: "\<And>body l w r. rec body l w = Some r \<Longrightarrow>
        \<forall>w'. r = Inr w' \<longrightarrow> (\<exists>n. after_rounds body l n w w')"
    and step: "(case get_loop l w of Inl e \<Rightarrow> Some (Inl e)
        | Inr L \<Rightarrow> if el_quit L then Some (Inr w)
            else case body w of Inl e \<Rightarrow> Some (Inl e) | Inr w' \<Rightarrow> rec body l w') = Some r"
    and r: "r = Inr w'"
  from step r obtain L where L: "loops w l = Some L" by (auto split: sum.splits)
  show "\<exists>n. after_rounds body l n w w'"
  proof (cases "el_quit L")
    case True
    with step r L have "after_rounds body l 0 w w'" by (auto simp: after_rounds_0 stopped_def)
    then show ?thesis ..
  next
    case False
    with step r L obtain v where v: "body w = Inr v" "rec body l v = Some r"
      by (auto split: sum.splits)
    from IH [OF v(2)] r obtain n where "after_rounds body l n v w'" by blast
    with v L False have "after_rounds body l (Suc n) w w'"
      by (auto simp: after_rounds_Suc running_def)
    then show ?thesis ..
  qed
qed

section \<open>Functors and wake-ups\<close>

lemma wakeup_ok:
  "loops w l = Some L \<Longrightarrow> eventfd_contract os (el_wakeupFd L) \<Longrightarrow>
     wakeup os l w = Inr (emit (EvWrite (el_wakeupFd L) eventfd_one (Inr 8)) w)"
  by (simp add: wakeup_def sys_write_def eventfd_contract_def Let_def)

text \<open>The calls a wake-up makes: a write to the wake-up descriptor, and a log line if it fails.\<close>

fun is_wake :: "c_int \<Rightarrow> event \<Rightarrow> bool" where
  "is_wake fd (EvWrite fd' d r) \<longleftrightarrow> fd' = fd"
| "is_wake fd (EvLog l) \<longleftrightarrow> True"
| "is_wake fd _ \<longleftrightarrow> False"

lemma is_wake_quiet: "list_all (is_wake wfd) es \<Longrightarrow> wfd \<noteq> fd \<Longrightarrow> list_all (quiet fd) es"
  by (induction es) (auto elim: is_wake.elims)

lemma is_ctl_quiet: "list_all is_ctl es \<Longrightarrow> list_all (quiet fd) es"
  by (induction es) (auto elim: is_ctl.elims)

lemma wakeup_frame:
  assumes "wakeup os l w = Inr w'"
  obtains L es where "loops w l = Some L"
    and "w' = w\<lparr>trace := trace w @ es\<rparr>" and "list_all (is_wake (el_wakeupFd L)) es"
    and "\<And>fd. eventfd_count (trace w) fd \<le> eventfd_count (trace w') fd"
proof -
  from assms obtain L where L: "loops w l = Some L" by (auto simp: wakeup_def step_simps)
  let ?e = "EvWrite (el_wakeupFd L) eventfd_one
      (os_write os (trace w) (el_wakeupFd L) eventfd_one)"
  from assms L have "w' = emit ?e w \<or> w' = log_msg ERROR (emit ?e w)"
    by (auto simp: wakeup_def sys_write_def Let_def split: if_splits)
  then show ?thesis
  proof
    assume "w' = emit ?e w"
    then show ?thesis
      using L by (intro that [of L "[?e]"]) (simp_all add: emit_def table_append eventfd_step_write)
  next
    assume "w' = log_msg ERROR (emit ?e w)"
    then show ?thesis
      using L by (intro that [of L "[?e, EvLog ERROR]"])
        (simp_all add: emit_def log_msg_def table_append eventfd_step_write)
  qed
qed

lemma queueInLoop_frame:
  assumes "queueInLoop os l cb w = Inr w'"
  obtains L es where "loops w l = Some L"
    and "w' = (put_loop l (L\<lparr>el_pendingFunctors := el_pendingFunctors L @ [cb]\<rparr>) w)
      \<lparr>trace := trace w @ es\<rparr>"
    and "list_all (is_wake (el_wakeupFd L)) es"
    and "\<And>fd. eventfd_count (trace w) fd \<le> eventfd_count (trace w') fd"
proof -
  from assms obtain L where L: "loops w l = Some L"
    by (auto simp: queueInLoop_def upd_loop_Inr)
  let ?L = "L\<lparr>el_pendingFunctors := el_pendingFunctors L @ [cb]\<rparr>"
  let ?w = "put_loop l ?L w"
  from assms L have "wakeup os l ?w = Inr w' \<or> w' = ?w"
    by (auto simp: queueInLoop_def split: if_splits)
  then show ?thesis
  proof
    assume "wakeup os l ?w = Inr w'"
    then show ?thesis
    proof (rule wakeup_frame)
      fix L' es
      assume "loops ?w l = Some L'" "w' = ?w\<lparr>trace := trace ?w @ es\<rparr>"
        "list_all (is_wake (el_wakeupFd L')) es"
        "\<And>fd. eventfd_count (trace ?w) fd \<le> eventfd_count (trace w') fd"
      with L show ?thesis by (intro that [of L es]) auto
    qed
  next
    assume "w' = ?w"
    with L show ?thesis by (intro that [of L "[]"]) (simp_all add: put_loop_def)
  qed
qed

lemma queueInLoop_ok:
  assumes "loops w l = Some L" and "eventfd_contract os (el_wakeupFd L)"
  shows "\<exists>w'. queueInLoop os l cb w = Inr w' \<and>
    loops w' = (loops w)(l \<mapsto> L\<lparr>el_pendingFunctors := el_pendingFunctors L @ [cb]\<rparr>) \<and>
    chans w' = chans w \<and>
    trace w' = trace w @
      (if cur_tid w \<noteq> el_threadId L \<or> el_callingPendingFunctors L
       then [EvWrite (el_wakeupFd L) eventfd_one (Inr 8)] else [])"
proof -
  let ?L = "L\<lparr>el_pendingFunctors := el_pendingFunctors L @ [cb]\<rparr>"
  have "wakeup os l (put_loop l ?L w) =
      Inr (emit (EvWrite (el_wakeupFd L) eventfd_one (Inr 8)) (put_loop l ?L w))"
    using wakeup_ok [of "put_loop l ?L w" l ?L] assms by simp
  with assms(1) show ?thesis
    by (auto simp: queueInLoop_def isInLoopThread_def)
qed

text \<open>
  Queueing a functor. \<open>queueInLoop\<close> appends the functor to the loop's queue and touches nothing else of the
  loops and channels. It raises the wake-up counter by exactly one write when the caller is
  another thread or the loop is running functors, and makes no system call otherwise.
\<close>

theorem queueInLoop_outcome:
  assumes "loops w l = Some L" and "eventfd_contract os (el_wakeupFd L)"
  shows "\<exists>w'. queueInLoop os l cb w = Inr w' \<and>
    loops w' = (loops w)(l \<mapsto> L\<lparr>el_pendingFunctors := el_pendingFunctors L @ [cb]\<rparr>) \<and>
    chans w' = chans w \<and>
    trace w' = trace w @
      (if cur_tid w \<noteq> el_threadId L \<or> el_callingPendingFunctors L
       then [EvWrite (el_wakeupFd L) eventfd_one (Inr 8)] else [])"
  by (rule queueInLoop_ok [OF assms])

text \<open>From another thread; the counter is raised once.\<close>

theorem queueInLoop_outcome_witness:
  "\<exists>w'. queueInLoop (eventfd_os 4) 0 7 (small_world\<lparr>cur_tid := 2\<rparr>) = Inr w' \<and>
     (\<exists>L. loops w' 0 = Some L \<and> el_pendingFunctors L = [7]) \<and> eventfd_count (trace w') 4 = 1"
  using queueInLoop_outcome [of "small_world\<lparr>cur_tid := 2\<rparr>" 0 small_loop "eventfd_os 4" 7]
    eventfd_os_contract [of 4]
  by (auto simp: eventfd_count_def)

section \<open>Properties of the loop\<close>

lemma loop_returns:
  "EventLoop_loop body l w = Some (Inr w') \<longleftrightarrow>
     (\<exists>L n v L'. loops w l = Some L \<and>
        after_rounds body l (Suc n) (put_loop l (L\<lparr>el_looping := True, el_quit := False\<rparr>) w) v \<and>
        loops v l = Some L' \<and> w' = put_loop l (L'\<lparr>el_looping := False\<rparr>) v)"
  (is "?lhs \<longleftrightarrow> ?rhs")
proof
  assume ?lhs
  then obtain L v where L: "loops w l = Some L" and
      v: "while_not_quit body l (put_loop l (L\<lparr>el_looping := True, el_quit := False\<rparr>) w) = Some (Inr v)"
      "upd_loop l (\<lambda>L. L\<lparr>el_looping := False\<rparr>) v = Inr w'"
    by (auto simp: EventLoop_loop_def upd_loop_def bnd_eq_Inr get_loop_def
        split: sum.splits option.splits)
  from while_returns [OF v(1)] obtain m where
      m: "after_rounds body l m (put_loop l (L\<lparr>el_looping := True, el_quit := False\<rparr>) w) v"
    by blast
  then obtain n where "m = Suc n"
    by (cases m) (auto simp: after_rounds_0 stopped_def)
  with L m v(2) show ?rhs by (auto simp: upd_loop_Inr)
next
  assume ?rhs
  then obtain L n v L' where L: "loops w l = Some L" and
      n: "after_rounds body l (Suc n) (put_loop l (L\<lparr>el_looping := True, el_quit := False\<rparr>) w) v"
      and v: "loops v l = Some L'" "w' = put_loop l (L'\<lparr>el_looping := False\<rparr>) v"
    by blast
  from while_after_rounds [OF n] L v show ?lhs by (simp add: EventLoop_loop_def)
qed

text \<open>
  The loop ends exactly by a quit during a round: \<open>loop()\<close> returns in a world exactly if some
  number of rounds, at least one, was run with
  the flag clear before each and set after the last; it then leaves \<open>looping_\<close> cleared and
  nothing else changed. The flag is cleared on entry, so at least one round always runs.
\<close>

theorem loop_returns_iff:
  "EventLoop_loop body l w = Some (Inr w') \<longleftrightarrow>
     (\<exists>L n v L'. loops w l = Some L \<and>
        after_rounds body l (Suc n) (put_loop l (L\<lparr>el_looping := True, el_quit := False\<rparr>) w) v \<and>
        loops v l = Some L' \<and> w' = put_loop l (L'\<lparr>el_looping := False\<rparr>) v)"
  by (rule loop_returns)

text \<open>
  A quit before the loop starts is lost. \<open>quit()\<close> called before \<open>loop()\<close>, from the loop's own thread or with a
  working wake-up from another, has no effect on when \<open>loop()\<close> returns: the flag it sets is
  cleared on entry. The destructor of \<open>EventLoopThread\<close> that runs before the new thread has
  entered \<open>loop()\<close> therefore waits for ever.
\<close>

theorem quit_before_loop_is_lost:
  assumes "loops w l = Some L" and "cur_tid w = el_threadId L"
  shows "\<exists>w1. quit os l w = Inr w1 \<and> stopped l w1 \<and>
    EventLoop_loop body l w1 = EventLoop_loop body l w"
proof -
  from assms show ?thesis
    by (simp add: quit_def isInLoopThread_def stopped_def EventLoop_loop_def)
qed

theorem quit_before_loop_is_lost_witness:
  "\<exists>w1. quit demo_os 0 small_world = Inr w1 \<and> stopped 0 w1 \<and>
     EventLoop_loop (\<lambda>w. Inl Fatal) 0 w1 = Some (Inl Fatal)"
proof -
  have "EventLoop_loop (\<lambda>w. Inl Fatal) 0 small_world = Some (Inl Fatal)"
    by (simp add: EventLoop_loop_def while_not_quit.simps)
  with quit_before_loop_is_lost [of small_world 0 small_loop demo_os "\<lambda>w. Inl Fatal"]
  show ?thesis by auto
qed

lemma EventLoop_ctor_ok:
  assumes "epoll_ctl_contract os" and "\<forall>q d. chans w q = Some d \<longrightarrow> ch_loop d \<noteq> l"
    and ep: "os_epoll_create os (trace w) = Inr ep"
    and fd: "os_eventfd os (trace w @ [EvEpollCreate (Inr ep)]) = Inr fd"
    and free: "t_loopInThisThread w (cur_tid w) = None"
  shows "\<exists>w'. EventLoop_ctor False os l p w = Inr w' \<and> loop_inv os l w' \<and>
    t_loopInThisThread w' = (t_loopInThisThread w)(cur_tid w \<mapsto> l) \<and>
    loop_owned l w' = {p} \<and> loop_watched l w' p = Some kReadEvent"
proof -
  let ?w = "constructed ep fd l p w"
  have owned: "loop_owned l ?w = {p}"
    using assms(2) by (auto simp: loop_owned_def Channel_ctor_def)
  then obtain w' where w': "enableReading os p ?w = Inr w'" "loop_inv os l w'"
      "loop_owned l w' = {p}"
      "(loop_mask w', loop_watched l w') =
        spec_step (Change EnableReading p) (loop_mask ?w, loop_watched l ?w)"
    using reg.change_law [OF constructed_inv [OF assms(1,2)], of p ep fd p EnableReading] by auto
  then have "loop_watched l w' p = Some (loop_mask ?w p OR kReadEvent)"
    by (simp add: Let_def kNoneEvent_def kReadEvent_def epoll_masks loop_mask_def Channel_ctor_def)
  moreover from w'(1) have "t_loopInThisThread w' = t_loopInThisThread ?w"
    by (rule Channel_interest_frame) (simp add: ctl_frame_def)
  ultimately show ?thesis
    using w' EventLoop_ctor_call [OF ep fd, of l p] free
    by (auto simp: loop_mask_def Channel_ctor_def)
qed

text \<open>
  Construction. A constructed loop is registered for its thread and watches its wake-up descriptor for
  reading, with poller and kernel in agreement; construction fails with \<open>LOG_FATAL\<close> when the
  thread has a loop already or a descriptor cannot be had.
\<close>

theorem EventLoop_ctor_outcome:
  assumes "epoll_ctl_contract os" and "\<forall>q d. chans w q = Some d \<longrightarrow> ch_loop d \<noteq> l"
  shows "case os_epoll_create os (trace w) of
      Inl e \<Rightarrow> EventLoop_ctor False os l p w = Inl Fatal
    | Inr ep \<Rightarrow>
       (case os_eventfd os (trace w @ [EvEpollCreate (Inr ep)]) of
          Inl e \<Rightarrow> EventLoop_ctor False os l p w = Inl Fatal
        | Inr fd \<Rightarrow>
          (case t_loopInThisThread w (cur_tid w) of
             Some l' \<Rightarrow> EventLoop_ctor False os l p w = Inl Fatal
           | None \<Rightarrow> \<exists>w'. EventLoop_ctor False os l p w = Inr w' \<and> loop_inv os l w' \<and>
               t_loopInThisThread w' = (t_loopInThisThread w)(cur_tid w \<mapsto> l) \<and>
               loop_owned l w' = {p} \<and> loop_watched l w' p = Some kReadEvent))"
proof (cases "os_epoll_create os (trace w)")
  case (Inl e)
  then show ?thesis
    by (simp add: EventLoop_ctor_def newDefaultPoller_def EPollPoller_ctor_def
        sys_epoll_create_def Let_def)
next
  case ep: (Inr ep)
  show ?thesis
  proof (cases "os_eventfd os (trace w @ [EvEpollCreate (Inr ep)])")
    case (Inl e)
    with ep show ?thesis
      by (simp add: EventLoop_ctor_def newDefaultPoller_def EPollPoller_ctor_def createEventfd_def
          sys_epoll_create_def sys_eventfd_def Let_def)
  next
    case fd: (Inr fd)
    show ?thesis
    proof (cases "t_loopInThisThread w (cur_tid w)")
      case None
      with ep fd EventLoop_ctor_ok [OF assms ep fd None, of p] show ?thesis by simp
    next
      case (Some l')
      with ep fd EventLoop_ctor_call [OF ep fd, of l p] show ?thesis by simp
    qed
  qed
qed

theorem EventLoop_ctor_outcome_witness:
  "\<exists>w'. EventLoop_ctor False demo_os 0 8 empty_world = Inr w' \<and>
     t_loopInThisThread w' 1 = Some 0 \<and> loop_watched 0 w' 8 = Some kReadEvent"
  using EventLoop_ctor_outcome [OF demo_os_epoll_ctl, of empty_world 0 8]
  by (auto simp: demo_os_def)

text \<open>
  C14 (scripts of interest changes). Any sequence of \<open>enableReading\<close> ... \<open>disableAll\<close> and \<open>remove\<close> calls on the channels of a
  loop runs without a fatal error and refines the abstract registry: every channel ends with the
  mask the calls ask for, the kernel watches a channel exactly when the abstract machine does, with
  that mask, no other channel is affected, and poller, indices and kernel still agree.
\<close>

theorem interest_scripts:
  assumes "loop_inv os l w" and "target ` set ops \<subseteq> loop_owned l w"
  shows "\<exists>w'. run (map (registry_step (Channel_interest os) (Channel_remove os)) ops) w = Inr w' \<and>
    loop_inv os l w' \<and> loop_owned l w' = loop_owned l w \<and>
    (loop_mask w', loop_watched l w') = fold spec_step ops (loop_mask w, loop_watched l w) \<and>
    (faithful (loop_mask w, loop_watched l w) \<longrightarrow> faithful (loop_mask w', loop_watched l w'))"
  using reg.script_refines [OF assms] fold_spec_faithful by metis

theorem interest_scripts_witness:
  "\<exists>w'. run (map (registry_step (Channel_interest demo_os) (Channel_remove demo_os))
        [Change EnableReading 8, Change EnableWriting 8, Change DisableReading 8]) small_world = Inr w' \<and>
     loop_watched 0 w' 8 = Some 4"
proof -
  let ?ops = "[Change EnableReading 8, Change EnableWriting 8, Change DisableReading 8]"
  have mask: "loop_mask small_world 8 = 0"
    by (simp add: loop_mask_def small_world_def Channel_ctor_def)
  have inv: "loop_inv demo_os 0 small_world" by (rule small_world_inv [OF demo_os_epoll_ctl])
  have "target ` set ?ops \<subseteq> loop_owned 0 small_world" by (simp add: small_world_owned)
  from interest_scripts [OF inv this] obtain w' where
      w': "run (map (registry_step (Channel_interest demo_os) (Channel_remove demo_os)) ?ops)
        small_world = Inr w'"
      "(loop_mask w', loop_watched 0 w') =
        fold spec_step ?ops (loop_mask small_world, loop_watched 0 small_world)"
    by blast
  then have "loop_watched 0 w' 8 = Some 4"
    by (simp add: Let_def mask kReadEvent_def kWriteEvent_def kNoneEvent_def epoll_masks)
  with w'(1) show ?thesis by blast
qed

end
