(* ===== verification/Interleaving.thy ===== *)
theory Interleaving
  imports Prelude
begin

text \<open>
  Runs of a system that makes one labelled step at a time, with \<open>None\<close> for a step that is not
  enabled: what the interleavings of \<open>LoopProtocol\<close> (a loop and its clients) and
  \<open>LoopThread\<close> (a loop's thread and its owner) share. The two theories interpret the locale on
  their own steps and runs.
\<close>

locale step_system =
  fixes exec :: "'a \<Rightarrow> 's \<Rightarrow> 's option" and runs :: "'a list \<Rightarrow> 's \<Rightarrow> 's option"
  assumes runs_Nil: "runs [] s = Some s"
    and runs_Cons: "runs (a # as) s = Option.bind (exec a s) (runs as)"
begin

lemma append: "runs (as @ bs) s = Option.bind (runs as s) (runs bs)"
  by (induction as arbitrary: s) (auto simp: runs_Nil runs_Cons split: bind_split)

lemma thence: "runs as s = Some u \<Longrightarrow> runs bs u = Some s' \<Longrightarrow> runs (as @ bs) s = Some s'"
  by (simp add: append)

lemma one: "runs [a] s = exec a s"
  by (cases "exec a s") (simp_all add: runs_Cons runs_Nil)

lemma first: "exec a s = Some u \<Longrightarrow> runs bs u = Some s' \<Longrightarrow> runs (a # bs) s = Some s'"
  by (simp add: runs_Cons)

text \<open>An invariant of the steps, which may look at the actions taken so far.\<close>

lemma history:
  assumes "\<And>as a u v. runs as s = Some u \<Longrightarrow> exec a u = Some v \<Longrightarrow> P as u \<Longrightarrow> P (as @ [a]) v"
    and "P [] s"
  shows "runs as s = Some s' \<Longrightarrow> P as s'"
proof (induction as arbitrary: s' rule: rev_induct)
  case Nil
  with assms(2) show ?case by (simp add: runs_Nil)
next
  case (snoc a as)
  then obtain u where "runs as s = Some u" "exec a u = Some s'"
    by (auto simp: append one bind_eq_Some_conv)
  with assms(1) snoc.IH show ?case by blast
qed

lemma invariant:
  assumes "\<And>a u v. a \<in> set as \<Longrightarrow> exec a u = Some v \<Longrightarrow> P u \<Longrightarrow> P v"
    and "runs as s = Some s'" and "P s"
  shows "P s'"
proof -
  have "set bs \<subseteq> set as \<longrightarrow> P u" if "runs bs s = Some u" for bs u
    using that by (rule history [rotated 2]) (use assms(1,3) in auto)
  with assms(2) show ?thesis by blast
qed

text \<open>A measure that every counted action lowers, with credit for some of the others.\<close>

lemma bounded:
  assumes "\<And>a u v. exec a u = Some v \<Longrightarrow>
      m v + (if counted a then 1 else 0) \<le> m u + (if a = refill then k else (0 :: nat))"
    and "runs as s = Some s'"
  shows "m s' + length (filter counted as) \<le> m s + k * count_list as refill"
proof -
  have "m u + length (filter counted bs) \<le> m s + k * count_list bs refill"
    if "runs bs s = Some u" for bs u
    using that
  proof (rule history [rotated 2])
    fix cs a x v
    assume "exec a x = Some v" "m x + length (filter counted cs) \<le> m s + k * count_list cs refill"
    with assms(1) [of a x v]
    show "m v + length (filter counted (cs @ [a])) \<le> m s + k * count_list (cs @ [a]) refill"
      by (auto split: if_split_asm)
  qed simp
  with assms(2) show ?thesis by blast
qed

end

end
