(* ===== verification/LoopProtocol.thy ===== *)
theory LoopProtocol
  imports EventLoop Interleaving
begin

text \<open>
  One event loop and the threads that queue functors on it or ask it to quit, as an interleaving
  of the atomic steps of \<open>EventLoop::loop\<close>, \<open>doPendingFunctors\<close>, \<open>queueInLoop\<close>,
  \<open>quit\<close>, \<open>wakeup\<close> and \<open>handleRead\<close> (\<open>src/src/EventLoop.cc\<close>). A
  poll may also return for another descriptor only, or because its timeout expired. The invariants: no
  functor is lost, duplicated or overtaken; a loop about to sleep on a non-empty queue has its
  wake-up raised or about to be raised; and the same for a quit. Two runs show what the order of
  the statements does not protect: a functor queued, or a quit requested, before \<open>loop()\<close> starts.
\<close>

section \<open>States and steps\<close>

text \<open>Where the loop thread is, in the order of the statements of \<open>loop()\<close>.\<close>

datatype 'f loop_pc =
    LStart
  | LCheck
  | LPoll
  | LHandle bool
  | LSetCalling
  | LSwap
  | LRun "'f list"
  | LRunPushed "'f list"
  | LClearCalling
  | LDone

text \<open>
  Where another thread is: outside, between the push and the wake-up of \<open>queueInLoop\<close>, or
  between the store and the wake-up of \<open>quit\<close>.
\<close>

datatype client_pc = CIdle | CPushed | CQuitting

record 'f lp_state =
  lp_pc :: "'f loop_pc"
  lp_pending :: "'f list"
  lp_calling :: bool
  lp_counter :: nat
  lp_quit :: bool
  lp_clients :: "tid \<Rightarrow> client_pc"
  lp_queued :: "'f list"
  lp_executed :: "'f list"
  lp_asked :: bool

text \<open>
  The last three members are history: every functor queued, in the order of the pushes, every
  functor run, and whether somebody called \<open>quit\<close>.
\<close>

datatype 'f lp_action =
    EarlyQueue 'f
  | Enter
  | Check
  | PollWoken
  | PollOther
  | HandleRead
  | HandleQueue 'f
  | HandleQuit
  | HandleDone
  | SetCalling
  | Swap
  | RunOne
  | RunQueue 'f
  | RunWake
  | RunQuit
  | RunDone
  | ClearCalling
  | ClientPush tid 'f
  | ClientQuit tid
  | ClientWake tid

definition lp_push :: "'f \<Rightarrow> 'f lp_state \<Rightarrow> 'f lp_state" where
  "lp_push f s = s\<lparr>lp_pending := lp_pending s @ [f], lp_queued := lp_queued s @ [f]\<rparr>"

inductive lp_step :: "'f lp_action \<Rightarrow> 'f lp_state \<Rightarrow> 'f lp_state \<Rightarrow> bool" where
  early: "lp_pc s = LStart \<Longrightarrow> lp_step (EarlyQueue f) s (lp_push f s)"
| enter: "lp_pc s = LStart \<Longrightarrow> lp_step Enter s (s\<lparr>lp_pc := LCheck, lp_quit := False\<rparr>)"
| check: "lp_pc s = LCheck \<Longrightarrow>
    lp_step Check s (s\<lparr>lp_pc := (if lp_quit s then LDone else LPoll)\<rparr>)"
| poll_woken: "lp_pc s = LPoll \<Longrightarrow> 0 < lp_counter s \<Longrightarrow>
    lp_step PollWoken s (s\<lparr>lp_pc := LHandle True\<rparr>)"
| poll_other: "lp_pc s = LPoll \<Longrightarrow>
    lp_step PollOther s (s\<lparr>lp_pc := LHandle False\<rparr>)"
| handle_read: "lp_pc s = LHandle True \<Longrightarrow>
    lp_step HandleRead s (s\<lparr>lp_pc := LHandle False, lp_counter := 0\<rparr>)"
| handle_queue: "lp_pc s = LHandle b \<Longrightarrow> lp_step (HandleQueue f) s (lp_push f s)"
| handle_quit: "lp_pc s = LHandle b \<Longrightarrow>
    lp_step HandleQuit s (s\<lparr>lp_quit := True, lp_asked := True\<rparr>)"
| handle_done: "lp_pc s = LHandle False \<Longrightarrow> lp_step HandleDone s (s\<lparr>lp_pc := LSetCalling\<rparr>)"
| set_calling: "lp_pc s = LSetCalling \<Longrightarrow>
    lp_step SetCalling s (s\<lparr>lp_pc := LSwap, lp_calling := True\<rparr>)"
| swap: "lp_pc s = LSwap \<Longrightarrow>
    lp_step Swap s (s\<lparr>lp_pc := LRun (lp_pending s), lp_pending := []\<rparr>)"
| run_one: "lp_pc s = LRun (f # fs) \<Longrightarrow>
    lp_step RunOne s (s\<lparr>lp_pc := LRun fs, lp_executed := lp_executed s @ [f]\<rparr>)"
| run_queue: "lp_pc s = LRun fs \<Longrightarrow>
    lp_step (RunQueue f) s ((lp_push f s)\<lparr>lp_pc := LRunPushed fs\<rparr>)"
| run_wake: "lp_pc s = LRunPushed fs \<Longrightarrow>
    lp_step RunWake s (s\<lparr>lp_pc := LRun fs, lp_counter := Suc (lp_counter s)\<rparr>)"
| run_quit: "lp_pc s = LRun fs \<Longrightarrow>
    lp_step RunQuit s (s\<lparr>lp_quit := True, lp_asked := True\<rparr>)"
| run_done: "lp_pc s = LRun [] \<Longrightarrow> lp_step RunDone s (s\<lparr>lp_pc := LClearCalling\<rparr>)"
| clear_calling: "lp_pc s = LClearCalling \<Longrightarrow>
    lp_step ClearCalling s (s\<lparr>lp_pc := LCheck, lp_calling := False\<rparr>)"
| client_push: "lp_clients s t = CIdle \<Longrightarrow>
    lp_step (ClientPush t f) s ((lp_push f s)\<lparr>lp_clients := (lp_clients s)(t := CPushed)\<rparr>)"
| client_quit: "lp_clients s t = CIdle \<Longrightarrow>
    lp_step (ClientQuit t) s (s\<lparr>lp_quit := True, lp_asked := True,
      lp_clients := (lp_clients s)(t := CQuitting)\<rparr>)"
| client_wake: "lp_clients s t \<noteq> CIdle \<Longrightarrow>
    lp_step (ClientWake t) s (s\<lparr>lp_counter := Suc (lp_counter s),
      lp_clients := (lp_clients s)(t := CIdle)\<rparr>)"

inductive lp_steps :: "'f lp_action list \<Rightarrow> 'f lp_state \<Rightarrow> 'f lp_state \<Rightarrow> bool" where
  lp_nil: "lp_steps [] s s"
| lp_snoc: "lp_steps as s s' \<Longrightarrow> lp_step a s' s'' \<Longrightarrow> lp_steps (as @ [a]) s s''"

definition lp_init :: "'f lp_state" where
  "lp_init = \<lparr>lp_pc = LStart, lp_pending = [], lp_calling = False, lp_counter = 0,
     lp_quit = False, lp_clients = (\<lambda>t. CIdle), lp_queued = [], lp_executed = [],
     lp_asked = False\<rparr>"

inductive_simps lp_step_simps [simp]:
  "lp_step (EarlyQueue f) s s'" "lp_step Enter s s'" "lp_step Check s s'"
  "lp_step PollWoken s s'" "lp_step PollOther s s'" "lp_step HandleRead s s'"
  "lp_step (HandleQueue f) s s'" "lp_step HandleQuit s s'" "lp_step HandleDone s s'"
  "lp_step SetCalling s s'" "lp_step Swap s s'" "lp_step RunOne s s'" "lp_step (RunQueue f) s s'"
  "lp_step RunWake s s'" "lp_step RunQuit s s'" "lp_step RunDone s s'" "lp_step ClearCalling s s'"
  "lp_step (ClientPush t f) s s'" "lp_step (ClientQuit t) s s'" "lp_step (ClientWake t) s s'"

text \<open>The same steps as a function, so that runs can be evaluated.\<close>

fun lp_exec :: "'f lp_action \<Rightarrow> 'f lp_state \<Rightarrow> 'f lp_state option" where
  "lp_exec (EarlyQueue f) s = (if lp_pc s = LStart then Some (lp_push f s) else None)"
| "lp_exec Enter s =
     (if lp_pc s = LStart then Some (s\<lparr>lp_pc := LCheck, lp_quit := False\<rparr>) else None)"
| "lp_exec Check s =
     (if lp_pc s = LCheck then Some (s\<lparr>lp_pc := (if lp_quit s then LDone else LPoll)\<rparr>) else None)"
| "lp_exec PollWoken s =
     (if lp_pc s = LPoll \<and> 0 < lp_counter s then Some (s\<lparr>lp_pc := LHandle True\<rparr>) else None)"
| "lp_exec PollOther s =
     (if lp_pc s = LPoll then Some (s\<lparr>lp_pc := LHandle False\<rparr>) else None)"
| "lp_exec HandleRead s =
     (if lp_pc s = LHandle True then Some (s\<lparr>lp_pc := LHandle False, lp_counter := 0\<rparr>) else None)"
| "lp_exec (HandleQueue f) s =
     (case lp_pc s of LHandle b \<Rightarrow> Some (lp_push f s) | _ \<Rightarrow> None)"
| "lp_exec HandleQuit s =
     (case lp_pc s of LHandle b \<Rightarrow> Some (s\<lparr>lp_quit := True, lp_asked := True\<rparr>) | _ \<Rightarrow> None)"
| "lp_exec HandleDone s =
     (if lp_pc s = LHandle False then Some (s\<lparr>lp_pc := LSetCalling\<rparr>) else None)"
| "lp_exec SetCalling s =
     (if lp_pc s = LSetCalling then Some (s\<lparr>lp_pc := LSwap, lp_calling := True\<rparr>) else None)"
| "lp_exec Swap s =
     (if lp_pc s = LSwap then Some (s\<lparr>lp_pc := LRun (lp_pending s), lp_pending := []\<rparr>) else None)"
| "lp_exec RunOne s =
     (case lp_pc s of
        LRun (f # fs) \<Rightarrow> Some (s\<lparr>lp_pc := LRun fs, lp_executed := lp_executed s @ [f]\<rparr>)
      | _ \<Rightarrow> None)"
| "lp_exec (RunQueue f) s =
     (case lp_pc s of LRun fs \<Rightarrow> Some ((lp_push f s)\<lparr>lp_pc := LRunPushed fs\<rparr>) | _ \<Rightarrow> None)"
| "lp_exec RunWake s =
     (case lp_pc s of
        LRunPushed fs \<Rightarrow> Some (s\<lparr>lp_pc := LRun fs, lp_counter := Suc (lp_counter s)\<rparr>)
      | _ \<Rightarrow> None)"
| "lp_exec RunQuit s =
     (case lp_pc s of LRun fs \<Rightarrow> Some (s\<lparr>lp_quit := True, lp_asked := True\<rparr>) | _ \<Rightarrow> None)"
| "lp_exec RunDone s =
     (if lp_pc s = LRun [] then Some (s\<lparr>lp_pc := LClearCalling\<rparr>) else None)"
| "lp_exec ClearCalling s =
     (if lp_pc s = LClearCalling then Some (s\<lparr>lp_pc := LCheck, lp_calling := False\<rparr>) else None)"
| "lp_exec (ClientPush t f) s =
     (if lp_clients s t = CIdle
      then Some ((lp_push f s)\<lparr>lp_clients := (lp_clients s)(t := CPushed)\<rparr>) else None)"
| "lp_exec (ClientQuit t) s =
     (if lp_clients s t = CIdle
      then Some (s\<lparr>lp_quit := True, lp_asked := True, lp_clients := (lp_clients s)(t := CQuitting)\<rparr>)
      else None)"
| "lp_exec (ClientWake t) s =
     (if lp_clients s t \<noteq> CIdle
      then Some (s\<lparr>lp_counter := Suc (lp_counter s), lp_clients := (lp_clients s)(t := CIdle)\<rparr>)
      else None)"

lemma lp_exec_step: "lp_exec a s = Some s' \<longleftrightarrow> lp_step a s s'"
  by (cases a) (auto split: loop_pc.splits list.splits)

primrec lp_run :: "'f lp_action list \<Rightarrow> 'f lp_state \<Rightarrow> 'f lp_state option" where
  "lp_run [] s = Some s"
| "lp_run (a # as) s = Option.bind (lp_exec a s) (lp_run as)"

interpretation lp: step_system lp_exec lp_run
  by unfold_locales simp_all

lemma lp_steps_run: "lp_steps as s s' \<longleftrightarrow> lp_run as s = Some s'"
proof
  assume "lp_steps as s s'"
  then show "lp_run as s = Some s'"
    by induction (auto simp: lp.append lp_exec_step [symmetric])
next
  show "lp_steps as s s'" if "lp_run as s = Some s'"
    using that by (rule lp.history [rotated 2]) (auto simp: lp_exec_step intro: lp_nil lp_snoc)
qed

lemmas lp_steps_fold = lp_steps_run [THEN iffD2]

lemma lp_steps_append:
  "lp_steps bs s' s'' \<Longrightarrow> lp_steps as s s' \<Longrightarrow> lp_steps (as @ bs) s s''"
  by (auto simp: lp_steps_run intro: lp.thence)

lemma lp_steps_Cons:
  "lp_step a s s' \<Longrightarrow> lp_steps as s' s'' \<Longrightarrow> lp_steps (a # as) s s''"
  by (auto simp: lp_steps_run lp_exec_step [symmetric])

section \<open>Invariants\<close>

text \<open>Functors the round in progress has taken and not run.\<close>

fun in_flight :: "'f loop_pc \<Rightarrow> 'f list" where
  "in_flight (LRun fs) = fs"
| "in_flight (LRunPushed fs) = fs"
| "in_flight _ = []"

definition order_inv :: "'f lp_state \<Rightarrow> bool" where
  "order_inv s \<longleftrightarrow> lp_queued s = lp_executed s @ in_flight (lp_pc s) @ lp_pending s"

text \<open>The loop will still look at its queue before it sleeps, or will raise the counter itself.\<close>

fun before_swap :: "'f loop_pc \<Rightarrow> bool" where
  "before_swap (LHandle b) = True"
| "before_swap LSetCalling = True"
| "before_swap LSwap = True"
| "before_swap (LRunPushed fs) = True"
| "before_swap _ = False"

definition wake_inv :: "'f lp_state \<Rightarrow> bool" where
  "wake_inv s \<longleftrightarrow>
     before_swap (lp_pc s) \<or> lp_pc s = LDone \<or> lp_pending s = [] \<or> 0 < lp_counter s \<or>
     (\<exists>t. lp_clients s t = CPushed)"

definition quit_inv :: "'f lp_state \<Rightarrow> bool" where
  "quit_inv s \<longleftrightarrow>
     lp_quit s = lp_asked s \<and> (lp_pc s = LStart \<longrightarrow> \<not> lp_asked s) \<and>
     (lp_pc s = LPoll \<longrightarrow> lp_quit s \<longrightarrow> 0 < lp_counter s \<or> (\<exists>t. lp_clients s t = CQuitting))"

lemma order_inv_step: "lp_step a s s' \<Longrightarrow> order_inv s \<Longrightarrow> order_inv s'"
  by (cases rule: lp_step.cases) (auto simp: order_inv_def lp_push_def)

lemma wake_inv_step:
  assumes "lp_step a s s'" and "\<forall>f. a \<noteq> EarlyQueue f" and "wake_inv s"
  shows "wake_inv s'"
  using assms
  by (cases rule: lp_step.cases)
    (auto simp: wake_inv_def lp_push_def, metis client_pc.distinct(1,3))

lemma quit_inv_step:
  assumes "lp_step a s s'" and "lp_pc s = LStart \<longrightarrow> (\<forall>t. a \<noteq> ClientQuit t)" and "quit_inv s"
  shows "quit_inv s'"
  using assms
  by (cases rule: lp_step.cases)
    (auto simp: quit_inv_def lp_push_def, metis client_pc.distinct(1,3))

text \<open>Invariants of every run, with what they ask of its actions.\<close>

lemma lp_reachable:
  assumes "lp_steps as lp_init s" and "P [] lp_init"
    and "\<And>as a u v. lp_step a u v \<Longrightarrow> P as u \<Longrightarrow> P (as @ [a]) v"
  shows "P as s"
  using assms(1) [unfolded lp_steps_run]
  by (rule lp.history [rotated 2]) (auto simp: lp_exec_step intro: assms)

text \<open>Whether \<open>loop()\<close> was entered is in the history.\<close>

lemma entered_step:
  "lp_step a s s' \<Longrightarrow> (lp_pc s = LStart) = (Enter \<notin> set as) \<Longrightarrow>
     (lp_pc s' = LStart) = (Enter \<notin> set (as @ [a]))"
  by (cases rule: lp_step.cases) (auto simp: lp_push_def split: if_split_asm)

lemma inv_init: "order_inv lp_init" "wake_inv lp_init" "quit_inv lp_init"
  by (simp_all add: lp_init_def order_inv_def wake_inv_def quit_inv_def)

lemma entered: "lp_steps as lp_init s \<Longrightarrow> lp_pc s = LStart \<longleftrightarrow> Enter \<notin> set as"
  by (erule lp_reachable) (simp add: lp_init_def, rule entered_step)

lemma reachable_order: "lp_steps as lp_init s \<Longrightarrow> order_inv s"
  by (erule lp_reachable [where P = "\<lambda>_. order_inv"])
    (simp_all add: inv_init order_inv_step)

text \<open>
  What the loop's own thread queues before it enters \<open>loop()\<close> raises no wake-up. As long as nothing
  else happens, exactly that may wait in a queue nobody looks at.
\<close>

fun early_functor :: "'f lp_action \<Rightarrow> 'f option" where
  "early_functor (EarlyQueue f) = Some f"
| "early_functor _ = None"

definition early_functors :: "'f lp_action list \<Rightarrow> 'f list" where
  "early_functors as = List.map_filter early_functor as"

lemma early_functors_simps [simp]:
  "early_functors [] = []"
  "early_functors (as @ [a]) = early_functors as @ (case early_functor a of None \<Rightarrow> [] | Some f \<Rightarrow> [f])"
  by (auto simp: early_functors_def map_filter_def)

lemma early_functors_Nil:
  assumes "\<forall>f. EarlyQueue f \<notin> set as"
  shows "early_functors as = []"
proof -
  have "early_functor a = None" if "a \<in> set as" for a
    using assms that by (cases a) auto
  then show ?thesis by (simp add: early_functors_def map_filter_def filter_empty_conv)
qed

definition early_inv :: "'f lp_action list \<Rightarrow> 'f lp_state \<Rightarrow> bool" where
  "early_inv as s \<longleftrightarrow>
     (lp_pc s = LStart \<longrightarrow> lp_pending s = [] \<longrightarrow> early_functors as = []) \<and>
     (wake_inv s \<or> lp_pending s = early_functors as)"

lemma early_inv_step:
  assumes step: "lp_step a s s'" and inv: "early_inv as s"
  shows "early_inv (as @ [a]) s'"
proof (cases "\<exists>f. a = EarlyQueue f")
  case True
  then obtain f where a: "a = EarlyQueue f" by blast
  with step have s': "lp_pc s = LStart" "s' = lp_push f s" by auto
  have "wake_inv s' \<or> lp_pending s' = early_functors as @ [f]"
  proof (cases "lp_pending s = early_functors as")
    case False
    with inv s'(1) have "lp_pending s \<noteq> []" "wake_inv s" by (auto simp: early_inv_def)
    then show ?thesis by (auto simp: wake_inv_def s' lp_push_def)
  qed (simp add: s' lp_push_def)
  then show ?thesis by (simp add: early_inv_def a s' lp_push_def)
next
  case False
  then have none: "early_functor a = None" by (cases a) auto
  from False have wake: "wake_inv s \<Longrightarrow> wake_inv s'" by (auto intro: wake_inv_step [OF step])
  have "wake_inv s' \<or> lp_pending s' = lp_pending s"
    using step False by (cases rule: lp_step.cases) (auto simp: wake_inv_def lp_push_def)
  moreover have "lp_pc s' = LStart \<Longrightarrow> lp_pc s = LStart \<and> (lp_pending s' = [] \<longrightarrow> lp_pending s = [])"
    using step by (cases rule: lp_step.cases) (auto simp: lp_push_def split: if_split_asm)
  ultimately show ?thesis using inv wake none by (auto simp: early_inv_def)
qed

lemma reachable_early: "lp_steps as lp_init s \<Longrightarrow> wake_inv s \<or> lp_pending s = early_functors as"
proof -
  assume "lp_steps as lp_init s"
  then have "early_inv as s"
    by (rule lp_reachable [where P = early_inv]) (simp add: early_inv_def inv_init, rule early_inv_step)
  then show ?thesis by (simp add: early_inv_def)
qed

lemma reachable_quit:
  assumes "lp_steps as lp_init s" and "\<forall>t. ClientQuit t \<notin> set (takeWhile (\<lambda>a. a \<noteq> Enter) as)"
  shows "quit_inv s"
proof -
  let ?early = "\<lambda>as :: 'a lp_action list. \<exists>t. ClientQuit t \<in> set (takeWhile (\<lambda>a. a \<noteq> Enter) as)"
  from assms(1) have "(lp_pc s = LStart) = (Enter \<notin> set as) \<and> (?early as \<or> quit_inv s)"
  proof (rule lp_reachable)
    fix as a and u v :: "'a lp_state"
    assume step: "lp_step a u v" and inv: "(lp_pc u = LStart) = (Enter \<notin> set as) \<and> (?early as \<or> quit_inv u)"
    have "?early (as @ [a])" if "?early as" using that by (auto simp: takeWhile_append dest: set_takeWhileD)
    moreover have "?early (as @ [a])" if "lp_pc u = LStart" "a = ClientQuit t" for t
      using that inv by (auto simp: takeWhile_append)
    ultimately show "(lp_pc v = LStart) = (Enter \<notin> set (as @ [a])) \<and> (?early (as @ [a]) \<or> quit_inv v)"
      using inv entered_step [OF step, of as] quit_inv_step [OF step] by blast
  qed (simp add: inv_init, simp add: lp_init_def)
  with assms(2) show ?thesis by blast
qed

section \<open>Rounds of the loop thread\<close>

lemma run_all:
  "lp_pc s = LRun fs \<Longrightarrow>
     lp_steps (replicate (length fs) RunOne) s
       (s\<lparr>lp_pc := LRun [], lp_executed := lp_executed s @ fs\<rparr>)"
proof (induction fs arbitrary: s)
  case Nil
  then have "s\<lparr>lp_pc := LRun [], lp_executed := lp_executed s @ []\<rparr> = s" by simp
  then show ?case by (simp add: lp_nil)
next
  case (Cons f fs)
  let ?v = "s\<lparr>lp_pc := LRun fs, lp_executed := lp_executed s @ [f]\<rparr>"
  have "lp_step RunOne s ?v" using Cons.prems by simp
  from lp_steps_Cons [OF this] Cons.IH [of ?v] show ?case by simp
qed

text \<open>The steps of a loop thread that found its wake-up descriptor ready and meets no delay.\<close>

definition woken_round :: "nat \<Rightarrow> 'f lp_action list" where
  "woken_round n = [PollWoken, HandleRead, HandleDone, SetCalling, Swap]
     @ replicate n RunOne @ [RunDone, ClearCalling]"

lemma woken_round_steps:
  assumes "lp_pc s = LPoll" and "0 < lp_counter s"
  shows "lp_steps (woken_round (length (lp_pending s))) s
    (s\<lparr>lp_pc := LCheck, lp_counter := 0, lp_calling := False, lp_pending := [],
       lp_executed := lp_executed s @ lp_pending s\<rparr>)"
proof -
  let ?u = "s\<lparr>lp_pc := LRun (lp_pending s), lp_counter := 0, lp_calling := True, lp_pending := []\<rparr>"
  let ?v = "?u\<lparr>lp_pc := LRun [], lp_executed := lp_executed s @ lp_pending s\<rparr>"
  have first: "lp_steps [PollWoken, HandleRead, HandleDone, SetCalling, Swap] s ?u"
    by (rule lp_steps_fold) (simp add: assms)
  have mid: "lp_steps (replicate (length (lp_pending s)) RunOne) ?u ?v"
    using run_all [of ?u "lp_pending s"] by simp
  have last: "lp_steps [RunDone, ClearCalling] ?v (?v\<lparr>lp_pc := LCheck, lp_calling := False\<rparr>)"
    by (rule lp_steps_fold) simp
  have "?v\<lparr>lp_pc := LCheck, lp_calling := False\<rparr> =
      s\<lparr>lp_pc := LCheck, lp_counter := 0, lp_calling := False, lp_pending := [],
        lp_executed := lp_executed s @ lp_pending s\<rparr>"
    by (rule lp_state.equality) simp_all
  with lp_steps_append [OF lp_steps_append [OF last mid] first] show ?thesis
    by (simp only: woken_round_def append_assoc)
qed

section \<open>Properties\<close>

text \<open>
  C12 (functors run once, in order). In every reachable state, under every interleaving, the functors queued so far, in the order
  of their pushes, are those already run, then those the round in progress has taken, then those in
  the queue: none is lost, duplicated or overtaken.
\<close>

theorem functors_once_in_order:
  assumes "lp_steps as lp_init s"
  shows "lp_queued s = lp_executed s @ in_flight (lp_pc s) @ lp_pending s"
  using reachable_order [OF assms] by (simp add: order_inv_def)

definition sample_run :: "nat lp_action list" where
  "sample_run = [Enter, Check, ClientPush 1 10, PollOther, HandleDone, ClientPush 2 20, ClientWake 1,
     SetCalling, Swap, ClientPush 1 30, RunOne, RunQueue 40]"

lemma sample_run_steps:
  "lp_steps sample_run lp_init
     \<lparr>lp_pc = LRunPushed [20], lp_pending = [30, 40], lp_calling = True, lp_counter = 1,
      lp_quit = False, lp_clients = (\<lambda>t. CIdle)(1 := CPushed, 2 := CPushed),
      lp_queued = [10, 20, 30, 40], lp_executed = [10], lp_asked = False\<rparr>"
  by (rule lp_steps_fold) (auto simp: sample_run_def lp_init_def lp_push_def fun_eq_iff)

theorem functors_once_in_order_witness:
  "\<exists>s. lp_steps sample_run lp_init s \<and> lp_executed s = [10] \<and> lp_pending s = [30, 40] \<and>
     lp_queued s = [10] @ [20] @ [30, 40]"
  using functors_once_in_order [OF sample_run_steps] sample_run_steps by fastforce

text \<open>
  C4 (no lost wake-up). In every interleaving of the loop thread with its clients: when the loop waits
  in \<open>poll\<close> and its queue is not empty, then either a client is between its push and its wake-up, or
  the counter is raised, the poll returns and one uninterrupted round runs every queued functor, in
  order, once; or else the queue holds exactly the functors the loop's own thread queued before it
  entered \<open>loop()\<close>, for which \<open>queueInLoop\<close> raises nothing.
\<close>

theorem no_lost_wakeup:
  assumes "lp_steps as lp_init s" and "lp_pc s = LPoll" and "lp_pending s \<noteq> []"
  shows "(\<exists>t. lp_clients s t = CPushed) \<or>
    0 < lp_counter s \<and>
    (\<exists>s'. lp_steps (woken_round (length (lp_pending s))) s s' \<and> lp_pc s' = LCheck \<and>
       lp_pending s' = [] \<and> lp_executed s' = lp_executed s @ lp_pending s) \<or>
    lp_pending s = early_functors as"
proof (cases "0 < lp_counter s")
  case True
  from woken_round_steps [OF assms(2) this] True show ?thesis by fastforce
next
  case False
  with reachable_early [OF assms(1)] assms(2,3) show ?thesis by (auto simp: wake_inv_def)
qed

theorem no_lost_wakeup_witness:
  "\<exists>s s'. lp_steps [Enter, Check, ClientPush 1 10, ClientWake 1] lp_init s \<and> lp_pc s = LPoll \<and>
     lp_steps (woken_round 1) s s' \<and> lp_executed s' = [10 :: nat]"
proof -
  let ?s = "lp_init\<lparr>lp_pc := LPoll, lp_pending := [10 :: nat], lp_counter := 1, lp_queued := [10],
      lp_clients := (\<lambda>t. CIdle)(1 := CIdle)\<rparr>"
  have s: "lp_steps [Enter, Check, ClientPush 1 10, ClientWake 1] lp_init ?s"
    by (rule lp_steps_fold) (auto simp: lp_init_def lp_push_def fun_eq_iff)
  have none: "early_functors [Enter, Check, ClientPush 1 10, ClientWake 1] = []"
    by (rule early_functors_Nil) simp
  from no_lost_wakeup [OF s, unfolded none] s show ?thesis by (fastforce simp: lp_init_def)
qed

text \<open>
  A functor queued too early sleeps. The order of the statements does not protect a functor the loop's own thread queues before it
  enters \<open>loop()\<close>: \<open>queueInLoop\<close> raises no wake-up there, and the loop sleeps in \<open>poll\<close>
  with the functor queued, its counter zero and nobody about to raise it.
\<close>

theorem early_functor_sleeps:
  "\<exists>s. lp_steps [EarlyQueue f, Enter, Check] lp_init s \<and> lp_pc s = LPoll \<and> lp_pending s = [f] \<and>
     lp_counter s = 0 \<and> (\<forall>t. lp_clients s t = CIdle) \<and> \<not> wake_inv s"
proof -
  let ?s = "lp_init\<lparr>lp_pc := LPoll, lp_pending := [f], lp_queued := [f]\<rparr>"
  have "lp_steps [EarlyQueue f, Enter, Check] lp_init ?s"
    by (rule lp_steps_fold) (simp add: lp_init_def lp_push_def)
  then show ?thesis by (intro exI [of _ ?s]) (simp add: lp_init_def wake_inv_def)
qed

text \<open>
  C25 (a quit is seen, once inside). If no other thread asked to quit before the loop thread entered \<open>loop()\<close>, then the flag
  says exactly whether somebody asked, and a loop that waits in \<open>poll\<close> after a request has
  its counter raised or is about to have it raised, so that it leaves at the end of the round.
\<close>

theorem quit_is_seen:
  assumes "lp_steps as lp_init s" and "\<forall>t. ClientQuit t \<notin> set (takeWhile (\<lambda>a. a \<noteq> Enter) as)"
  shows "lp_quit s = lp_asked s \<and>
    (if lp_pc s = LPoll \<and> lp_asked s then 0 < lp_counter s \<or> (\<exists>t. lp_clients s t = CQuitting)
     else True)"
  using reachable_quit [OF assms] by (auto simp: quit_inv_def)

theorem quit_is_seen_witness:
  "\<exists>s :: nat lp_state. lp_steps [Enter, Check, ClientQuit 3] lp_init s \<and> lp_pc s = LPoll \<and>
     lp_quit s \<and> (\<exists>t. lp_clients s t = CQuitting)"
proof -
  let ?s = "lp_init\<lparr>lp_pc := LPoll, lp_quit := True, lp_asked := True,
      lp_clients := (\<lambda>t. CIdle)(3 := CQuitting)\<rparr> :: nat lp_state"
  have s: "lp_steps [Enter, Check, ClientQuit 3] lp_init ?s"
    by (rule lp_steps_fold) (auto simp: lp_init_def fun_eq_iff)
  from quit_is_seen [OF s] s show ?thesis by (intro exI [of _ ?s]) (simp add: lp_init_def)
qed

text \<open>
  A quit that comes too early is lost. When another thread asks to quit before the loop thread enters \<open>loop()\<close>, the flag is
  cleared on entry; the wake-up is consumed by the first round, and the loop then waits in
  \<open>poll\<close> with the flag clear, its counter zero and nobody about to raise it.
\<close>

theorem early_quit_lost:
  "\<exists>s :: 'f lp_state. lp_steps ([ClientQuit t, ClientWake t, Enter, Check] @ woken_round 0 @ [Check])
       lp_init s \<and>
     lp_asked s \<and> \<not> lp_quit s \<and> lp_pc s = LPoll \<and> lp_counter s = 0 \<and>
     (\<forall>t. lp_clients s t = CIdle)"
proof -
  let ?s = "lp_init\<lparr>lp_pc := LPoll, lp_asked := True\<rparr> :: 'f lp_state"
  have "lp_steps ([ClientQuit t, ClientWake t, Enter, Check] @ woken_round 0 @ [Check]) lp_init ?s"
    by (rule lp_steps_fold) (auto simp: lp_init_def woken_round_def fun_eq_iff)
  then show ?thesis by (intro exI [of _ ?s]) (simp add: lp_init_def)
qed

section \<open>The operations of the code are runs of the protocol\<close>

text \<open>What a world and a protocol state have in common: one loop's queue, flags and counter.\<close>

definition agrees :: "loop_id \<Rightarrow> ('f, 'a) lworld_scheme \<Rightarrow> 'f lp_state \<Rightarrow> bool" where
  "agrees l w s \<longleftrightarrow> (\<exists>L. loops w l = Some L \<and> el_pendingFunctors L = lp_pending s \<and>
     el_callingPendingFunctors L = lp_calling s \<and> el_quit L = lp_quit s \<and>
     eventfd_count (trace w) (el_wakeupFd L) = lp_counter s)"

definition simulates :: "loop_id \<Rightarrow> 'f lp_action list \<Rightarrow> ('f, 'a) lworld_scheme \<Rightarrow> 'f lp_state
    \<Rightarrow> ('f, 'a) lworld_scheme \<Rightarrow> 'f lp_state \<Rightarrow> bool" where
  "simulates l as w s w' s' \<longleftrightarrow> agrees l w s \<and> lp_steps as s s' \<and> agrees l w' s'"

text \<open>
  C20 (clients of a loop follow the protocol). Called by another thread, \<open>queueInLoop\<close> is the push and the wake-up of the protocol, and
  \<open>quit\<close> the request and the wake-up: from a world that agrees with a protocol state in which that
  thread is idle, both succeed and lead to agreeing states, with the thread idle again.
\<close>

theorem clients_follow_protocol:
  assumes "agrees l w s" and "loops w l = Some L" and "cur_tid w \<noteq> el_threadId L"
    and "eventfd_contract os (el_wakeupFd L)" and "lp_clients s (cur_tid w) = CIdle"
  shows "(\<exists>w' s'. queueInLoop os l f w = Inr w' \<and> lp_clients s' = lp_clients s \<and>
      simulates l [ClientPush (cur_tid w) f, ClientWake (cur_tid w)] w s w' s') \<and>
    (\<exists>w' s'. quit os l w = Inr w' \<and> lp_clients s' = lp_clients s \<and>
      simulates l [ClientQuit (cur_tid w), ClientWake (cur_tid w)] w s w' s')"
proof
  let ?t = "cur_tid w"
  have idle: "(lp_clients s)(?t := CIdle) = lp_clients s" using assms(5) by auto
  let ?s = "s\<lparr>lp_pending := lp_pending s @ [f], lp_queued := lp_queued s @ [f],
      lp_counter := Suc (lp_counter s)\<rparr>"
  have "lp_steps [ClientPush ?t f, ClientWake ?t] s ?s"
    by (rule lp_steps_fold) (simp add: assms(5) lp_push_def idle)
  moreover from queueInLoop_ok [OF assms(2,4), of f] obtain w' where
      w': "queueInLoop os l f w = Inr w'"
      "loops w' = (loops w)(l \<mapsto> L\<lparr>el_pendingFunctors := el_pendingFunctors L @ [f]\<rparr>)"
      "trace w' = trace w @ [EvWrite (el_wakeupFd L) eventfd_one (Inr 8)]"
    using assms(3) by auto
  moreover have "agrees l w' ?s"
    using assms(1,2) w' by (simp add: agrees_def eventfd_count_snoc)
  ultimately show "\<exists>w' s'. queueInLoop os l f w = Inr w' \<and> lp_clients s' = lp_clients s \<and>
      simulates l [ClientPush ?t f, ClientWake ?t] w s w' s'"
    using assms(1) by (intro exI [of _ w'] exI [of _ ?s]) (simp add: simulates_def)
  let ?s = "s\<lparr>lp_quit := True, lp_asked := True, lp_counter := Suc (lp_counter s)\<rparr>"
  have steps: "lp_steps [ClientQuit ?t, ClientWake ?t] s ?s"
    by (rule lp_steps_fold) (simp add: assms(5) idle)
  let ?w = "emit (EvWrite (el_wakeupFd L) eventfd_one (Inr 8)) (put_loop l (L\<lparr>el_quit := True\<rparr>) w)"
  have "quit os l w = Inr ?w"
    using assms wakeup_ok [of "put_loop l (L\<lparr>el_quit := True\<rparr>) w" l "L\<lparr>el_quit := True\<rparr>" os]
    by (simp add: quit_def isInLoopThread_def)
  moreover have "agrees l ?w ?s"
    using assms(1,2) by (simp add: agrees_def eventfd_count_snoc)
  ultimately show "\<exists>w' s'. quit os l w = Inr w' \<and> lp_clients s' = lp_clients s \<and>
      simulates l [ClientQuit ?t, ClientWake ?t] w s w' s'"
    using assms(1) steps by (intro exI [of _ ?w] exI [of _ ?s]) (simp add: simulates_def)
qed

text \<open>A protocol state for the small world of \<open>EventLoop\<close>, its loop waiting.\<close>

definition small_state :: "nat loop_pc \<Rightarrow> nat lp_state" where
  "small_state pc = lp_init\<lparr>lp_pc := pc\<rparr>"

lemma small_agrees: "agrees 0 small_world (small_state pc)"
  by (simp add: agrees_def small_state_def lp_init_def eventfd_count_def)

theorem clients_follow_protocol_witness:
  "\<exists>w' s'. queueInLoop (eventfd_os 4) 0 5 (small_world\<lparr>cur_tid := 2\<rparr>) = Inr w' \<and>
     simulates 0 [ClientPush 2 5, ClientWake 2] (small_world\<lparr>cur_tid := 2\<rparr>) (small_state LPoll) w' s'"
proof -
  have "agrees 0 (small_world\<lparr>cur_tid := 2\<rparr>) (small_state LPoll)"
    using small_agrees [of LPoll] by (simp add: agrees_def)
  from clients_follow_protocol [OF this, of small_loop "eventfd_os 4" 5]
  show ?thesis by (auto simp: eventfd_os_contract small_state_def lp_init_def)
qed

end
