(* ===== verification/Threads.thy ===== *)
theory Threads
  imports EventLoop "HOL-Library.Multiset"
begin

text \<open>
  Threads and loops in threads: \<open>CurrentThread\<close>, \<open>Thread\<close>, \<open>EventLoopThread\<close> and
  \<open>EventLoopThreadPool\<close> under \<open>src/src\<close>. Starting a loop thread is one step of the starting
  thread (the handshake behind it is the theory \<open>LoopThread\<close>): it waits until the new thread has
  constructed its loop, run the initialisation callback and published the loop; the new thread then
  stands before \<open>loop()\<close>, whose steps are those of \<open>LoopProtocol\<close>. The identity of the new thread, its loop and the address of the loop's
  wake-up channel are arguments, the initialisation callback is the parameter \<open>init\<close>. A C++
  \<open>int\<close> is an \<open>int\<close>: the counters here stay far below its bounds.
\<close>

section \<open>The cached thread identity\<close>

text \<open>\<open>tid()\<close>: the thread-local cache (zero at first) and the answer.\<close>

definition cacheTid :: "int \<Rightarrow> int \<Rightarrow> int" where
  "cacheTid gettid t_cachedTid = (if t_cachedTid = 0 then gettid else t_cachedTid)"

definition CurrentThread_tid :: "int \<Rightarrow> int \<Rightarrow> int \<times> int" where
  "CurrentThread_tid gettid t_cachedTid =
     (let t_cachedTid = (if t_cachedTid = 0 then cacheTid gettid t_cachedTid else t_cachedTid)
      in (t_cachedTid, t_cachedTid))"

section \<open>Threads\<close>

record thread =
  th_started :: bool
  th_joined :: bool
  th_tid :: tid
  th_name :: string

text \<open>
  The default name is printed into a local buffer and dropped; only the counter changes. Both
  return the new value of the static counter.
\<close>

definition setDefaultname :: "int \<Rightarrow> thread \<Rightarrow> thread \<times> int" where
  "setDefaultname created T = (T, created + 1)"

definition Thread_ctor :: "string \<Rightarrow> int \<Rightarrow> thread \<times> int" where
  "Thread_ctor name created =
     setDefaultname created
       \<lparr>th_started = False, th_joined = False, th_tid = 0, th_name = name\<rparr>"

definition Thread_start :: "tid \<Rightarrow> thread \<Rightarrow> thread" where
  "Thread_start t T = T\<lparr>th_started := True, th_tid := t\<rparr>"

definition Thread_join :: "thread \<Rightarrow> thread" where
  "Thread_join T = T\<lparr>th_joined := True\<rparr>"

text \<open>Whether the destructor detaches the running thread.\<close>

definition Thread_dtor_detaches :: "thread \<Rightarrow> bool" where
  "Thread_dtor_detaches T \<longleftrightarrow> th_started T \<and> \<not> th_joined T"

section \<open>A loop in its own thread\<close>

record event_loop_thread =
  et_loop :: "loop_id option"
  et_exiting :: bool
  et_thread :: thread
  et_callback :: bool

definition EventLoopThread_ctor :: "bool \<Rightarrow> string \<Rightarrow> int \<Rightarrow> event_loop_thread \<times> int" where
  "EventLoopThread_ctor cb name created =
     (let (T, n) = Thread_ctor name created
      in (\<lparr>et_loop = None, et_exiting = False, et_thread = T, et_callback = cb\<rparr>, n))"

text \<open>
  \<open>threadFunc\<close> up to the call of \<open>loop()\<close>, in the new thread \<open>t\<close>, and what follows the
  return of \<open>loop()\<close>: the pointer is cleared and the loop, a local object, destroyed.
\<close>

definition threadFunc_begin ::
  "(loop_id \<Rightarrow> ('f, 'a) lworld_scheme \<Rightarrow> failure + ('f, 'a) lworld_scheme) \<Rightarrow> bool \<Rightarrow> os
     \<Rightarrow> loop_id \<Rightarrow> ptr \<Rightarrow> event_loop_thread \<Rightarrow> ('f, 'a) lworld_scheme
     \<Rightarrow> failure + (event_loop_thread \<times> ('f, 'a) lworld_scheme)" where
  "threadFunc_begin init use_poll os l p E w =
     bnd (EventLoop_ctor use_poll os l p w) (\<lambda>w.
     bnd (if et_callback E then init l w else Inr w) (\<lambda>w.
     Inr (E\<lparr>et_loop := Some l\<rparr>, w)))"

definition threadFunc_end ::
  "os \<Rightarrow> loop_id \<Rightarrow> event_loop_thread \<Rightarrow> ('f, 'a) lworld_scheme
     \<Rightarrow> failure + (event_loop_thread \<times> ('f, 'a) lworld_scheme)" where
  "threadFunc_end os l E w =
     (let E = E\<lparr>et_loop := None\<rparr> in bnd (EventLoop_dtor os l w) (\<lambda>w. Inr (E, w)))"

definition startLoop ::
  "(loop_id \<Rightarrow> ('f, 'a) lworld_scheme \<Rightarrow> failure + ('f, 'a) lworld_scheme) \<Rightarrow> bool \<Rightarrow> os
     \<Rightarrow> tid \<Rightarrow> loop_id \<Rightarrow> ptr \<Rightarrow> event_loop_thread \<Rightarrow> ('f, 'a) lworld_scheme
     \<Rightarrow> failure + (loop_id \<times> event_loop_thread \<times> ('f, 'a) lworld_scheme)" where
  "startLoop init use_poll os t l p E w =
     (let E = E\<lparr>et_thread := Thread_start t (et_thread E)\<rparr>
      in bnd (threadFunc_begin init use_poll os l p E (w\<lparr>cur_tid := t\<rparr>)) (\<lambda>(E, v).
         case et_loop E of
           None \<Rightarrow> Inl NullPointer
         | Some loop \<Rightarrow> Inr (loop, E, v\<lparr>cur_tid := cur_tid w\<rparr>)))"

text \<open>The destructor asks the loop to quit and joins; a thread whose loop is gone is not joined.\<close>

definition EventLoopThread_dtor ::
  "os \<Rightarrow> event_loop_thread \<Rightarrow> ('f, 'a) lworld_scheme
     \<Rightarrow> failure + (event_loop_thread \<times> ('f, 'a) lworld_scheme)" where
  "EventLoopThread_dtor os E w =
     (let E = E\<lparr>et_exiting := True\<rparr>
      in case et_loop E of
           None \<Rightarrow> Inr (E, w)
         | Some l \<Rightarrow>
             bnd (quit os l w) (\<lambda>w. Inr (E\<lparr>et_thread := Thread_join (et_thread E)\<rparr>, w)))"

section \<open>The pool\<close>

record thread_pool =
  tp_baseLoop :: loop_id
  tp_name :: string
  tp_started :: bool
  tp_numThreads :: int
  tp_next :: int
  tp_threads :: "event_loop_thread list"
  tp_loops :: "loop_id list"

definition EventLoopThreadPool_ctor :: "loop_id \<Rightarrow> string \<Rightarrow> thread_pool" where
  "EventLoopThreadPool_ctor baseloop nameArg =
     \<lparr>tp_baseLoop = baseloop, tp_name = nameArg, tp_started = False, tp_numThreads = 0,
      tp_next = 0, tp_threads = [], tp_loops = []\<rparr>"

definition pool_setThreadNum :: "int \<Rightarrow> thread_pool \<Rightarrow> thread_pool" where
  "pool_setThreadNum n P = P\<lparr>tp_numThreads := n\<rparr>"

text \<open>
  The loop of \<open>start\<close>, from thread \<open>i\<close> on: \<open>supply i\<close> is the new thread's identity, its
  loop and the address of the loop's wake-up channel.
\<close>

fun start_threads ::
  "(loop_id \<Rightarrow> ('f, 'a) lworld_scheme \<Rightarrow> failure + ('f, 'a) lworld_scheme) \<Rightarrow> bool \<Rightarrow> bool \<Rightarrow> os
     \<Rightarrow> (nat \<Rightarrow> tid \<times> loop_id \<times> ptr) \<Rightarrow> nat \<Rightarrow> nat \<Rightarrow> thread_pool \<Rightarrow> ('f, 'a) lworld_scheme
     \<Rightarrow> failure + (thread_pool \<times> ('f, 'a) lworld_scheme)" where
  "start_threads init cb use_poll os supply i 0 P w = Inr (P, w)"
| "start_threads init cb use_poll os supply i (Suc n) P w =
     (let buf = tp_name P @ show_nat i;
          (E, created) = EventLoopThread_ctor cb buf (numCreated w);
          (t, l, p) = supply i
      in bnd (startLoop init use_poll os t l p E (w\<lparr>numCreated := created\<rparr>)) (\<lambda>(loop, E, w).
         start_threads init cb use_poll os supply (Suc i) n
           (P\<lparr>tp_threads := tp_threads P @ [E], tp_loops := tp_loops P @ [loop]\<rparr>) w))"

definition pool_start ::
  "(loop_id \<Rightarrow> ('f, 'a) lworld_scheme \<Rightarrow> failure + ('f, 'a) lworld_scheme) \<Rightarrow> bool \<Rightarrow> bool \<Rightarrow> os
     \<Rightarrow> (nat \<Rightarrow> tid \<times> loop_id \<times> ptr) \<Rightarrow> thread_pool \<Rightarrow> ('f, 'a) lworld_scheme
     \<Rightarrow> failure + (thread_pool \<times> ('f, 'a) lworld_scheme)" where
  "pool_start init cb use_poll os supply P w =
     bnd (start_threads init cb use_poll os supply 0 (nat (tp_numThreads P))
            (P\<lparr>tp_started := True\<rparr>) w) (\<lambda>(P, w).
     if tp_numThreads P = 0 \<and> cb
     then bnd (init (tp_baseLoop P) w) (\<lambda>w. Inr (P, w))
     else Inr (P, w))"

text \<open>The index is checked as the vector does not: outside it the access is undefined.\<close>

definition getNextLoop :: "thread_pool \<Rightarrow> failure + (loop_id \<times> thread_pool)" where
  "getNextLoop P =
     (if tp_loops P \<noteq> []
      then
        (if 0 \<le> tp_next P \<and> tp_next P < int (length (tp_loops P))
         then
           (let loop = tp_loops P ! nat (tp_next P);
                next = tp_next P + 1
            in Inr (loop, P\<lparr>tp_next := (if next \<ge> int (length (tp_loops P)) then 0 else next)\<rparr>))
         else Inl OutOfBounds)
      else Inr (tp_baseLoop P, P))"

definition getAllLoops :: "thread_pool \<Rightarrow> loop_id list" where
  "getAllLoops P = (if tp_loops P = [] then [tp_baseLoop P] else tp_loops P)"

text \<open>The answers of a number of calls in a row.\<close>

fun next_loops :: "nat \<Rightarrow> thread_pool \<Rightarrow> failure + (loop_id list \<times> thread_pool)" where
  "next_loops 0 P = Inr ([], P)"
| "next_loops (Suc k) P =
     bnd (getNextLoop P) (\<lambda>(l, P). bnd (next_loops k P) (\<lambda>(ls, P). Inr (l # ls, P)))"

definition pool_inv :: "thread_pool \<Rightarrow> bool" where
  "pool_inv P \<longleftrightarrow> (tp_loops P = [] \<and> tp_next P = 0) \<or>
     (0 \<le> tp_next P \<and> tp_next P < int (length (tp_loops P)))"

lemma pool_ctor_inv: "pool_inv (EventLoopThreadPool_ctor l n)"
  by (simp add: pool_inv_def EventLoopThreadPool_ctor_def)

lemma advance:
  assumes "0 \<le> i" and "i < n"
  shows "(if n \<le> i + 1 then 0 else i + 1) = (i + 1) mod (n :: int)"
  using assms by (cases "i + 1 = n") auto

text \<open>The next loop and the state after it, as arithmetic modulo the number of loops.\<close>

definition turn :: "thread_pool \<Rightarrow> nat \<Rightarrow> loop_id" where
  "turn P i = getAllLoops P ! nat ((tp_next P + int i) mod int (length (getAllLoops P)))"

definition turned :: "nat \<Rightarrow> thread_pool \<Rightarrow> thread_pool" where
  "turned k P = P\<lparr>tp_next := (tp_next P + int k) mod int (length (getAllLoops P))\<rparr>"

lemma getAllLoops_turned [simp]: "getAllLoops (turned k P) = getAllLoops P"
  by (simp add: turned_def getAllLoops_def)

lemma getNextLoop_turn: "pool_inv P \<Longrightarrow> getNextLoop P = Inr (turn P 0, turned 1 P)"
  using advance [of "tp_next P" "int (length (tp_loops P))"]
  by (auto simp: pool_inv_def getNextLoop_def getAllLoops_def turn_def turned_def Let_def)

lemma pool_inv_turned: "pool_inv P \<Longrightarrow> pool_inv (turned k P)"
  by (auto simp: pool_inv_def turned_def getAllLoops_def)

lemma mod_shift: "((a + 1) mod n + int i) mod n = (a + int (Suc i)) mod (n :: int)"
proof -
  have "((a + 1) mod n + int i) mod n = (a + 1 + int i) mod n" by (rule mod_add_left_eq)
  also have "a + 1 + int i = a + int (Suc i)" by simp
  finally show ?thesis .
qed

lemma turn_turned: "turn (turned 1 P) = (\<lambda>i. turn P (Suc i))"
proof
  fix i
  show "turn (turned 1 P) i = turn P (Suc i)"
    using mod_shift [of "tp_next P" "int (length (getAllLoops P))" i]
    by (simp only: turn_def getAllLoops_turned) (simp add: turned_def)
qed

lemma turned_turned: "turned k (turned 1 P) = turned (Suc k) P"
  using mod_shift [of "tp_next P" "int (length (getAllLoops P))" k]
  by (subst turned_def, simp only: getAllLoops_turned) (simp add: turned_def)

lemma next_loops_eq:
  "pool_inv P \<Longrightarrow> next_loops k P = Inr (map (turn P) [0..<k], turned k P)"
proof (induction k arbitrary: P)
  case 0
  then have "turned 0 P = P" by (auto simp: turned_def pool_inv_def getAllLoops_def)
  then show ?case by simp
next
  case (Suc k)
  have "map (turn P) [0..<Suc k] = turn P 0 # map (turn (turned 1 P)) [0..<k]"
    by (simp only: upt_conv_Cons [OF zero_less_Suc] map_Suc_upt [symmetric] list.map map_map
        comp_def turn_turned)
  with Suc.IH [OF pool_inv_turned [OF Suc.prems, of 1]] show ?case
    by (simp only: next_loops.simps getNextLoop_turn [OF Suc.prems] bnd_Inr prod.case turned_turned)
qed

lemma mset_rotate: "mset (rotate n xs) = mset xs"
proof (induction n)
  case (Suc n)
  have "mset (rotate1 ys) = mset ys" for ys :: "'a list" by (cases ys) simp_all
  with Suc show ?case by (simp add: rotate_def)
qed simp

lemma one_turn:
  assumes "pool_inv P"
  shows "map (turn P) [0..<length (getAllLoops P)] = rotate (nat (tp_next P)) (getAllLoops P)"
proof (rule nth_equalityI)
  fix i
  assume "i < length (map (turn P) [0..<length (getAllLoops P)])"
  then have i: "i < length (getAllLoops P)" by simp
  from assms have "0 \<le> tp_next P" by (auto simp: pool_inv_def)
  then have "nat ((tp_next P + int i) mod int (length (getAllLoops P))) =
      (nat (tp_next P) + i) mod length (getAllLoops P)"
    by (simp add: nat_mod_distrib nat_add_distrib)
  with i show "map (turn P) [0..<length (getAllLoops P)] ! i =
      rotate (nat (tp_next P)) (getAllLoops P) ! i"
    by (simp add: turn_def nth_rotate)
qed simp

lemma start_threads_Inr:
  "start_threads init cb use_poll os supply i n P w = Inr (P', w') \<Longrightarrow>
     tp_loops P' = tp_loops P @ map (\<lambda>j. fst (snd (supply j))) [i..<i + n] \<and>
     map (\<lambda>E. th_name (et_thread E)) (tp_threads P') =
       map (\<lambda>E. th_name (et_thread E)) (tp_threads P) @ map (\<lambda>j. tp_name P @ show_nat j) [i..<i + n] \<and>
     map et_loop (tp_threads P') = map et_loop (tp_threads P) @
       map (\<lambda>j. Some (fst (snd (supply j)))) [i..<i + n] \<and>
     tp_next P' = tp_next P \<and> tp_baseLoop P' = tp_baseLoop P \<and> tp_started P' = tp_started P \<and>
     tp_numThreads P' = tp_numThreads P"
proof (induction n arbitrary: i P w)
  case 0
  then show ?case by simp
next
  case (Suc n)
  obtain t l p where sup: "supply i = (t, l, p)" by (cases "supply i")
  let ?E = "\<lparr>et_loop = Some l, et_exiting = False,
      et_thread = \<lparr>th_started = True, th_joined = False, th_tid = t,
        th_name = tp_name P @ show_nat i\<rparr>, et_callback = cb\<rparr>"
  from Suc.prems sup obtain v where
      rest: "start_threads init cb use_poll os supply (Suc i) n
        (P\<lparr>tp_threads := tp_threads P @ [?E], tp_loops := tp_loops P @ [l]\<rparr>) v = Inr (P', w')"
    by (auto simp: startLoop_def threadFunc_begin_def EventLoopThread_ctor_def Thread_ctor_def
        setDefaultname_def Thread_start_def Let_def)
  have "[i..<i + Suc n] = i # [Suc i..<Suc i + n]" by (simp add: upt_rec)
  with Suc.IH [OF rest] sup show ?case by simp
qed

section \<open>Properties\<close>

text \<open>
  C32 (connections are dealt out in turn). Once threads are started, or with none, every call of \<open>getNextLoop\<close> succeeds,
  and stays inside the vector; successive calls go through the loops in order, starting over at the
  end; and as many calls in a row as there are loops return each loop exactly once. Without
  threads the answer is always the base loop.
\<close>

theorem getNextLoop_round_robin:
  assumes "pool_inv P"
  shows "next_loops k P = Inr (map (turn P) [0..<k], turned k P) \<and> pool_inv (turned k P) \<and>
    (\<exists>ls Q. next_loops (length (getAllLoops P)) P = Inr (ls, Q) \<and>
       ls = rotate (nat (tp_next P)) (getAllLoops P) \<and> mset ls = mset (getAllLoops P)) \<and>
    (if tp_loops P = [] then turn P k = tp_baseLoop P else turn P k \<in> set (tp_loops P))"
proof -
  have "nat ((tp_next P + int k) mod int (length (tp_loops P))) < length (tp_loops P)"
    if "tp_loops P \<noteq> []"
    using that by (simp add: nat_less_iff)
  then have "if tp_loops P = [] then turn P k = tp_baseLoop P else turn P k \<in> set (tp_loops P)"
    using assms by (auto simp: turn_def getAllLoops_def)
  then show ?thesis
    using next_loops_eq [OF assms] pool_inv_turned [OF assms] one_turn [OF assms]
    by (simp add: mset_rotate)
qed

theorem getNextLoop_round_robin_witness:
  "next_loops 4 ((EventLoopThreadPool_ctor 0 ''pool'')\<lparr>tp_loops := [5, 6, 8]\<rparr>) =
     Inr ([5, 6, 8, 5], turned 4 ((EventLoopThreadPool_ctor 0 ''pool'')\<lparr>tp_loops := [5, 6, 8]\<rparr>))"
proof -
  let ?P = "(EventLoopThreadPool_ctor 0 ''pool'')\<lparr>tp_loops := [5, 6, 8]\<rparr>"
  have "pool_inv ?P" by (simp add: pool_inv_def EventLoopThreadPool_ctor_def)
  moreover have "map (turn ?P) [0..<4] = [5, 6, 8, 5]"
    by (simp add: turn_def getAllLoops_def EventLoopThreadPool_ctor_def upt_rec)
  ultimately show ?thesis using getNextLoop_round_robin [of ?P 4] by simp
qed

text \<open>
  A started pool. When \<open>start\<close> succeeds on a fresh pool, there is one thread and one loop per requested
  thread, in order, each thread named after the pool and its number and having published its loop,
  and \<open>getNextLoop\<close> may be called. A thread constructed without a name stays nameless: the
  default name is built and dropped.
\<close>

theorem pool_started:
  assumes "pool_start init cb use_poll os supply
      (pool_setThreadNum n (EventLoopThreadPool_ctor l name)) w = Inr (P, w')"
  shows "tp_loops P = map (\<lambda>j. fst (snd (supply j))) [0..<nat n] \<and>
    map (\<lambda>E. th_name (et_thread E)) (tp_threads P) = map (\<lambda>j. name @ show_nat j) [0..<nat n] \<and>
    map et_loop (tp_threads P) = map Some (tp_loops P) \<and>
    tp_started P \<and> pool_inv P \<and> th_name (fst (Thread_ctor [] m)) = []"
proof -
  let ?P = "(pool_setThreadNum n (EventLoopThreadPool_ctor l name))\<lparr>tp_started := True\<rparr>"
  from assms obtain v where
    "start_threads init cb use_poll os supply 0 (nat n) ?P w = Inr (P, v)"
    by (auto simp: pool_start_def pool_setThreadNum_def split: if_splits)
  from start_threads_Inr [OF this] show ?thesis
    by (auto simp: EventLoopThreadPool_ctor_def pool_setThreadNum_def pool_inv_def Thread_ctor_def
        setDefaultname_def o_def)
qed

theorem pool_started_witness:
  "\<exists>P w'. pool_start (\<lambda>l w. Inr w) False False demo_os (\<lambda>j. (5, 3, 24))
       (pool_setThreadNum 1 (EventLoopThreadPool_ctor 0 ''io'')) empty_world = Inr (P, w') \<and>
     tp_loops P = [3]"
proof -
  let ?w = "empty_world\<lparr>numCreated := 1, cur_tid := 5\<rparr>"
  have "\<exists>w'. EventLoop_ctor False demo_os 3 24 ?w = Inr w'"
    using EventLoop_ctor_ok [OF demo_os_epoll_ctl, of ?w 3 3 4 24]
    by (auto simp: demo_os_def empty_world_def)
  then obtain P w' where run: "pool_start (\<lambda>l w. Inr w) False False demo_os (\<lambda>j. (5, 3, 24))
       (pool_setThreadNum 1 (EventLoopThreadPool_ctor 0 ''io'')) empty_world = Inr (P, w')"
    by (auto simp: pool_start_def startLoop_def threadFunc_begin_def pool_setThreadNum_def
        EventLoopThreadPool_ctor_def EventLoopThread_ctor_def Thread_ctor_def setDefaultname_def
        empty_world_def Let_def)
  from pool_started [OF run] run show ?thesis by auto
qed

text \<open>
  Destroying a loop thread too early hangs. The destructor of a loop thread that has published its loop but not yet entered \<open>loop()\<close>
  sets the flag, raises the wake-up and joins; \<open>loop()\<close> then forgets the request. If nothing
  else ends the loop, it never returns, and the join never ends.
\<close>

theorem early_dtor_hangs:
  assumes "et_loop E = Some l" and "loops w l = Some L" and "cur_tid w \<noteq> el_threadId L"
    and "eventfd_contract os (el_wakeupFd L)"
    and "\<forall>v v'. running l v \<longrightarrow> body v = Inr v' \<longrightarrow> running l v'"
  shows "\<exists>E' w'. EventLoopThread_dtor os E w = Inr (E', w') \<and> th_joined (et_thread E') \<and>
    stopped l w' \<and> (\<forall>w''. EventLoop_loop body l (w'\<lparr>cur_tid := el_threadId L\<rparr>) \<noteq> Some (Inr w''))"
proof -
  let ?w = "emit (EvWrite (el_wakeupFd L) eventfd_one (Inr 8)) (put_loop l (L\<lparr>el_quit := True\<rparr>) w)"
  have "quit os l w = Inr ?w"
    using assms(2-4) wakeup_ok [of "put_loop l (L\<lparr>el_quit := True\<rparr>) w" l "L\<lparr>el_quit := True\<rparr>" os]
    by (simp add: quit_def isInLoopThread_def)
  moreover have "EventLoop_loop body l (?w\<lparr>cur_tid := el_threadId L\<rparr>) \<noteq> Some (Inr w'')" for w''
  proof
    assume "EventLoop_loop body l (?w\<lparr>cur_tid := el_threadId L\<rparr>) = Some (Inr w'')"
    then obtain K n v where
        n: "after_rounds body l (Suc n) (put_loop l (K\<lparr>el_looping := True, el_quit := False\<rparr>)
          (?w\<lparr>cur_tid := el_threadId L\<rparr>)) v"
      by (auto simp: loop_returns)
    let ?v = "put_loop l (K\<lparr>el_looping := True, el_quit := False\<rparr>) (?w\<lparr>cur_tid := el_threadId L\<rparr>)"
    from n have "run (replicate (Suc n) body) ?v = Inr v" by (simp add: after_rounds_def)
    then have "running l v"
    proof (rule run_invariant)
      show "running l ?v" by (simp add: running_def)
    qed (use assms(5) in auto)
    with n show False by (auto simp: after_rounds_def stopped_def running_def)
  qed
  ultimately show ?thesis
    using assms(1) by (simp add: EventLoopThread_dtor_def Thread_join_def Let_def stopped_def)
qed

theorem early_dtor_hangs_witness:
  "\<exists>E' w'. EventLoopThread_dtor (eventfd_os 4) ((fst (EventLoopThread_ctor False ''io'' 0))
         \<lparr>et_loop := Some 0\<rparr>) (small_world\<lparr>cur_tid := 2\<rparr>) = Inr (E', w') \<and>
     th_joined (et_thread E') \<and> (\<forall>w''. EventLoop_loop Inr 0 (w'\<lparr>cur_tid := 1\<rparr>) \<noteq> Some (Inr w''))"
  using early_dtor_hangs [of "(fst (EventLoopThread_ctor False ''io'' 0))\<lparr>et_loop := Some 0\<rparr>" 0
      "small_world\<lparr>cur_tid := 2\<rparr>" small_loop "eventfd_os 4" Inr]
  by (auto simp: eventfd_os_contract)

end
