(* ===== verification/LoopThread.thy ===== *)
theory LoopThread
  imports Threads Interleaving
begin

text \<open>
  The thread that starts a loop thread and later destroys it, and the new thread, as an interleaving
  of the atomic steps of \<open>Thread::start\<close>, \<open>EventLoopThread::startLoop\<close>,
  \<open>threadFunc\<close> and \<open>~EventLoopThread\<close> (\<open>src/src/Thread.cc\<close>,
  \<open>EventLoopThread.cc\<close>): the semaphore, the mutex, the condition variable with its spurious
  wake-ups, and the pointer \<open>loop_\<close> that the destructor reads without the mutex. The operations
  of the two threads on the world are those of the model; a round of the new loop is one step.
\<close>

section \<open>States and steps\<close>

text \<open>The starting thread: in \<open>start\<close>, in \<open>startLoop\<close>, after it, in the destructor.\<close>

datatype starter_pc =
    SIdle
  | SWaitTid
  | SLock
  | SCheck
  | SWaiting
  | SWoken
  | SRead
  | SReturned loop_id
  | STest
  | SQuit
  | SJoin
  | SGone
  | SCrashed failure

text \<open>The new thread: the lambda of \<open>start\<close>, \<open>threadFunc\<close> up to \<open>loop()\<close>, and after.\<close>

datatype child_pc =
    TAbsent
  | TSetTid
  | TPost
  | TCtor
  | TInit
  | TLock
  | TPublish
  | TNotify
  | TUnlock
  | TEnter
  | TLoop
  | TRelock
  | TClear
  | TRelease
  | TDestroy
  | TEnded
  | TDied failure

datatype party = Starter | Child

text \<open>What the thread is given: the callbacks, the kernel, its identity, and a round of its loop.\<close>

record ('f, 'a) thread_env =
  te_init :: "loop_id \<Rightarrow> ('f, 'a) lworld_scheme \<Rightarrow> failure + ('f, 'a) lworld_scheme"
  te_use_poll :: bool
  te_os :: os
  te_tid :: tid
  te_loop :: loop_id
  te_channel :: ptr
  te_body :: "('f, 'a) lworld_scheme \<Rightarrow> failure + ('f, 'a) lworld_scheme"

record ('f, 'a) lt_state =
  lt_starter :: starter_pc
  lt_child :: child_pc
  lt_sem :: nat
  lt_mutex :: "party option"
  lt_object :: event_loop_thread
  lt_world :: "('f, 'a) lworld_scheme"

datatype lt_action =
    Start
  | SetTid
  | Post
  | SemWait
  | Ctor
  | Init
  | ChildLock
  | Publish
  | Notify
  | ChildUnlock
  | StarterLock
  | CheckLoop
  | ReadLoop
  | Spurious
  | EnterLoop
  | Round
  | LeaveLoop
  | ChildRelock
  | ClearLoop
  | ChildRelease
  | DestroyLoop
  | Dtor
  | TestLoop
  | QuitLoop
  | Join

text \<open>An operation of the new thread on the world, between two steps of the other.\<close>

definition in_thread ::
  "tid \<Rightarrow> (('f, 'a) lworld_scheme \<Rightarrow> failure + ('f, 'a) lworld_scheme)
     \<Rightarrow> ('f, 'a) lworld_scheme \<Rightarrow> failure + ('f, 'a) lworld_scheme" where
  "in_thread t f w = bnd (f (w\<lparr>cur_tid := t\<rparr>)) (\<lambda>v. Inr (v\<lparr>cur_tid := cur_tid w\<rparr>))"

definition child_does ::
  "child_pc \<Rightarrow> failure + ('f, 'a) lworld_scheme \<Rightarrow> ('f, 'a) lt_state \<Rightarrow> ('f, 'a) lt_state" where
  "child_does pc r s =
     (case r of Inl e \<Rightarrow> s\<lparr>lt_child := TDied e\<rparr> | Inr w \<Rightarrow> s\<lparr>lt_child := pc, lt_world := w\<rparr>)"

definition looping :: "loop_id \<Rightarrow> ('f, 'a) lworld_scheme \<Rightarrow> bool option" where
  "looping l w = map_option (\<lambda>L. \<not> el_quit L) (loops w l)"

fun lt_exec ::
  "('f, 'a) thread_env \<Rightarrow> lt_action \<Rightarrow> ('f, 'a) lt_state \<Rightarrow> ('f, 'a) lt_state option" where
  "lt_exec v Start s =
     (if lt_starter s = SIdle \<and> lt_child s = TAbsent
      then Some (s\<lparr>lt_starter := SWaitTid, lt_child := TSetTid, lt_sem := 0, lt_object :=
        (lt_object s)\<lparr>et_thread := (et_thread (lt_object s))\<lparr>th_started := True\<rparr>\<rparr>\<rparr>)
      else None)"
| "lt_exec v SetTid s =
     (if lt_child s = TSetTid
      then Some (s\<lparr>lt_child := TPost, lt_object :=
        (lt_object s)\<lparr>et_thread := (et_thread (lt_object s))\<lparr>th_tid := te_tid v\<rparr>\<rparr>\<rparr>)
      else None)"
| "lt_exec v Post s =
     (if lt_child s = TPost then Some (s\<lparr>lt_child := TCtor, lt_sem := Suc (lt_sem s)\<rparr>) else None)"
| "lt_exec v SemWait s =
     (if lt_starter s = SWaitTid \<and> 0 < lt_sem s
      then Some (s\<lparr>lt_starter := SLock, lt_sem := lt_sem s - 1\<rparr>) else None)"
| "lt_exec v Ctor s =
     (if lt_child s = TCtor
      then Some (child_does TInit (in_thread (te_tid v)
        (EventLoop_ctor (te_use_poll v) (te_os v) (te_loop v) (te_channel v)) (lt_world s)) s)
      else None)"
| "lt_exec v Init s =
     (if lt_child s = TInit
      then Some (child_does TLock (in_thread (te_tid v)
        (if et_callback (lt_object s) then te_init v (te_loop v) else Inr) (lt_world s)) s)
      else None)"
| "lt_exec v ChildLock s =
     (if lt_child s = TLock \<and> lt_mutex s = None
      then Some (s\<lparr>lt_child := TPublish, lt_mutex := Some Child\<rparr>) else None)"
| "lt_exec v Publish s =
     (if lt_child s = TPublish
      then Some (s\<lparr>lt_child := TNotify, lt_object := (lt_object s)\<lparr>et_loop := Some (te_loop v)\<rparr>\<rparr>)
      else None)"
| "lt_exec v Notify s =
     (if lt_child s = TNotify
      then Some (s\<lparr>lt_child := TUnlock,
        lt_starter := (if lt_starter s = SWaiting then SWoken else lt_starter s)\<rparr>)
      else None)"
| "lt_exec v ChildUnlock s =
     (if lt_child s = TUnlock then Some (s\<lparr>lt_child := TEnter, lt_mutex := None\<rparr>) else None)"
| "lt_exec v StarterLock s =
     (if lt_starter s \<in> {SLock, SWoken} \<and> lt_mutex s = None
      then Some (s\<lparr>lt_starter := SCheck, lt_mutex := Some Starter\<rparr>) else None)"
| "lt_exec v CheckLoop s =
     (if lt_starter s = SCheck
      then (if et_loop (lt_object s) = None
            then Some (s\<lparr>lt_starter := SWaiting, lt_mutex := None\<rparr>)
            else Some (s\<lparr>lt_starter := SRead\<rparr>))
      else None)"
| "lt_exec v ReadLoop s =
     (case (lt_starter s, et_loop (lt_object s)) of
        (SRead, Some l) \<Rightarrow> Some (s\<lparr>lt_starter := SReturned l, lt_mutex := None\<rparr>)
      | _ \<Rightarrow> None)"
| "lt_exec v Spurious s =
     (if lt_starter s = SWaiting then Some (s\<lparr>lt_starter := SWoken\<rparr>) else None)"
| "lt_exec v EnterLoop s =
     (if lt_child s = TEnter
      then Some (child_does TLoop (in_thread (te_tid v)
        (upd_loop (te_loop v) (\<lambda>L. L\<lparr>el_looping := True, el_quit := False\<rparr>)) (lt_world s)) s)
      else None)"
| "lt_exec v Round s =
     (if lt_child s = TLoop \<and> looping (te_loop v) (lt_world s) = Some True
      then Some (child_does TLoop (in_thread (te_tid v) (te_body v) (lt_world s)) s) else None)"
| "lt_exec v LeaveLoop s =
     (if lt_child s = TLoop \<and> looping (te_loop v) (lt_world s) \<noteq> Some True
      then Some (child_does TRelock (in_thread (te_tid v)
        (upd_loop (te_loop v) (\<lambda>L. L\<lparr>el_looping := False\<rparr>)) (lt_world s)) s)
      else None)"
| "lt_exec v ChildRelock s =
     (if lt_child s = TRelock \<and> lt_mutex s = None
      then Some (s\<lparr>lt_child := TClear, lt_mutex := Some Child\<rparr>) else None)"
| "lt_exec v ClearLoop s =
     (if lt_child s = TClear
      then Some (s\<lparr>lt_child := TRelease, lt_object := (lt_object s)\<lparr>et_loop := None\<rparr>\<rparr>) else None)"
| "lt_exec v ChildRelease s =
     (if lt_child s = TRelease then Some (s\<lparr>lt_child := TDestroy, lt_mutex := None\<rparr>) else None)"
| "lt_exec v DestroyLoop s =
     (if lt_child s = TDestroy
      then Some (child_does TEnded (in_thread (te_tid v) (EventLoop_dtor (te_os v) (te_loop v))
        (lt_world s)) s)
      else None)"
| "lt_exec v Dtor s =
     (case lt_starter s of
        SReturned l \<Rightarrow>
          Some (s\<lparr>lt_starter := STest, lt_object := (lt_object s)\<lparr>et_exiting := True\<rparr>\<rparr>)
      | _ \<Rightarrow> None)"
| "lt_exec v TestLoop s =
     (if lt_starter s = STest
      then Some (s\<lparr>lt_starter := (if et_loop (lt_object s) = None then SGone else SQuit)\<rparr>) else None)"
| "lt_exec v QuitLoop s =
     (if lt_starter s = SQuit
      then (case et_loop (lt_object s) of
              None \<Rightarrow> Some (s\<lparr>lt_starter := SCrashed NullPointer\<rparr>)
            | Some l \<Rightarrow>
                (case quit (te_os v) l (lt_world s) of
                   Inl e \<Rightarrow> Some (s\<lparr>lt_starter := SCrashed e\<rparr>)
                 | Inr w \<Rightarrow> Some (s\<lparr>lt_starter := SJoin, lt_world := w, lt_object :=
                     (lt_object s)\<lparr>et_thread := Thread_join (et_thread (lt_object s))\<rparr>\<rparr>)))
      else None)"
| "lt_exec v Join s =
     (if lt_starter s = SJoin \<and> lt_child s = TEnded then Some (s\<lparr>lt_starter := SGone\<rparr>) else None)"

primrec lt_run ::
  "('f, 'a) thread_env \<Rightarrow> lt_action list \<Rightarrow> ('f, 'a) lt_state \<Rightarrow> ('f, 'a) lt_state option" where
  "lt_run v [] s = Some s"
| "lt_run v (a # as) s = Option.bind (lt_exec v a s) (lt_run v as)"

definition lt_init ::
  "event_loop_thread \<Rightarrow> ('f, 'a) lworld_scheme \<Rightarrow> ('f, 'a) lt_state" where
  "lt_init E w = \<lparr>lt_starter = SIdle, lt_child = TAbsent, lt_sem = 0, lt_mutex = None,
     lt_object = E, lt_world = w\<rparr>"

interpretation lt: step_system "lt_exec v" "lt_run v" for v
  by unfold_locales simp_all

section \<open>What every interleaving keeps\<close>

fun child_holds :: "child_pc \<Rightarrow> bool" where
  "child_holds TPublish = True"
| "child_holds TNotify = True"
| "child_holds TUnlock = True"
| "child_holds TClear = True"
| "child_holds TRelease = True"
| "child_holds _ = False"

fun starter_holds :: "starter_pc \<Rightarrow> bool" where
  "starter_holds SCheck = True"
| "starter_holds SRead = True"
| "starter_holds _ = False"

text \<open>The pointer is set from \<open>TNotify\<close> to \<open>TClear\<close>, with the new thread alive.\<close>

fun published :: "child_pc \<Rightarrow> bool" where
  "published TNotify = True"
| "published TUnlock = True"
| "published TEnter = True"
| "published TLoop = True"
| "published TRelock = True"
| "published TClear = True"
| "published _ = False"

text \<open>Where the new thread can be once \<open>startLoop\<close> has returned.\<close>

fun settled :: "child_pc \<Rightarrow> bool" where
  "settled TEnter = True"
| "settled TLoop = True"
| "settled TRelock = True"
| "settled TClear = True"
| "settled TRelease = True"
| "settled TDestroy = True"
| "settled TEnded = True"
| "settled _ = False"

fun has_tid :: "child_pc \<Rightarrow> bool" where
  "has_tid TAbsent = False"
| "has_tid TSetTid = False"
| "has_tid _ = True"

fun posted :: "child_pc \<Rightarrow> bool" where
  "posted TAbsent = False"
| "posted TSetTid = False"
| "posted TPost = False"
| "posted _ = True"

text \<open>What the pointer and the semaphore hold.\<close>

definition pointer :: "loop_id \<Rightarrow> child_pc \<Rightarrow> loop_id option" where
  "pointer l pc = (if published pc then Some l else None)"

definition tokens :: "child_pc \<Rightarrow> nat" where
  "tokens pc = (if posted pc then 1 else 0)"

lemma pointer_simps [simp]:
  "pointer l pc = None \<longleftrightarrow> \<not> published pc" "pointer l pc = Some k \<longleftrightarrow> published pc \<and> k = l"
  "published pc \<Longrightarrow> pointer l pc = Some l" "\<not> published pc \<Longrightarrow> pointer l pc = None"
  "0 < tokens pc \<longleftrightarrow> posted pc" "posted pc \<Longrightarrow> tokens pc = 1" "\<not> posted pc \<Longrightarrow> tokens pc = 0"
  by (auto simp: pointer_def tokens_def)

fun in_start :: "starter_pc \<Rightarrow> bool" where
  "in_start SIdle = True"
| "in_start SWaitTid = True"
| "in_start _ = False"

text \<open>Before \<open>startLoop\<close> has returned, and after.\<close>

fun has_returned :: "starter_pc \<Rightarrow> bool" where
  "has_returned (SReturned l) = True"
| "has_returned STest = True"
| "has_returned SQuit = True"
| "has_returned SJoin = True"
| "has_returned SGone = True"
| "has_returned (SCrashed e) = True"
| "has_returned _ = False"

lemma published_settled: "published pc \<Longrightarrow> \<not> child_holds pc \<Longrightarrow> settled pc"
  by (cases pc) simp_all

lemma published_posted: "published pc \<Longrightarrow> posted pc"
  by (cases pc) simp_all

text \<open>
  A starter asleep on the condition either still has its wake-up before it, or the pointer is
  not set (any more).
\<close>

definition lt_live :: "('f, 'a) lt_state \<Rightarrow> bool" where
  "lt_live s \<longleftrightarrow> (\<forall>e. lt_child s \<noteq> TDied e)"

definition lt_inv :: "('f, 'a) thread_env \<Rightarrow> ('f, 'a) lt_state \<Rightarrow> bool" where
  "lt_inv v s \<longleftrightarrow>
     (lt_mutex s = Some Child \<longleftrightarrow> child_holds (lt_child s)) \<and>
     (lt_mutex s = Some Starter \<longleftrightarrow> starter_holds (lt_starter s)) \<and>
     et_loop (lt_object s) = pointer (te_loop v) (lt_child s) \<and>
     (lt_starter s = SIdle \<longleftrightarrow> lt_child s = TAbsent) \<and>
     (\<not> in_start (lt_starter s) \<longrightarrow> posted (lt_child s)) \<and>
     (lt_starter s = SWaitTid \<longrightarrow> lt_sem s = tokens (lt_child s)) \<and>
     (lt_starter s = SWaiting \<longrightarrow> published (lt_child s) \<longrightarrow> lt_child s = TNotify) \<and>
     (lt_starter s = SRead \<longrightarrow> published (lt_child s)) \<and>
     (has_returned (lt_starter s) \<longrightarrow> settled (lt_child s)) \<and>
     (\<forall>l. lt_starter s = SReturned l \<longrightarrow> l = te_loop v) \<and>
     (has_tid (lt_child s) \<longrightarrow> th_tid (et_thread (lt_object s)) = te_tid v)"

lemma child_does_split:
  "P (child_does pc r s) \<longleftrightarrow> (\<forall>e. r = Inl e \<longrightarrow> P (s\<lparr>lt_child := TDied e\<rparr>)) \<and>
     (\<forall>w. r = Inr w \<longrightarrow> P (s\<lparr>lt_child := pc, lt_world := w\<rparr>))"
  by (simp add: child_does_def split: sum.split)

lemma child_does_live: "lt_live (child_does pc r s) \<Longrightarrow> \<exists>w. r = Inr w"
  by (cases r) (simp_all add: child_does_def lt_live_def)

lemma lt_live_back: "lt_exec v a s = Some s' \<Longrightarrow> lt_live s' \<Longrightarrow> lt_live s"
  by (cases a) (auto simp: lt_live_def split: if_split_asm option.split_asm starter_pc.split_asm sum.split_asm)

lemma lt_inv_step: "lt_exec v a s = Some s' \<Longrightarrow> lt_inv v s \<Longrightarrow> lt_live s' \<Longrightarrow> lt_inv v s'"
  by (cases a; clarsimp simp: lt_inv_def Thread_join_def child_does_def published_settled
      published_posted lt_live_def
      split: if_split_asm option.split_asm starter_pc.split_asm sum.split_asm; (elim disjE)?; simp?)

lemma lt_inv_init: "et_loop E = None \<Longrightarrow> lt_inv v (lt_init E w)"
  by (simp add: lt_inv_def lt_init_def)

lemma lt_inv_run:
  assumes "lt_run v as (lt_init E w) = Some s" and "et_loop E = None" and "lt_live s"
  shows "lt_inv v s"
proof -
  have "lt_live s \<longrightarrow> lt_inv v s"
    by (rule lt.invariant [where P = "\<lambda>s. lt_live s \<longrightarrow> lt_inv v s", OF _ assms(1)])
      (auto intro: lt_inv_step lt_inv_init [OF assms(2)] dest: lt_live_back)
  with assms(3) show ?thesis by simp
qed

section \<open>The start as one step\<close>

text \<open>The steps of \<open>start\<close>, \<open>startLoop\<close> and of \<open>threadFunc\<close> up to \<open>loop()\<close>.\<close>

fun startup :: "lt_action \<Rightarrow> bool" where
  "startup EnterLoop = False"
| "startup Round = False"
| "startup LeaveLoop = False"
| "startup ChildRelock = False"
| "startup ClearLoop = False"
| "startup ChildRelease = False"
| "startup DestroyLoop = False"
| "startup Dtor = False"
| "startup TestLoop = False"
| "startup QuitLoop = False"
| "startup Join = False"
| "startup _ = True"

definition begun ::
  "('f, 'a) thread_env \<Rightarrow> event_loop_thread \<Rightarrow> ('f, 'a) lworld_scheme
     \<Rightarrow> failure + ('f, 'a) lworld_scheme" where
  "begun v E w =
     bnd (in_thread (te_tid v)
            (EventLoop_ctor (te_use_poll v) (te_os v) (te_loop v) (te_channel v)) w)
       (in_thread (te_tid v) (if et_callback E then te_init v (te_loop v) else Inr))"

definition started_object :: "('f, 'a) thread_env \<Rightarrow> event_loop_thread \<Rightarrow> event_loop_thread" where
  "started_object v E = E\<lparr>et_thread := Thread_start (te_tid v) (et_thread E)\<rparr>"

lemma started_object_simps [simp]:
  "et_callback (started_object v E) = et_callback E" "et_loop (started_object v E) = et_loop E"
  by (simp_all add: started_object_def)

lemma EventLoop_ctor_tid: "EventLoop_ctor use_poll os l p w = Inr w' \<Longrightarrow> cur_tid w' = cur_tid w"
proof -
  assume "EventLoop_ctor use_poll os l p w = Inr w'"
  then obtain u where "enableReading os p u = Inr w'" and u: "cur_tid u = cur_tid w"
    by (auto simp: EventLoop_ctor_def newDefaultPoller_def EPollPoller_ctor_def createEventfd_def
        sys_epoll_create_def sys_eventfd_def Let_def split: sum.splits if_split_asm)
  then show "cur_tid w' = cur_tid w" by (auto elim: Channel_interest_frame simp: ctl_frame_def)
qed

text \<open>The sequential \<open>startLoop\<close> of the model, through the steps of the new thread.\<close>

lemma startLoop_begun:
  "startLoop (te_init v) (te_use_poll v) (te_os v) (te_tid v) (te_loop v) (te_channel v) E w =
     (case begun v E w of Inl e \<Rightarrow> Inl e
      | Inr u \<Rightarrow> Inr (te_loop v, (started_object v E)\<lparr>et_loop := Some (te_loop v)\<rparr>, u))"
proof (cases "EventLoop_ctor (te_use_poll v) (te_os v) (te_loop v) (te_channel v)
    (w\<lparr>cur_tid := te_tid v\<rparr>)")
  case (Inl e)
  then show ?thesis by (simp add: startLoop_def threadFunc_begin_def begun_def in_thread_def)
next
  case (Inr u)
  from EventLoop_ctor_tid [OF Inr] have "u\<lparr>cur_tid := te_tid v\<rparr> = u" by simp
  with Inr show ?thesis
    by (cases "te_init v (te_loop v) u")
      (simp_all add: startLoop_def threadFunc_begin_def begun_def in_thread_def started_object_def Let_def)
qed

text \<open>
  What the object holds and which world the start has made, at each place of the new thread; from
  \<open>loop()\<close> on that world is the one the start ended with.
\<close>

fun phase ::
  "('f, 'a) thread_env \<Rightarrow> event_loop_thread \<Rightarrow> ('f, 'a) lworld_scheme \<Rightarrow> child_pc
     \<Rightarrow> event_loop_thread \<Rightarrow> ('f, 'a) lworld_scheme \<Rightarrow> bool" where
  "phase v E w TAbsent X u \<longleftrightarrow> X = E \<and> u = w"
| "phase v E w TSetTid X u \<longleftrightarrow> X = E\<lparr>et_thread := (et_thread E)\<lparr>th_started := True\<rparr>\<rparr> \<and> u = w"
| "phase v E w TPost X u \<longleftrightarrow> X = started_object v E \<and> u = w"
| "phase v E w TCtor X u \<longleftrightarrow> X = started_object v E \<and> u = w"
| "phase v E w TInit X u \<longleftrightarrow> X = started_object v E \<and> in_thread (te_tid v)
     (EventLoop_ctor (te_use_poll v) (te_os v) (te_loop v) (te_channel v)) w = Inr u"
| "phase v E w TLock X u \<longleftrightarrow> X = started_object v E \<and> begun v E w = Inr u"
| "phase v E w TPublish X u \<longleftrightarrow> X = started_object v E \<and> begun v E w = Inr u"
| "phase v E w (TDied e) X u \<longleftrightarrow> False"
| "phase v E w pc X u \<longleftrightarrow>
     X = (started_object v E)\<lparr>et_loop := pointer (te_loop v) pc\<rparr> \<and> begun v E w = Inr u"

text \<open>What the new thread's steps from \<open>loop()\<close> on do to the world.\<close>

fun loop_part ::
  "('f, 'a) thread_env \<Rightarrow> lt_action
     \<Rightarrow> (('f, 'a) lworld_scheme \<Rightarrow> failure + ('f, 'a) lworld_scheme) list" where
  "loop_part v EnterLoop =
     [in_thread (te_tid v) (upd_loop (te_loop v) (\<lambda>L. L\<lparr>el_looping := True, el_quit := False\<rparr>))]"
| "loop_part v Round = [in_thread (te_tid v) (te_body v)]"
| "loop_part v LeaveLoop = [in_thread (te_tid v) (upd_loop (te_loop v) (\<lambda>L. L\<lparr>el_looping := False\<rparr>))]"
| "loop_part v DestroyLoop = [in_thread (te_tid v) (EventLoop_dtor (te_os v) (te_loop v))]"
| "loop_part v _ = []"

definition loop_parts ::
  "('f, 'a) thread_env \<Rightarrow> lt_action list
     \<Rightarrow> (('f, 'a) lworld_scheme \<Rightarrow> failure + ('f, 'a) lworld_scheme) list" where
  "loop_parts v as = concat (map (loop_part v) as)"

lemma loop_parts_simps [simp]:
  "loop_parts v [] = []" "loop_parts v (as @ [a]) = loop_parts v as @ loop_part v a"
  by (simp_all add: loop_parts_def)

lemma loop_parts_startup: "list_all startup as \<Longrightarrow> loop_parts v as = []"
proof -
  have "loop_part v a = []" if "startup a" for a
    using that by (cases a) simp_all
  then show "list_all startup as \<Longrightarrow> loop_parts v as = []"
    by (induction as) (simp_all add: loop_parts_def)
qed

fun in_dtor :: "starter_pc \<Rightarrow> bool" where
  "in_dtor STest = True"
| "in_dtor SQuit = True"
| "in_dtor SJoin = True"
| "in_dtor SGone = True"
| "in_dtor (SCrashed e) = True"
| "in_dtor _ = False"

definition atomic_start ::
  "('f, 'a) thread_env \<Rightarrow> event_loop_thread \<Rightarrow> ('f, 'a) lworld_scheme \<Rightarrow> lt_action list
     \<Rightarrow> ('f, 'a) lt_state \<Rightarrow> bool" where
  "atomic_start v E w as s \<longleftrightarrow> (\<exists>u. phase v E w (lt_child s) (lt_object s) u \<and>
     run (loop_parts v as) u = Inr (lt_world s) \<and> (settled (lt_child s) \<or> loop_parts v as = []))"

lemma in_dtor_back: "lt_exec v a s = Some s' \<Longrightarrow> \<not> in_dtor (lt_starter s') \<Longrightarrow> \<not> in_dtor (lt_starter s)"
  by (cases a) (auto simp: child_does_def split: if_split_asm option.split_asm starter_pc.split_asm sum.split_asm)

lemma atomic_start_step:
  assumes "lt_exec v a s = Some s'" and "lt_live s'" and "\<not> in_dtor (lt_starter s')"
    and "et_loop E = None" and "atomic_start v E w as s"
  shows "atomic_start v E w (as @ [a]) s'"
proof -
  from assms(5) obtain u where u: "phase v E w (lt_child s) (lt_object s) u"
      "run (loop_parts v as) u = Inr (lt_world s)" "settled (lt_child s) \<or> loop_parts v as = []"
    by (auto simp: atomic_start_def)
  have "\<exists>u. phase v E w (lt_child s') (lt_object s') u \<and>
      run (loop_parts v as @ loop_part v a) u = Inr (lt_world s') \<and>
      (settled (lt_child s') \<or> loop_parts v as @ loop_part v a = [])"
    using assms(1-4) u
    by (cases a; clarsimp simp: child_does_def lt_live_def begun_def Thread_start_def run_append
        started_object_def split: if_split_asm option.split_asm starter_pc.split_asm sum.split_asm; blast?)
  then show ?thesis by (simp add: atomic_start_def)
qed

lemma atomic_start_run:
  assumes "lt_run v as (lt_init E w) = Some s" and "lt_live s" and "\<not> in_dtor (lt_starter s)"
    and "et_loop E = None"
  shows "atomic_start v E w as s"
proof -
  have "lt_live s \<longrightarrow> \<not> in_dtor (lt_starter s) \<longrightarrow> atomic_start v E w as s"
  proof (rule lt.history [where P = "\<lambda>as s. lt_live s \<longrightarrow> \<not> in_dtor (lt_starter s) \<longrightarrow> atomic_start v E w as s",
        OF _ _ assms(1)])
    show "lt_live (lt_init E w) \<longrightarrow> \<not> in_dtor (lt_starter (lt_init E w)) \<longrightarrow> atomic_start v E w [] (lt_init E w)"
      by (simp add: atomic_start_def lt_init_def)
  qed (use assms(4) in \<open>auto dest: lt_live_back in_dtor_back intro: atomic_start_step\<close>)
  with assms(2,3) show ?thesis by simp
qed

text \<open>The steps of the start alone do not take the new thread beyond its publication.\<close>

lemma startup_child:
  assumes "lt_run v as (lt_init E w) = Some s" and "list_all startup as"
  shows "lt_child s = TEnter \<or> \<not> settled (lt_child s)"
proof (rule lt.invariant [where P = "\<lambda>s. lt_child s = TEnter \<or> \<not> settled (lt_child s)", OF _ assms(1)])
  fix a u x
  assume "a \<in> set as" "lt_exec v a u = Some x" "lt_child u = TEnter \<or> \<not> settled (lt_child u)"
  with assms(2) show "lt_child x = TEnter \<or> \<not> settled (lt_child x)"
    by (cases a) (auto simp: list_all_iff child_does_def split: if_split_asm option.split_asm
      starter_pc.split_asm sum.split_asm)
qed (simp add: lt_init_def)

section \<open>The start ends\<close>

fun starter_rank :: "starter_pc \<Rightarrow> nat" where
  "starter_rank SIdle = 6"
| "starter_rank SWaitTid = 5"
| "starter_rank SLock = 4"
| "starter_rank SWoken = 4"
| "starter_rank SCheck = 3"
| "starter_rank SWaiting = 2"
| "starter_rank SRead = 2"
| "starter_rank _ = 1"

fun child_rank :: "child_pc \<Rightarrow> nat" where
  "child_rank TAbsent = 9"
| "child_rank TSetTid = 8"
| "child_rank TPost = 7"
| "child_rank TCtor = 6"
| "child_rank TInit = 5"
| "child_rank TLock = 4"
| "child_rank TPublish = 3"
| "child_rank TNotify = 2"
| "child_rank TUnlock = 1"
| "child_rank _ = 0"

definition work :: "('f, 'a) lt_state \<Rightarrow> nat" where
  "work s = starter_rank (lt_starter s) + 3 * child_rank (lt_child s)"

lemma work_init: "work (lt_init E w) = 33"
  by (simp add: work_def lt_init_def)

lemma work_step:
  "lt_exec v a s = Some s' \<Longrightarrow> work s' + (if startup a then 1 else 0) \<le> work s +
     (if a = Spurious then 3 else 0)"
  by (cases a; clarsimp simp: work_def child_does_def
      split: if_split_asm option.split_asm starter_pc.split_asm sum.split sum.split_asm; (elim disjE)?; simp?)

lemma work_run:
  assumes "lt_run v as s = Some s'"
  shows "work s' + length (filter startup as) \<le> work s + 3 * count_list as Spurious"
  using work_step assms by (rule lt.bounded)

text \<open>Until the new thread leaves \<open>loop()\<close> the pointer is there for the starter to find.\<close>

fun before_leave :: "child_pc \<Rightarrow> bool" where
  "before_leave TRelock = False"
| "before_leave TClear = False"
| "before_leave TRelease = False"
| "before_leave TDestroy = False"
| "before_leave TEnded = False"
| "before_leave (TDied e) = False"
| "before_leave _ = True"

lemma before_leave_step:
  "lt_exec v a s = Some s' \<Longrightarrow> a \<noteq> LeaveLoop \<Longrightarrow> before_leave (lt_child s) \<or> \<not> lt_live s \<Longrightarrow>
     before_leave (lt_child s') \<or> \<not> lt_live s'"
  by (cases a) (auto simp: lt_live_def child_does_def
      split: if_split_asm option.split_asm starter_pc.split_asm sum.split_asm)

lemma before_leave_run:
  assumes "lt_run v as (lt_init E w) = Some s" and "LeaveLoop \<notin> set as" and "lt_live s"
  shows "before_leave (lt_child s)"
proof -
  have "before_leave (lt_child s) \<or> \<not> lt_live s"
    by (rule lt.invariant [where P = "\<lambda>s. before_leave (lt_child s) \<or> \<not> lt_live s",
          OF _ assms(1)])
      (use assms(2) in \<open>auto simp: lt_init_def dest: before_leave_step\<close>)
  with assms(3) show ?thesis by simp
qed

lemma child_ready:
  assumes "lt_mutex s \<noteq> Some Starter" "lt_mutex s = Some Child \<longrightarrow> child_holds (lt_child s)"
    and "before_leave (lt_child s)" "lt_child s \<notin> {TAbsent, TEnter, TLoop}"
  shows "\<exists>a s'. startup a \<and> a \<noteq> Spurious \<and> lt_exec v a s = Some s'"
proof -
  have free: "lt_mutex s = None" if "\<not> child_holds (lt_child s)"
    using assms(1,2) that by (cases "lt_mutex s") (auto, metis party.exhaust)
  show ?thesis
  proof (cases "lt_child s")
    case TSetTid
    then show ?thesis by (intro exI [of _ SetTid]) simp
  next
    case TPost
    then show ?thesis by (intro exI [of _ Post]) simp
  next
    case TCtor
    then show ?thesis by (intro exI [of _ Ctor]) simp
  next
    case TInit
    then show ?thesis by (intro exI [of _ Init]) simp
  next
    case TLock
    with free show ?thesis by (intro exI [of _ ChildLock]) simp
  next
    case TPublish
    then show ?thesis by (intro exI [of _ Publish]) simp
  next
    case TNotify
    then show ?thesis by (intro exI [of _ Notify]) simp
  next
    case TUnlock
    then show ?thesis by (intro exI [of _ ChildUnlock]) simp
  qed (use assms(3,4) in simp_all)
qed

lemma start_progress:
  assumes inv: "lt_inv v s" and live: "before_leave (lt_child s)"
    and "\<not> has_returned (lt_starter s)"
  shows "\<exists>a s'. startup a \<and> a \<noteq> Spurious \<and> lt_exec v a s = Some s'"
proof -
  have child: ?thesis
    if "\<not> starter_holds (lt_starter s)" "lt_child s \<notin> {TAbsent, TEnter, TLoop}"
    by (rule child_ready) (use inv live that in \<open>auto simp: lt_inv_def\<close>)
  have lock: ?thesis if "lt_starter s \<in> {SLock, SWoken}"
  proof (cases "lt_mutex s")
    case None
    with that show ?thesis by (intro exI [of _ StarterLock]) auto
  next
    case (Some q)
    with that inv have "child_holds (lt_child s)" by (cases q) (auto simp: lt_inv_def)
    with that show ?thesis by (intro child) auto
  qed
  show ?thesis
  proof (cases "lt_starter s")
    case SIdle
    with inv show ?thesis by (intro exI [of _ Start]) (simp add: lt_inv_def)
  next
    case SWaitTid
    show ?thesis
    proof (cases "posted (lt_child s)")
      case True
      with inv SWaitTid show ?thesis by (intro exI [of _ SemWait]) (simp add: lt_inv_def)
    next
      case False
      with inv SWaitTid show ?thesis by (intro child) (auto simp: lt_inv_def)
    qed
  next
    case SCheck
    then show ?thesis by (intro exI [of _ CheckLoop]) simp
  next
    case SWaiting
    with inv show ?thesis by (intro child) (auto simp: lt_inv_def)
  next
    case SRead
    with inv show ?thesis by (intro exI [of _ ReadLoop]) (simp add: lt_inv_def)
  qed (use lock assms(3) in simp_all)
qed

section \<open>A loop that ends by itself\<close>

text \<open>The loop is entered, makes one round in which something quits it, and is left.\<close>

definition ends_at_once ::
  "('f, 'a) thread_env \<Rightarrow> ('f, 'a) lworld_scheme \<Rightarrow> ('f, 'a) lworld_scheme \<Rightarrow> bool" where
  "ends_at_once v u u' \<longleftrightarrow> (\<exists>u1 u2.
     in_thread (te_tid v) (upd_loop (te_loop v) (\<lambda>L. L\<lparr>el_looping := True, el_quit := False\<rparr>)) u
       = Inr u1 \<and>
     looping (te_loop v) u1 = Some True \<and> in_thread (te_tid v) (te_body v) u1 = Inr u2 \<and>
     looping (te_loop v) u2 = Some False \<and>
     in_thread (te_tid v) (upd_loop (te_loop v) (\<lambda>L. L\<lparr>el_looping := False\<rparr>)) u2 = Inr u')"

lemma begun_stages:
  assumes "begun v E w = Inr u"
  obtains u0 where "in_thread (te_tid v)
      (EventLoop_ctor (te_use_poll v) (te_os v) (te_loop v) (te_channel v)) w = Inr u0"
    and "in_thread (te_tid v) (if et_callback E then te_init v (te_loop v) else Inr) u0 = Inr u"
  using assms by (auto simp: begun_def)

definition child_starts :: "lt_action list" where
  "child_starts = [Start, SetTid, Post, SemWait, Ctor, Init, ChildLock, Publish, Notify, ChildUnlock]"

lemma child_starts_run:
  assumes "et_loop E = None" and "begun v E w = Inr u"
  shows "lt_run v child_starts (lt_init E w) = Some \<lparr>lt_starter = SLock, lt_child = TEnter, lt_sem = 0,
    lt_mutex = None, lt_object = (started_object v E)\<lparr>et_loop := Some (te_loop v)\<rparr>, lt_world = u\<rparr>"
proof -
  from begun_stages [OF assms(2)] obtain u0 where
    "in_thread (te_tid v) (EventLoop_ctor (te_use_poll v) (te_os v) (te_loop v) (te_channel v)) w = Inr u0"
    "in_thread (te_tid v) (if et_callback E then te_init v (te_loop v) else Inr) u0 = Inr u" .
  then show ?thesis
    by (simp add: child_starts_def lt_init_def child_does_def started_object_def Thread_start_def)
qed

definition starter_takes :: "lt_action list" where
  "starter_takes = [StarterLock, CheckLoop, ReadLoop]"

definition child_leaves :: "lt_action list" where
  "child_leaves = [EnterLoop, Round, LeaveLoop, ChildRelock, ClearLoop]"

lemma starter_takes_run:
  assumes "lt_starter s = SLock" and "lt_mutex s = None" and "et_loop (lt_object s) = Some l"
  shows "lt_run v starter_takes s = Some (s\<lparr>lt_starter := SReturned l\<rparr>)"
  using assms by (cases s) (simp add: starter_takes_def)

lemma child_leaves_run:
  assumes "lt_child s = TEnter" and "lt_mutex s = None" and "ends_at_once v (lt_world s) u"
  shows "lt_run v child_leaves s = Some (s\<lparr>lt_child := TRelease, lt_mutex := Some Child, lt_world := u,
    lt_object := (lt_object s)\<lparr>et_loop := None\<rparr>\<rparr>)"
  using assms by (cases s) (auto simp: child_leaves_def ends_at_once_def child_does_def)

text \<open>Once the loop is gone nothing sets the pointer again.\<close>

lemma gone_step:
  "lt_exec v a s = Some s' \<Longrightarrow> lt_child s = TEnded \<and> et_loop (lt_object s) = None \<and>
     lt_starter s \<in> {SLock, SCheck, SWaiting, SWoken} \<Longrightarrow>
   lt_child s' = TEnded \<and> et_loop (lt_object s') = None \<and>
     lt_starter s' \<in> {SLock, SCheck, SWaiting, SWoken}"
  by (cases a) (auto split: if_split_asm)

lemma gone_run:
  assumes "lt_run v bs s = Some s'" and "lt_child s = TEnded" and "et_loop (lt_object s) = None"
    and "lt_starter s = SLock"
  shows "\<not> has_returned (lt_starter s')"
proof -
  have "lt_child s' = TEnded \<and> et_loop (lt_object s') = None \<and>
      lt_starter s' \<in> {SLock, SCheck, SWaiting, SWoken}"
    by (rule lt.invariant [where P = "\<lambda>s. lt_child s = TEnded \<and> et_loop (lt_object s) = None \<and>
          lt_starter s \<in> {SLock, SCheck, SWaiting, SWoken}", OF gone_step assms(1)])
      (use assms in simp_all)
  then show ?thesis by auto
qed

section \<open>A loop that only the destructor ends\<close>

definition runs_on :: "('f, 'a) thread_env \<Rightarrow> bool" where
  "runs_on v \<longleftrightarrow> (\<forall>w w'. looping (te_loop v) w = Some True \<longrightarrow> te_body v w = Inr w' \<longrightarrow>
     looping (te_loop v) w' = Some True)"

lemma looping_tid [simp]: "looping l (w\<lparr>cur_tid := t\<rparr>) = looping l w"
  by (simp add: looping_def)

lemma in_thread_looping:
  assumes "in_thread t f w = Inr w'" and "looping l w = b"
    and "\<And>u u'. looping l u = b \<Longrightarrow> f u = Inr u' \<Longrightarrow> looping l u' = c"
  shows "looping l w' = c"
proof -
  from assms(1) obtain u where "f (w\<lparr>cur_tid := t\<rparr>) = Inr u" "w' = u\<lparr>cur_tid := cur_tid w\<rparr>"
    by (auto simp: in_thread_def)
  with assms(3) [of "w\<lparr>cur_tid := t\<rparr>" u] assms(2) show ?thesis by simp
qed

lemma entered_looping:
  "in_thread t (upd_loop l (\<lambda>L. L\<lparr>el_looping := True, el_quit := False\<rparr>)) w = Inr w' \<Longrightarrow>
     looping l w' = Some True"
  by (auto simp: in_thread_def upd_loop_Inr looping_def)

fun joining :: "starter_pc \<Rightarrow> bool" where
  "joining SJoin = True"
| "joining SGone = True"
| "joining (SCrashed e) = True"
| "joining _ = False"

definition dtor_inv :: "('f, 'a) thread_env \<Rightarrow> ('f, 'a) lt_state \<Rightarrow> bool" where
  "dtor_inv v s \<longleftrightarrow>
     (\<not> before_leave (lt_child s) \<longrightarrow> joining (lt_starter s)) \<and>
     (lt_child s = TLoop \<longrightarrow> \<not> joining (lt_starter s) \<longrightarrow>
        looping (te_loop v) (lt_world s) = Some True) \<and>
     (lt_starter s = SJoin \<longrightarrow> th_joined (et_thread (lt_object s))) \<and>
     (lt_starter s = SGone \<longrightarrow> th_joined (et_thread (lt_object s))) \<and>
     (lt_starter s = SGone \<longrightarrow> lt_child s = TEnded) \<and>
     lt_starter s \<noteq> SCrashed NullPointer"

lemma quit_fault: "quit os l w = Inl e \<Longrightarrow> e = DanglingPointer"
  by (cases "loops w l")
    (auto simp: quit_def upd_loop_def get_loop_def wakeup_def Let_def split: if_split_asm prod.split_asm)

lemma settled_published: "settled pc \<Longrightarrow> before_leave pc \<Longrightarrow> published pc"
  by (cases pc) simp_all

lemma round_looping:
  "runs_on v \<Longrightarrow> in_thread t (te_body v) w = Inr w' \<Longrightarrow> looping (te_loop v) w = Some True \<Longrightarrow>
     looping (te_loop v) w' = Some True"
  unfolding runs_on_def by (rule in_thread_looping [where f = "te_body v"]) blast+

lemma pointer_there:
  assumes inv: "lt_inv v s" "dtor_inv v s" and pc: "lt_starter s \<in> {STest, SQuit}"
  shows "et_loop (lt_object s) = Some (te_loop v)"
proof -
  from pc have "has_returned (lt_starter s)" "\<not> joining (lt_starter s)" by auto
  with inv have "settled (lt_child s)" "before_leave (lt_child s)"
    by (simp_all add: lt_inv_def dtor_inv_def)
  then have "published (lt_child s)" by (rule settled_published)
  with inv(1) show ?thesis by (simp add: lt_inv_def)
qed

lemma dtor_inv_test:
  assumes step: "lt_exec v TestLoop s = Some s'" and inv: "lt_inv v s" "dtor_inv v s"
  shows "dtor_inv v s'"
proof -
  from step have pc: "lt_starter s = STest" by (simp split: if_split_asm)
  with step pointer_there [OF inv] have "s' = s\<lparr>lt_starter := SQuit\<rparr>" by simp
  with inv(2) pc show ?thesis by (simp add: dtor_inv_def)
qed

lemma dtor_inv_quit:
  assumes step: "lt_exec v QuitLoop s = Some s'" and inv: "lt_inv v s" "dtor_inv v s"
  shows "dtor_inv v s'"
proof -
  from step have pc: "lt_starter s = SQuit" by (simp split: if_split_asm)
  note there = pointer_there [OF inv]
  show ?thesis
  proof (cases "quit (te_os v) (te_loop v) (lt_world s)")
    case (Inl e)
    with quit_fault [OF Inl] step inv(2) pc there show ?thesis
      by (auto simp: dtor_inv_def)
  next
    case (Inr w)
    with step pc there have "s' = s\<lparr>lt_starter := SJoin, lt_world := w, lt_object :=
        (lt_object s)\<lparr>et_thread := Thread_join (et_thread (lt_object s))\<rparr>\<rparr>" by simp
    with inv(2) pc show ?thesis by (simp add: dtor_inv_def Thread_join_def)
  qed
qed

lemma dtor_inv_step:
  assumes step: "lt_exec v a s = Some s'" and live: "lt_live s'" and inv: "lt_inv v s" "dtor_inv v s"
    and on: "runs_on v"
  shows "dtor_inv v s'"
proof (cases "a = TestLoop \<or> a = QuitLoop")
  case True
  with step inv show ?thesis by (blast intro: dtor_inv_test dtor_inv_quit)
next
  case False
  with step live inv(2) show ?thesis
    by (cases a; clarsimp simp: dtor_inv_def child_does_def lt_live_def entered_looping
        round_looping [OF on] split: if_split_asm option.split_asm starter_pc.split_asm sum.split_asm;
        (elim disjE)?; simp?)
qed

lemma dtor_inv_run:
  assumes run: "lt_run v as (lt_init E w) = Some s" and "et_loop E = None" and "runs_on v"
    and "lt_live s"
  shows "dtor_inv v s"
proof -
  have "lt_live s \<longrightarrow> lt_inv v s \<and> dtor_inv v s"
  proof (rule lt.invariant [where P = "\<lambda>s. lt_live s \<longrightarrow> lt_inv v s \<and> dtor_inv v s", OF _ run])
    show "lt_live (lt_init E w) \<longrightarrow> lt_inv v (lt_init E w) \<and> dtor_inv v (lt_init E w)"
      using lt_inv_init [OF assms(2), of v w] by (simp add: dtor_inv_def) (simp add: lt_init_def)
  qed (use assms(3) in \<open>auto dest: lt_live_back intro: lt_inv_step dtor_inv_step\<close>)
  with assms(4) show ?thesis by simp
qed

section \<open>Properties\<close>

text \<open>
  C18 (starting a loop thread looks like one step). However the steps of the two threads interleave, with any
  number of spurious wake-ups, and however far the new thread has gone on into its \<open>loop()\<close> or
  out of it: when \<open>startLoop\<close> returns, the sequential \<open>startLoop\<close> of the model succeeds with the same
  pointer, which is the new loop's; and the object and the world are those it computes, changed by the new
  thread's own steps from \<open>loop()\<close> on and by nothing else: the object's pointer is cleared if the thread got so far, and
  the world is what entering, the rounds, leaving and the loop's destructor, in the order of the
  schedule, make of it. In particular the identity of the thread is known, and the initialisation callback has run.
\<close>

theorem startLoop_atomic:
  assumes "lt_run v as (lt_init E w) = Some s" and "et_loop E = None"
    and "lt_live s" and "lt_starter s = SReturned k"
  shows "\<exists>X u. startLoop (te_init v) (te_use_poll v) (te_os v) (te_tid v) (te_loop v) (te_channel v) E w =
      Inr (k, X, u) \<and> k = te_loop v \<and> th_tid (et_thread X) = te_tid v \<and>
    run (loop_parts v as) u = Inr (lt_world s) \<and>
    lt_object s = X\<lparr>et_loop := pointer k (lt_child s)\<rparr> \<and>
    (list_all startup as \<longrightarrow> startLoop (te_init v) (te_use_poll v) (te_os v) (te_tid v) (te_loop v) (te_channel v) E w =
      Inr (k, lt_object s, lt_world s))"
proof -
  have inv: "lt_inv v s" by (rule lt_inv_run [OF assms(1,2,3)])
  then have child: "settled (lt_child s)" and k: "k = te_loop v"
    and tid: "has_tid (lt_child s) \<longrightarrow> th_tid (et_thread (lt_object s)) = te_tid v"
    using assms(4) by (simp_all add: lt_inv_def)
  from atomic_start_run [OF assms(1,3) _ assms(2)] assms(4) obtain u where
      u: "phase v E w (lt_child s) (lt_object s) u" "run (loop_parts v as) u = Inr (lt_world s)"
    by (auto simp: atomic_start_def)
  let ?X = "(started_object v E)\<lparr>et_loop := Some (te_loop v)\<rparr>"
  from u(1) child have X: "begun v E w = Inr u" "lt_object s = ?X\<lparr>et_loop := pointer k (lt_child s)\<rparr>"
    by (cases "lt_child s"; simp add: k)+
  have "th_tid (et_thread ?X) = te_tid v" by (simp add: started_object_def Thread_start_def)
  moreover have "pointer k (lt_child s) = Some k" if "list_all startup as"
  proof -
    have "lt_child s = TEnter \<or> \<not> settled (lt_child s)"
      using assms(1) that by (rule startup_child)
    with child show ?thesis by simp
  qed
  ultimately show ?thesis
    using X u(2) k loop_parts_startup [of as v] by (auto simp: startLoop_begun)
qed

text \<open>A thread with a kernel that knows no failure, and a first round that quits its loop.\<close>

definition demo_env :: "(nat, unit) thread_env" where
  "demo_env = \<lparr>te_init = (\<lambda>l w. Inr w), te_use_poll = False, te_os = demo_os, te_tid = 5, te_loop = 3,
     te_channel = 24, te_body = upd_loop 3 (\<lambda>L. L\<lparr>el_quit := True\<rparr>)\<rparr>"

definition demo_thread :: event_loop_thread where
  "demo_thread = fst (EventLoopThread_ctor False ''io'' 0)"

lemma demo_thread_simps [simp]: "et_loop demo_thread = None" "et_callback demo_thread = False"
  by (simp_all add: demo_thread_def EventLoopThread_ctor_def Thread_ctor_def setDefaultname_def)

lemma EventLoop_dtor_ok:
  assumes inv: "loop_inv os l w" and L: "loops w l = Some L"
    and owned: "el_wakeupChannel L \<in> loop_owned l w"
  shows "\<exists>w'. EventLoop_dtor os l w = Inr w' \<and> lworld.more w' = lworld.more w \<and> loops w' l = None"
proof -
  from reg.change_law [OF inv owned, of DisableAll] obtain v where
      v: "disableAll os (el_wakeupChannel L) w = Inr v" "loop_inv os l v"
        "el_wakeupChannel L \<in> loop_owned l v"
    using owned by blast
  from reg.remove_law [OF v(2,3)] obtain x where
      x: "Channel_remove os (el_wakeupChannel L) v = Inr x" "loop_inv os l x" by blast
  from x(2) obtain K where "loops x l = Some K" by (auto simp: loop_inv_def loop_poller_Some)
  moreover have "ctl_frame w v" "ctl_frame v x"
    using v(1) x(1) by (auto elim: Channel_interest_frame Channel_remove_frame)
  then have "lworld.more x = lworld.more w" by (simp add: ctl_frame_def)
  ultimately show ?thesis
    using L v(1) x(1)
    by (simp add: EventLoop_dtor_def get_loop_def sys_close_def EPollPoller_dtor_def emit_def Let_def
        split: option.split)
qed

lemma loop_inv_tid [simp]: "loop_inv os l (w\<lparr>cur_tid := t\<rparr>) = loop_inv os l w"
  by (simp add: loop_inv_def distinct_fds_def poller_inv_def listed_def loop_poller_def
      cong: option.case_cong)

lemma loop_inv_flags:
  "loops w l = Some L \<Longrightarrow> el_poller K = el_poller L \<Longrightarrow> loop_inv os l (put_loop l K w) = loop_inv os l w"
  by (simp add: loop_inv_def distinct_fds_def poller_inv_def listed_def loop_poller_def
      cong: option.case_cong)

lemma demo_begun:
  obtains u L where "begun demo_env demo_thread empty_world = Inr u" and "loops u 3 = Some L"
    and "loop_inv demo_os 3 u" and "24 \<in> loop_owned 3 u" and "el_wakeupChannel L = 24"
proof -
  let ?w = "empty_world\<lparr>cur_tid := 5\<rparr>"
  have ep: "os_epoll_create demo_os (trace ?w) = Inr 3"
    "os_eventfd demo_os (trace ?w @ [EvEpollCreate (Inr 3)]) = Inr 4"
    by (simp_all add: demo_os_def empty_world_def)
  have call: "EventLoop_ctor False demo_os 3 24 ?w = enableReading demo_os 24 (constructed 3 4 3 24 ?w)"
    using EventLoop_ctor_call [OF ep, of 3 24] by (simp add: empty_world_def)
  obtain u where u: "EventLoop_ctor False demo_os 3 24 ?w = Inr u" "loop_inv demo_os 3 u"
      "loop_owned 3 u = {24}"
    using EventLoop_ctor_ok [OF demo_os_epoll_ctl _ ep, of 3 24] by (auto simp: empty_world_def)
  then obtain L where L: "loops u 3 = Some L" by (auto simp: loop_inv_def loop_poller_Some)
  from u(1) call have "ctl_frame (constructed 3 4 3 24 ?w) u" by (auto elim: Channel_interest_frame)
  then have "map_option (el_poller_update (\<lambda>_. None)) (loops u 3) =
      map_option (el_poller_update (\<lambda>_. None)) (loops (constructed 3 4 3 24 ?w) 3)"
    by (simp add: ctl_frame_def)
  with L have "el_wakeupChannel L = 24" by (cases L) (simp add: constructed_def)
  moreover have "begun demo_env demo_thread empty_world = Inr (u\<lparr>cur_tid := 1\<rparr>)"
    using u(1) by (simp add: begun_def in_thread_def demo_env_def empty_world_def)
  moreover have "loop_inv demo_os 3 (u\<lparr>cur_tid := 1\<rparr>)"
    using u(2) by simp
  ultimately show ?thesis using that [of "u\<lparr>cur_tid := 1\<rparr>" L] u(3) L by (auto simp: loop_owned_def)
qed

lemma in_thread_put: "loops w l = Some L \<Longrightarrow> in_thread t (upd_loop l f) w = Inr (put_loop l (f L) w)"
  by (simp add: in_thread_def put_loop_def)

text \<open>A thread in \<open>loop()\<close> that is asked to quit comes to its end, and the join with it.\<close>

lemma loop_inv_emit:
  assumes "\<And>ep. interest (trace w @ [e]) ep = interest (trace w) ep"
  shows "loop_inv os l (emit e w) = loop_inv os l w"
  using assms
  by (simp add: emit_def loop_inv_def distinct_fds_def poller_inv_def listed_def loop_poller_def
      cong: option.case_cong)

lemma loop_inv_log [simp]: "loop_inv os l (log_msg lv w) = loop_inv os l w"
  unfolding log_msg_def by (rule loop_inv_emit) simp

lemma loop_inv_write: "loop_inv os l (emit (EvWrite fd d r) w) = loop_inv os l w"
  by (rule loop_inv_emit) (simp add: interest_snoc)

lemma wakeup_quiet:
  assumes "loops w l = Some L"
  obtains w' where "wakeup os l w = Inr w'" and "loops w' = loops w" and "chans w' = chans w"
    and "loop_inv os' l w' = loop_inv os' l w" and "lworld.more w' = lworld.more w"
proof -
  let ?r = "os_write os (trace w) (el_wakeupFd L) eventfd_one"
  let ?w = "emit (EvWrite (el_wakeupFd L) eventfd_one ?r) w"
  have "wakeup os l w = Inr (if ?r \<noteq> Inr 8 then log_msg ERROR ?w else ?w)"
    using assms by (simp add: wakeup_def sys_write_def get_loop_def Let_def)
  then show ?thesis
    by (rule that; simp add: loop_inv_write; simp add: log_msg_def emit_def)
qed

lemma quit_ok:
  assumes "loops w l = Some L"
  obtains w' where "quit os l w = Inr w'" and "loops w' l = Some (L\<lparr>el_quit := True\<rparr>)"
    and "loop_inv os' l w' = loop_inv os' l w" and "loop_owned l w' = loop_owned l w"
    and "lworld.more w' = lworld.more w"
proof -
  let ?v = "put_loop l (L\<lparr>el_quit := True\<rparr>) w"
  have flags: "loop_inv os' l ?v = loop_inv os' l w" by (rule loop_inv_flags [OF assms]) simp
  have L: "loops ?v l = Some (L\<lparr>el_quit := True\<rparr>)" by (simp add: put_loop_def)
  have quit: "quit os l w = (if isInLoopThread (L\<lparr>el_quit := True\<rparr>) ?v then Inr ?v else wakeup os l ?v)"
    using assms by (simp add: quit_def get_loop_def put_loop_def upd_loop_def)
  from wakeup_quiet [OF L, of os os'] obtain x where
      x: "wakeup os l ?v = Inr x" "loops x = loops ?v" "chans x = chans ?v"
        "loop_inv os' l x = loop_inv os' l ?v" "lworld.more x = lworld.more ?v" .
  show ?thesis
  proof (cases "isInLoopThread (L\<lparr>el_quit := True\<rparr>) ?v")
    case True
    then show ?thesis using that [of ?v] quit L flags by (simp add: loop_owned_def put_loop_def)
  next
    case False
    then show ?thesis using that [of x] quit L flags x by (simp add: loop_owned_def put_loop_def)
  qed
qed

lemma child_ends:
  assumes pc: "lt_child s = TLoop" "lt_starter s = SJoin" "lt_mutex s = None"
    and L: "loops (lt_world s) (te_loop v) = Some L" "el_quit L"
    and inv: "loop_inv (te_os v) (te_loop v) (lt_world s)"
    and owned: "el_wakeupChannel L \<in> loop_owned (te_loop v) (lt_world s)"
  shows "\<exists>s'. lt_run v [LeaveLoop, ChildRelock, ClearLoop, ChildRelease, DestroyLoop, Join] s = Some s' \<and>
    lt_starter s' = SGone \<and> lt_child s' = TEnded \<and> lt_live s' \<and>
    lworld.more (lt_world s') = lworld.more (lt_world s) \<and> loops (lt_world s') (te_loop v) = None"
proof -
  let ?w = "put_loop (te_loop v) (L\<lparr>el_looping := False\<rparr>) (lt_world s)"
  have "loop_inv (te_os v) (te_loop v) (?w\<lparr>cur_tid := te_tid v\<rparr>)"
    using loop_inv_flags [OF L(1), of "L\<lparr>el_looping := False\<rparr>"] inv by simp
  then have "\<exists>w'. EventLoop_dtor (te_os v) (te_loop v) (?w\<lparr>cur_tid := te_tid v\<rparr>) = Inr w' \<and>
      lworld.more w' = lworld.more (?w\<lparr>cur_tid := te_tid v\<rparr>) \<and> loops w' (te_loop v) = None"
    by (rule EventLoop_dtor_ok [where L = "L\<lparr>el_looping := False\<rparr>"])
      (use owned in \<open>simp_all add: loop_owned_def\<close>)
  then obtain w' where "in_thread (te_tid v) (EventLoop_dtor (te_os v) (te_loop v)) ?w = Inr w'"
      "lworld.more w' = lworld.more (lt_world s)" "loops w' (te_loop v) = None"
    by (auto simp: in_thread_def put_loop_def)
  then show ?thesis
    using pc L by (simp add: in_thread_put looping_def child_does_def lt_live_def)
qed

text \<open>The destructor between two rounds: the quit is seen before another round begins.\<close>

definition dtor_schedule :: "lt_action list" where
  "dtor_schedule = [Dtor, TestLoop, QuitLoop, LeaveLoop, ChildRelock, ClearLoop, ChildRelease,
     DestroyLoop, Join]"

lemma dtor_between_rounds:
  assumes pc: "lt_child s = TLoop" "lt_starter s = SReturned k" "lt_mutex s = None"
    and there: "et_loop (lt_object s) = Some (te_loop v)"
    and L: "loops (lt_world s) (te_loop v) = Some L"
    and inv: "loop_inv (te_os v) (te_loop v) (lt_world s)"
    and owned: "el_wakeupChannel L \<in> loop_owned (te_loop v) (lt_world s)"
  shows "\<exists>s'. lt_run v dtor_schedule s = Some s' \<and> lt_starter s' = SGone \<and> lt_child s' = TEnded \<and>
    lt_live s' \<and> lworld.more (lt_world s') = lworld.more (lt_world s) \<and>
    loops (lt_world s') (te_loop v) = None"
proof -
  from quit_ok [OF L, of "te_os v" "te_os v"] obtain w where
      w: "quit (te_os v) (te_loop v) (lt_world s) = Inr w"
        "loops w (te_loop v) = Some (L\<lparr>el_quit := True\<rparr>)"
        "loop_inv (te_os v) (te_loop v) w = loop_inv (te_os v) (te_loop v) (lt_world s)"
        "loop_owned (te_loop v) w = loop_owned (te_loop v) (lt_world s)"
        "lworld.more w = lworld.more (lt_world s)" .
  let ?E = "(lt_object s)\<lparr>et_exiting := True\<rparr>"
  let ?u = "s\<lparr>lt_starter := SJoin, lt_world := w,
      lt_object := ?E\<lparr>et_thread := Thread_join (et_thread ?E)\<rparr>\<rparr>"
  have asked: "lt_run v [Dtor, TestLoop, QuitLoop] s = Some ?u"
    using pc there w(1) by simp
  have "\<exists>s'. lt_run v [LeaveLoop, ChildRelock, ClearLoop, ChildRelease, DestroyLoop, Join] ?u = Some s' \<and>
      lt_starter s' = SGone \<and> lt_child s' = TEnded \<and> lt_live s' \<and>
      lworld.more (lt_world s') = lworld.more (lt_world ?u) \<and> loops (lt_world s') (te_loop v) = None"
    by (rule child_ends [where L = "L\<lparr>el_quit := True\<rparr>"]) (use pc w inv owned in simp_all)
  then obtain s' where s': "lt_run v [LeaveLoop, ChildRelock, ClearLoop, ChildRelease, DestroyLoop, Join] ?u = Some s'"
      "lt_starter s' = SGone" "lt_child s' = TEnded" "lt_live s'"
      "lworld.more (lt_world s') = lworld.more (lt_world s)" "loops (lt_world s') (te_loop v) = None"
    using w(5) by auto
  from lt.thence [OF asked s'(1)] have "lt_run v dtor_schedule s = Some s'"
    by (simp only: dtor_schedule_def append.simps)
  with s' show ?thesis by blast
qed

text \<open>The world of the first quit, and the end of that loop.\<close>

lemma demo_ends:
  obtains u u' w' where "begun demo_env demo_thread empty_world = Inr u"
    and "ends_at_once demo_env u u'" and "in_thread 5 (EventLoop_dtor demo_os 3) u' = Inr w'"
proof -
  obtain u and L :: "nat event_loop" where u: "begun demo_env demo_thread empty_world = Inr u"
      "loops u 3 = Some L" "loop_inv demo_os 3 u" "24 \<in> loop_owned 3 u" "el_wakeupChannel L = 24"
    by (rule demo_begun)
  let ?K = "L\<lparr>el_quit := True, el_looping := False\<rparr>"
  let ?v = "put_loop 3 ?K u"
  let ?in = "put_loop 3 (L\<lparr>el_looping := True, el_quit := False\<rparr>) u"
  let ?out = "put_loop 3 (L\<lparr>el_looping := True, el_quit := True\<rparr>) u"
  have "ends_at_once demo_env u ?v"
    unfolding ends_at_once_def
    by (rule exI [of _ ?in], rule exI [of _ ?out])
      (use u(2) in \<open>simp add: demo_env_def in_thread_put looping_def\<close>)
  moreover have "loop_inv demo_os 3 (?v\<lparr>cur_tid := 5\<rparr>)"
    using u(2,3) by (simp add: loop_inv_flags)
  then have "\<exists>w'. EventLoop_dtor demo_os 3 (?v\<lparr>cur_tid := 5\<rparr>) = Inr w' \<and>
      lworld.more w' = lworld.more (?v\<lparr>cur_tid := 5\<rparr>) \<and> loops w' 3 = None"
    by (rule EventLoop_dtor_ok [where L = ?K]) (use u in \<open>simp_all add: loop_owned_def\<close>)
  then have "\<exists>w'. in_thread 5 (EventLoop_dtor demo_os 3) ?v = Inr w'" by (auto simp: in_thread_def)
  ultimately show ?thesis using that u(1) by blast
qed

lemmas demo_env_simps = demo_env_def thread_env.simps

lemma demo_live [simp]: "lt_live (s\<lparr>lt_starter := pc\<rparr>) = lt_live s"
  by (simp add: lt_live_def)

theorem startLoop_atomic_witness:
  "\<exists>s. lt_run demo_env (child_starts @ starter_takes) (lt_init demo_thread empty_world) = Some s \<and>
     startLoop (te_init demo_env) False demo_os 5 3 24 demo_thread empty_world =
       Inr (3, lt_object s, lt_world s)"
proof -
  obtain u where u: "begun demo_env demo_thread empty_world = Inr u" using demo_begun by blast
  let ?s = "\<lparr>lt_starter = SLock, lt_child = TEnter, lt_sem = 0, lt_mutex = None, lt_object =
    (started_object demo_env demo_thread)\<lparr>et_loop := Some 3\<rparr>, lt_world = u\<rparr>"
  have v: "te_use_poll demo_env = False" "te_os demo_env = demo_os" "te_tid demo_env = 5"
      "te_loop demo_env = 3" "te_channel demo_env = 24"
    by (simp_all add: demo_env_def)
  have run: "lt_run demo_env (child_starts @ starter_takes) (lt_init demo_thread empty_world) =
      Some (?s\<lparr>lt_starter := SReturned 3\<rparr>)"
    using child_starts_run [OF _ u] starter_takes_run [of ?s 3 demo_env] by (simp add: lt.append v)
  have "list_all startup (child_starts @ starter_takes)"
    by (simp add: child_starts_def starter_takes_def)
  from startLoop_atomic [OF run, of 3] run this show ?thesis by (auto simp: v lt_live_def)
qed

text \<open>
  C23 (\<open>startLoop\<close> returns). Under every schedule in which the new loop has not ended by itself: the steps of the
  start are at most thirty-three, and three more for each spurious wake-up; and as long as
  \<open>startLoop\<close> has not returned, one of them, other than a spurious wake-up, can be taken. So no
  wake-up of the condition variable is lost, and there is no deadlock on semaphore and mutex.
\<close>

theorem startLoop_returns:
  assumes "lt_run v as (lt_init E w) = Some s" and "et_loop E = None" and "LeaveLoop \<notin> set as"
    and "lt_live s"
  shows "length (filter startup as) \<le> 33 + 3 * count_list as Spurious \<and>
    (has_returned (lt_starter s) \<or>
     (\<exists>a s'. startup a \<and> a \<noteq> Spurious \<and> lt_exec v a s = Some s'))"
proof -
  have "length (filter startup as) \<le> 33 + 3 * count_list as Spurious"
    using work_run [OF assms(1)] by (simp add: work_init)
  moreover have "lt_inv v s" by (rule lt_inv_run [OF assms(1,2,4)])
  moreover have "before_leave (lt_child s)" by (rule before_leave_run [OF assms(1,3,4)])
  ultimately show ?thesis using start_progress by blast
qed

theorem startLoop_returns_witness:
  "\<exists>s. lt_run demo_env child_starts (lt_init demo_thread empty_world) = Some s \<and>
     (\<exists>a s'. startup a \<and> a \<noteq> Spurious \<and> lt_exec demo_env a s = Some s')"
proof -
  obtain u where u: "begun demo_env demo_thread empty_world = Inr u" using demo_begun by blast
  note run = child_starts_run [OF demo_thread_simps(1) u]
  from startLoop_returns [OF run] run show ?thesis by (auto simp: child_starts_def lt_live_def)
qed

text \<open>
  C37 (\<open>startLoop\<close> can wait for ever). The pointer is cleared when the loop ends. If the first round of the new
  loop quits it, there is a schedule in which the starter takes the mutex only after that: it then
  waits for a pointer nobody will ever set.
\<close>

theorem startLoop_can_hang:
  assumes "et_loop E = None" and "begun v E w = Inr u" and "ends_at_once v u u'"
    and "in_thread (te_tid v) (EventLoop_dtor (te_os v) (te_loop v)) u' = Inr w'"
  shows "\<exists>as s. lt_run v as (lt_init E w) = Some s \<and> lt_child s = TEnded \<and>
    (\<forall>bs s'. lt_run v bs s = Some s' \<longrightarrow> \<not> has_returned (lt_starter s'))"
proof -
  let ?X = "started_object v E"
  let ?first = "\<lparr>lt_starter = SLock, lt_child = TEnter, lt_sem = 0, lt_mutex = None,
    lt_object = ?X\<lparr>et_loop := Some (te_loop v)\<rparr>, lt_world = u\<rparr>"
  let ?over = "\<lparr>lt_starter = SLock, lt_child = TEnded, lt_sem = 0, lt_mutex = None,
    lt_object = ?X\<lparr>et_loop := None\<rparr>, lt_world = w'\<rparr>"
  have leaves: "lt_run v child_leaves ?first = Some (?first\<lparr>lt_child := TRelease, lt_mutex := Some Child,
      lt_world := u', lt_object := (lt_object ?first)\<lparr>et_loop := None\<rparr>\<rparr>)"
    by (rule child_leaves_run [of ?first v u']) (use assms(3) in simp_all)
  have "lt_run v (child_leaves @ [ChildRelease, DestroyLoop]) ?first = Some ?over"
    by (rule lt.thence [OF leaves]) (use assms(4) in \<open>simp add: child_does_def\<close>)
  then have "lt_run v (child_starts @ child_leaves @ [ChildRelease, DestroyLoop]) (lt_init E w) = Some ?over"
    by (rule lt.thence [OF child_starts_run [OF assms(1,2)]])
  moreover have "\<not> has_returned (lt_starter s')" if "lt_run v bs ?over = Some s'" for bs s'
    by (rule gone_run [OF that]) simp_all
  ultimately show ?thesis
    by (intro exI [of _ "child_starts @ child_leaves @ [ChildRelease, DestroyLoop]"] exI [of _ ?over]) simp
qed

theorem startLoop_can_hang_witness:
  "\<exists>as s. lt_run demo_env as (lt_init demo_thread empty_world) = Some s \<and> lt_child s = TEnded \<and>
     (\<forall>bs s'. lt_run demo_env bs s = Some s' \<longrightarrow> \<not> has_returned (lt_starter s'))"
proof -
  obtain u u' w' where u: "begun demo_env demo_thread empty_world = Inr u" "ends_at_once demo_env u u'"
      "in_thread 5 (EventLoop_dtor demo_os 3) u' = Inr w'"
    by (rule demo_ends)
  show ?thesis
    by (rule startLoop_can_hang [OF demo_thread_simps(1) u(1,2)]) (use u(3) in \<open>simp add: demo_env_def\<close>)
qed

text \<open>
  C38 (the destructor races with the end of the loop). The destructor reads the pointer twice and takes no mutex. If the first
  round of the loop quits it, one schedule calls \<open>quit\<close> on a null pointer; in another the
  destructor finds the pointer cleared and ends, with the thread never joined and still holding the
  mutex that is being destroyed.
\<close>

theorem destructor_races:
  assumes "et_loop E = None" and "begun v E w = Inr u" and "ends_at_once v u u'"
  shows "(\<exists>as s. lt_run v as (lt_init E w) = Some s \<and> lt_starter s = SCrashed NullPointer) \<and>
    (\<exists>as s. lt_run v as (lt_init E w) = Some s \<and> lt_starter s = SGone \<and> lt_mutex s = Some Child \<and>
       th_joined (et_thread (lt_object s)) = th_joined (et_thread E))"
proof -
  let ?X = "started_object v E"
  let ?first = "\<lparr>lt_starter = SLock, lt_child = TEnter, lt_sem = 0, lt_mutex = None,
    lt_object = ?X\<lparr>et_loop := Some (te_loop v)\<rparr>, lt_world = u\<rparr>"
  let ?got = "?first\<lparr>lt_starter := SReturned (te_loop v)\<rparr>"
  have taken: "lt_run v (child_starts @ starter_takes) (lt_init E w) = Some ?got"
    by (rule lt.thence [OF child_starts_run [OF assms(1,2)] starter_takes_run]) simp_all
  let ?crash = "[Dtor, TestLoop] @ child_leaves @ [QuitLoop]"
  let ?ask = "?got\<lparr>lt_starter := SQuit, lt_object :=
    (?X\<lparr>et_loop := Some (te_loop v)\<rparr>)\<lparr>et_exiting := True\<rparr>\<rparr>"
  have leaves2: "lt_run v child_leaves ?ask = Some (?ask\<lparr>lt_child := TRelease, lt_mutex := Some Child,
      lt_world := u', lt_object := (lt_object ?ask)\<lparr>et_loop := None\<rparr>\<rparr>)"
    by (rule child_leaves_run [of ?ask v u']) (use assms(3) in simp_all)
  have "lt_run v [Dtor, TestLoop] ?got = Some ?ask" by simp
  from lt.thence [OF this lt.thence [OF leaves2]]
  have "\<exists>s. lt_run v ?crash ?got = Some s \<and> lt_starter s = SCrashed NullPointer" by simp
  with lt.thence [OF taken] have crash: "\<exists>as s. lt_run v as (lt_init E w) = Some s \<and>
      lt_starter s = SCrashed NullPointer"
    by blast
  let ?gone = "child_leaves @ [Dtor, TestLoop]"
  have leaves1: "lt_run v child_leaves ?got = Some (?got\<lparr>lt_child := TRelease, lt_mutex := Some Child,
      lt_world := u', lt_object := (lt_object ?got)\<lparr>et_loop := None\<rparr>\<rparr>)"
    by (rule child_leaves_run [of ?got v u']) (use assms(3) in simp_all)
  from lt.thence [OF this]
  have "\<exists>s. lt_run v ?gone ?got = Some s \<and> lt_starter s = SGone \<and> lt_mutex s = Some Child \<and>
      th_joined (et_thread (lt_object s)) = th_joined (et_thread E)"
    by (simp add: started_object_def Thread_start_def)
  with lt.thence [OF taken] have "\<exists>as s. lt_run v as (lt_init E w) = Some s \<and>
      lt_starter s = SGone \<and> lt_mutex s = Some Child \<and>
      th_joined (et_thread (lt_object s)) = th_joined (et_thread E)"
    by blast
  with crash show ?thesis by blast
qed

theorem destructor_races_witness:
  "\<exists>as s. lt_run demo_env as (lt_init demo_thread empty_world) = Some s \<and>
     lt_starter s = SCrashed NullPointer"
proof -
  obtain u u' w' where "begun demo_env demo_thread empty_world = Inr u" "ends_at_once demo_env u u'"
    by (rule demo_ends)
  from destructor_races [OF demo_thread_simps(1) this] show ?thesis by blast
qed

text \<open>
  C35 (the destructor of a loop that runs on). If no round of the loop quits it, then under every schedule the
  destructor never meets a null pointer, and when it ends, the thread has ended and was joined.
\<close>

theorem destructor_joins:
  assumes "lt_run v as (lt_init E w) = Some s" and "et_loop E = None" and "runs_on v" and "lt_live s"
  shows "lt_starter s \<noteq> SCrashed NullPointer \<and>
    (lt_starter s = SGone \<longrightarrow> lt_child s = TEnded \<and> lt_mutex s = None \<and>
       th_joined (et_thread (lt_object s)) \<and> et_loop (lt_object s) = None)"
proof -
  have inv: "dtor_inv v s" "lt_inv v s"
    by (rule dtor_inv_run [OF assms] lt_inv_run [OF assms(1,2,4)])+
  have "lt_mutex s = None" if "lt_starter s = SGone" "lt_child s = TEnded"
  proof (rule ccontr)
    assume "lt_mutex s \<noteq> None"
    then obtain q where "lt_mutex s = Some q" by blast
    with inv(2) that show False by (cases q) (simp_all add: lt_inv_def)
  qed
  with inv show ?thesis by (simp add: dtor_inv_def lt_inv_def)
qed

text \<open>A loop whose rounds do nothing, asked to quit when it runs: the whole life of a loop thread.\<close>

definition calm_env :: "(nat, unit) thread_env" where
  "calm_env = demo_env\<lparr>te_body := Inr\<rparr>"

lemma calm_begun: "begun calm_env E w = begun demo_env E w"
  by (simp add: begun_def calm_env_def demo_env_def)

theorem destructor_joins_witness:
  "\<exists>s. lt_run calm_env (child_starts @ starter_takes @ [EnterLoop, Round, Dtor, TestLoop, QuitLoop,
       LeaveLoop, ChildRelock, ClearLoop, ChildRelease, DestroyLoop, Join])
       (lt_init demo_thread empty_world) = Some s \<and>
     lt_starter s = SGone \<and> th_joined (et_thread (lt_object s))"
proof -
  obtain u and L :: "nat event_loop" where u: "begun demo_env demo_thread empty_world = Inr u"
      "loops u 3 = Some L" "loop_inv demo_os 3 u" "24 \<in> loop_owned 3 u" "el_wakeupChannel L = 24"
    by (rule demo_begun)
  let ?as = "[EnterLoop, Round, Dtor, TestLoop, QuitLoop, LeaveLoop, ChildRelock, ClearLoop,
    ChildRelease, DestroyLoop, Join]"
  let ?got = "\<lparr>lt_starter = SReturned 3, lt_child = TEnter, lt_sem = 0, lt_mutex = None, lt_object =
    (started_object calm_env demo_thread)\<lparr>et_loop := Some 3\<rparr>, lt_world = u\<rparr>"
  have v: "te_loop calm_env = 3" by (simp add: calm_env_def demo_env_def)
  have start: "lt_run calm_env child_starts (lt_init demo_thread empty_world) =
      Some (?got\<lparr>lt_starter := SLock\<rparr>)"
    using child_starts_run [of demo_thread calm_env empty_world u] u(1) by (simp add: calm_begun v)
  have "lt_run calm_env starter_takes (?got\<lparr>lt_starter := SLock\<rparr>) = Some ?got"
    using starter_takes_run [of "?got\<lparr>lt_starter := SLock\<rparr>" 3 calm_env] by simp
  note got = lt.thence [OF start this]
  let ?w = "put_loop 3 (L\<lparr>el_looping := True, el_quit := False\<rparr>) u"
  let ?in = "?got\<lparr>lt_child := TLoop, lt_world := ?w\<rparr>"
  have os: "te_os calm_env = demo_os" "te_tid calm_env = 5" "te_body calm_env = Inr"
    by (simp_all add: calm_env_def demo_env_def)
  have "in_thread 5 Inr x = Inr x" for x :: "nat lworld" by (simp add: in_thread_def)
  with u(2) have entered: "lt_run calm_env [EnterLoop, Round] ?got = Some ?in"
    by (simp add: v os in_thread_put looping_def child_does_def)
  have "\<exists>s. lt_run calm_env dtor_schedule ?in = Some s \<and> lt_starter s = SGone \<and> lt_child s = TEnded \<and>
      lt_live s \<and> lworld.more (lt_world s) = lworld.more (lt_world ?in) \<and>
      loops (lt_world s) (te_loop calm_env) = None"
    by (rule dtor_between_rounds [where L = "L\<lparr>el_looping := True, el_quit := False\<rparr>"])
      (use u in \<open>simp_all add: v os loop_owned_def loop_inv_flags\<close>)
  with lt.thence [OF entered] obtain s where
      s: "lt_run calm_env ?as ?got = Some s" "lt_live s" "lt_starter s = SGone"
    by (auto simp: dtor_schedule_def)
  have "runs_on calm_env" by (simp add: runs_on_def calm_env_def)
  from destructor_joins [OF lt.thence [OF got s(1)] demo_thread_simps(1) this s(2)]
    lt.thence [OF got s(1)] s(3)
  show ?thesis by simp
qed

end
