(* ===== verification/ByteFifo.thy ===== *)
theory ByteFifo
  imports Prelude
begin

text \<open>
  The contract between a byte buffer and the connection that uses it: bytes leave in the order
  they came, none is lost or invented. The locale \<open>byte_fifo\<close> names what a client calls
  (append, take out a prefix or everything) and what the provider promises; its lemma is the client's
  side of the argument, proved once for every provider.
\<close>

text \<open>
  A client's script: bytes put in at the end, prefixes of a given length taken out at the front, or
  everything. \<open>queue_run\<close> is what it does to a list: the pieces taken out, and what is left.
\<close>

datatype fifo_op = Put bytes | Take nat | TakeAll

fun queue_run :: "fifo_op list \<Rightarrow> bytes \<Rightarrow> bytes list \<times> bytes" where
  "queue_run [] q = ([], q)"
| "queue_run (Put d # ops) q = queue_run ops (q @ d)"
| "queue_run (Take n # ops) q = (let (out, q') = queue_run ops (drop n q) in (take n q # out, q'))"
| "queue_run (TakeAll # ops) q = (let (out, q') = queue_run ops [] in (q # out, q'))"

fun puts :: "fifo_op list \<Rightarrow> bytes" where
  "puts [] = []"
| "puts (Put d # ops) = d @ puts ops"
| "puts (_ # ops) = puts ops"

text \<open>Nobody asks for more than there is: the precondition of taking a prefix.\<close>

fun asks_within :: "nat \<Rightarrow> fifo_op list \<Rightarrow> bool" where
  "asks_within k [] = True"
| "asks_within k (Put d # ops) = asks_within (k + length d) ops"
| "asks_within k (Take n # ops) = (n \<le> k \<and> asks_within (k - n) ops)"
| "asks_within k (TakeAll # ops) = asks_within 0 ops"

lemma queue_run_stream: "concat (fst (queue_run ops q)) @ snd (queue_run ops q) = q @ puts ops"
proof (induction ops q rule: queue_run.induct)
  case (3 n ops q)
  then show ?case
    by (auto simp: split_def Let_def)
qed (auto simp: split_def Let_def)

text \<open>Running a script over given operations, collecting the pieces taken out.\<close>

fun serve ::
  "(bytes \<Rightarrow> 'q \<Rightarrow> failure + 'q) \<Rightarrow> (nat \<Rightarrow> 'q \<Rightarrow> failure + (bytes \<times> 'q)) \<Rightarrow> ('q \<Rightarrow> failure + (bytes \<times> 'q))
     \<Rightarrow> fifo_op list \<Rightarrow> 'q \<Rightarrow> failure + (bytes list \<times> 'q)" where
  "serve put get get_all [] q = Inr ([], q)"
| "serve put get get_all (Put d # ops) q = bnd (put d q) (serve put get get_all ops)"
| "serve put get get_all (Take n # ops) q =
     bnd (get n q) (\<lambda>(d, q). bnd (serve put get get_all ops q) (\<lambda>(out, q). Inr (d # out, q)))"
| "serve put get get_all (TakeAll # ops) q =
     bnd (get_all q) (\<lambda>(d, q). bnd (serve put get get_all ops q) (\<lambda>(out, q). Inr (d # out, q)))"

locale byte_fifo =
  fixes inv :: "'q \<Rightarrow> bool"
    and content :: "'q \<Rightarrow> bytes"
    and footprint :: "'q \<Rightarrow> nat"
    and limit :: nat
    and put :: "bytes \<Rightarrow> 'q \<Rightarrow> failure + 'q"
    and get :: "nat \<Rightarrow> 'q \<Rightarrow> failure + (bytes \<times> 'q)"
    and get_all :: "'q \<Rightarrow> failure + (bytes \<times> 'q)"
  assumes put_law: "inv q \<Longrightarrow> footprint q + length d < limit \<Longrightarrow>
      \<exists>q'. put d q = Inr q' \<and> inv q' \<and> content q' = content q @ d \<and>
        footprint q' \<le> footprint q + length d"
    and get_law: "inv q \<Longrightarrow> n \<le> length (content q) \<Longrightarrow>
      \<exists>q'. get n q = Inr (take n (content q), q') \<and> inv q' \<and>
        content q' = drop n (content q) \<and> footprint q' = footprint q"
    and get_all_law: "inv q \<Longrightarrow>
      \<exists>q'. get_all q = Inr (content q, q') \<and> inv q' \<and> content q' = [] \<and> footprint q' = footprint q"
begin

text \<open>
  A script whose bytes fit and that never asks for more than there is runs to its end, takes out the
  pieces the list gives, and leaves what the list leaves.
\<close>

lemma serve_refines:
  "inv q \<Longrightarrow> footprint q + length (puts ops) < limit \<Longrightarrow> asks_within (length (content q)) ops \<Longrightarrow>
     \<exists>q'. serve put get get_all ops q = Inr (fst (queue_run ops (content q)), q') \<and> inv q' \<and>
       content q' = snd (queue_run ops (content q)) \<and>
       footprint q' \<le> footprint q + length (puts ops)"
proof (induction ops arbitrary: q)
  case Nil
  then show ?case by simp
next
  case (Cons op ops)
  show ?case
  proof (cases op)
    case (Put d)
    with Cons.prems obtain q1 where q1: "put d q = Inr q1" "inv q1" "content q1 = content q @ d"
        "footprint q1 \<le> footprint q + length d"
      using put_law [of q d] by auto
    with Cons.prems Put have "footprint q1 + length (puts ops) < limit"
        "asks_within (length (content q1)) ops"
      by simp_all
    from Cons.IH [OF q1(2) this] q1 Put show ?thesis by fastforce
  next
    case (Take n)
    with Cons.prems obtain q1 where q1: "get n q = Inr (take n (content q), q1)" "inv q1"
        "content q1 = drop n (content q)" "footprint q1 = footprint q"
      using get_law [of q n] by auto
    with Cons.prems Take have "footprint q1 + length (puts ops) < limit"
        "asks_within (length (content q1)) ops"
      by simp_all
    from Cons.IH [OF q1(2) this] q1 Take show ?thesis by (auto simp: split_def Let_def)
  next
    case TakeAll
    with Cons.prems obtain q1 where q1: "get_all q = Inr (content q, q1)" "inv q1"
        "content q1 = []" "footprint q1 = footprint q"
      using get_all_law [of q] by auto
    with Cons.prems TakeAll have "footprint q1 + length (puts ops) < limit"
        "asks_within (length (content q1)) ops"
      by simp_all
    from Cons.IH [OF q1(2) this] q1 TakeAll show ?thesis by (auto simp: split_def Let_def)
  qed
qed

end

end
