(* ===== verification/Buffer.thy ===== *)
theory Buffer
  imports Kernel ByteFifo
begin

text \<open>
  The byte buffer of \<open>src/src/Buffer.h\<close> and \<open>src/src/Buffer.cc\<close>: a vector of bytes
  with a read and a write index, kept as 64-bit words as in the source. The abstraction
  \<open>readable\<close> is the list of bytes between the two indices; the lemmas show that, under the
  index invariant, \<open>append\<close> and \<open>readFd\<close> add at its end, \<open>retrieve\<close> removes
  at its front, no operation leaves the vector's bounds, and the only failure is the
  \<open>std::length_error\<close> of a vector that would exceed its maximal size.
\<close>

unbundle bit_operations_syntax

section \<open>State\<close>

record buffer =
  buffer_vec :: bytes
  readerIndex :: size_t
  writerIndex :: size_t

definition kCheapPrepend :: size_t where
  "kCheapPrepend = 8"

definition kInitialSize :: size_t where
  "kInitialSize = 1024"

text \<open>The constructor takes a size and does not use it: every buffer starts with the default size.\<close>

definition Buffer_ctor :: "size_t \<Rightarrow> buffer" where
  "Buffer_ctor initialSize =
     \<lparr>buffer_vec = replicate (unat (kCheapPrepend + kInitialSize)) 0,
      readerIndex = kCheapPrepend,
      writerIndex = kCheapPrepend\<rparr>"

section \<open>Operations\<close>

definition buffer_size :: "buffer \<Rightarrow> size_t" where
  "buffer_size b = of_nat (length (buffer_vec b))"

definition readableBytes :: "buffer \<Rightarrow> size_t" where
  "readableBytes b = writerIndex b - readerIndex b"

definition wirterableBytes :: "buffer \<Rightarrow> size_t" where
  "wirterableBytes b = buffer_size b - writerIndex b"

definition prependableBytes :: "buffer \<Rightarrow> size_t" where
  "prependableBytes b = readerIndex b"

definition retrieveAll :: "buffer \<Rightarrow> buffer" where
  "retrieveAll b = b\<lparr>readerIndex := kCheapPrepend, writerIndex := kCheapPrepend\<rparr>"

definition retrieve :: "size_t \<Rightarrow> buffer \<Rightarrow> buffer" where
  "retrieve len b =
     (if len < readableBytes b then b\<lparr>readerIndex := readerIndex b + len\<rparr>
      else retrieveAll b)"

text \<open>
  Reading \<open>len\<close> bytes from \<open>peek()\<close>, as the \<open>std::string\<close> constructor and
  \<open>write(2)\<close> do; the read must stay inside the vector, not inside the readable part.
\<close>

definition peek_bytes :: "size_t \<Rightarrow> buffer \<Rightarrow> failure + bytes" where
  "peek_bytes len b =
     (if unat (readerIndex b) + unat len \<le> length (buffer_vec b)
      then Inr (take (unat len) (drop (unat (readerIndex b)) (buffer_vec b)))
      else Inl OutOfBounds)"

definition retrieveAsString :: "size_t \<Rightarrow> buffer \<Rightarrow> failure + (bytes \<times> buffer)" where
  "retrieveAsString len b =
     bnd (peek_bytes len b) (\<lambda>result. Inr (result, retrieve len b))"

definition retrieveAllAsString :: "buffer \<Rightarrow> failure + (bytes \<times> buffer)" where
  "retrieveAllAsString b = retrieveAsString (readableBytes b) b"

definition makeSpace :: "size_t \<Rightarrow> buffer \<Rightarrow> failure + buffer" where
  "makeSpace len b =
     (if wirterableBytes b + (prependableBytes b - kCheapPrepend) < len
      then bnd (vec_resize (writerIndex b + len) (buffer_vec b))
             (\<lambda>xs. Inr (b\<lparr>buffer_vec := xs\<rparr>))
      else
        (let readable = readableBytes b in
         bnd (std_copy_within (buffer_vec b) (unat (readerIndex b)) (unat (writerIndex b))
                (unat kCheapPrepend))
           (\<lambda>xs. Inr (b\<lparr>buffer_vec := xs, readerIndex := kCheapPrepend,
                        writerIndex := kCheapPrepend + readable\<rparr>))))"

definition ensureWriteableBytes :: "size_t \<Rightarrow> buffer \<Rightarrow> failure + buffer" where
  "ensureWriteableBytes len b = (if wirterableBytes b < len then makeSpace len b else Inr b)"

text \<open>
  \<open>append(data, len)\<close>: \<open>data\<close> is the array the pointer points into, from the pointer on.
\<close>

definition append_buf :: "bytes \<Rightarrow> size_t \<Rightarrow> buffer \<Rightarrow> failure + buffer" where
  "append_buf data len b =
     bnd (ensureWriteableBytes len b) (\<lambda>b.
     if length data < unat len then Inl OutOfBounds
     else bnd (std_copy_in (take (unat len) data) (buffer_vec b) (unat (writerIndex b)))
            (\<lambda>xs. Inr (b\<lparr>buffer_vec := xs, writerIndex := writerIndex b + len\<rparr>)))"

text \<open>
  \<open>readFd\<close> reads into the writable part and, when that is smaller than 64 KiB, into a stack
  array after it. What lands in the stack array is appended. The result is \<open>Inl errno\<close> for
  a negative return value (the \<open>savedErrno\<close> out parameter) and the byte count otherwise.
\<close>

definition extrabuf_size :: nat where
  "extrabuf_size = 65536"

definition read_iov :: "buffer \<Rightarrow> size_t list" where
  "read_iov b =
     (if wirterableBytes b < of_nat extrabuf_size
      then [wirterableBytes b, of_nat extrabuf_size] else [wirterableBytes b])"

definition readFd ::
  "os \<Rightarrow> c_int \<Rightarrow> buffer \<Rightarrow> 'a kworld_scheme
     \<Rightarrow> failure + ((errno + size_t) \<times> buffer \<times> 'a kworld_scheme)" where
  "readFd os fd b w =
     (let writeable = wirterableBytes b;
          (r, w) = sys_readv os fd (read_iov b) w
      in case r of
           Inl savedErrno \<Rightarrow> Inr (Inl savedErrno, b, w)
         | Inr d \<Rightarrow>
             (let n = of_nat (length d);
                  direct = take (unat writeable) d;
                  extrabuf = drop (unat writeable) d
                    @ replicate (extrabuf_size - (length d - unat writeable)) 0
              in bnd (std_copy_in direct (buffer_vec b) (unat (writerIndex b))) (\<lambda>xs.
                 let b = b\<lparr>buffer_vec := xs\<rparr> in
                 if n \<le> writeable
                 then Inr (Inr n, b\<lparr>writerIndex := writerIndex b + n\<rparr>, w)
                 else bnd (append_buf extrabuf (n - writeable) (b\<lparr>writerIndex := buffer_size b\<rparr>))
                        (\<lambda>b. Inr (Inr n, b, w)))))"

text \<open>\<open>writeFd\<close> offers all readable bytes to the descriptor and consumes none of them.\<close>

definition writeFd ::
  "os \<Rightarrow> c_int \<Rightarrow> buffer \<Rightarrow> 'a kworld_scheme
     \<Rightarrow> failure + ((errno + nat) \<times> 'a kworld_scheme)" where
  "writeFd os fd b w =
     bnd (peek_bytes (readableBytes b) b) (\<lambda>d. Inr (sys_write os fd d w))"

section \<open>Invariant and abstraction\<close>

definition buffer_inv :: "buffer \<Rightarrow> bool" where
  "buffer_inv b \<longleftrightarrow>
     kCheapPrepend \<le> readerIndex b \<and> readerIndex b \<le> writerIndex b \<and>
     unat (writerIndex b) \<le> length (buffer_vec b) \<and> length (buffer_vec b) < 2 ^ 63"

definition readable :: "buffer \<Rightarrow> bytes" where
  "readable b =
     take (unat (writerIndex b) - unat (readerIndex b))
       (drop (unat (readerIndex b)) (buffer_vec b))"

text \<open>The invariant and the sizes over natural numbers.\<close>

lemma unat_kCheapPrepend [simp]: "unat kCheapPrepend = 8"
  by (simp add: kCheapPrepend_def)

lemma buffer_inv_nat:
  "buffer_inv b \<longleftrightarrow>
     8 \<le> unat (readerIndex b) \<and> unat (readerIndex b) \<le> unat (writerIndex b) \<and>
     unat (writerIndex b) \<le> length (buffer_vec b) \<and> length (buffer_vec b) < 2 ^ 63"
  by (simp add: buffer_inv_def word_le_nat_alt)

lemma unat_readableBytes:
  "buffer_inv b \<Longrightarrow> unat (readableBytes b) = unat (writerIndex b) - unat (readerIndex b)"
  by (simp add: buffer_inv_def readableBytes_def unat_diff)

lemma unat_buffer_size: "buffer_inv b \<Longrightarrow> unat (buffer_size b) = length (buffer_vec b)"
  by (simp add: buffer_inv_nat buffer_size_def unat_of_nat_size)

lemma unat_wirterableBytes:
  assumes "buffer_inv b"
  shows "unat (wirterableBytes b) = length (buffer_vec b) - unat (writerIndex b)"
proof -
  have "writerIndex b \<le> buffer_size b"
    using assms by (simp add: word_le_nat_alt unat_buffer_size) (simp add: buffer_inv_nat)
  then show ?thesis using assms by (simp add: wirterableBytes_def unat_diff unat_buffer_size)
qed

lemma unat_headroom:
  "buffer_inv b \<Longrightarrow>
     unat (prependableBytes b - kCheapPrepend) = unat (readerIndex b) - 8"
  by (simp add: buffer_inv_def prependableBytes_def unat_diff)

lemma unat_room:
  assumes "buffer_inv b"
  shows "unat (wirterableBytes b + (prependableBytes b - kCheapPrepend)) =
    (length (buffer_vec b) - unat (writerIndex b)) + (unat (readerIndex b) - 8)"
proof -
  have "(length (buffer_vec b) - unat (writerIndex b)) + (unat (readerIndex b) - 8) < 2 ^ 64"
    using assms by (auto simp: buffer_inv_nat)
  then show ?thesis
    using assms by (subst unat_sum) (simp_all add: unat_wirterableBytes unat_headroom)
qed

lemma readable_slice:
  "readable b = drop (unat (readerIndex b)) (take (unat (writerIndex b)) (buffer_vec b))"
  by (simp add: readable_def drop_take)

lemma length_readable:
  "buffer_inv b \<Longrightarrow> length (readable b) = unat (writerIndex b) - unat (readerIndex b)"
  by (auto simp: readable_def buffer_inv_nat)

lemma length_readable_bytes: "buffer_inv b \<Longrightarrow> length (readable b) = unat (readableBytes b)"
  by (simp add: length_readable unat_readableBytes)

lemma length_readable_bound: "buffer_inv b \<Longrightarrow> length (readable b) < 2 ^ 63"
  by (auto simp: length_readable buffer_inv_nat)

lemma readableBytes_0: "buffer_inv b \<Longrightarrow> readableBytes b = 0 \<longleftrightarrow> readable b = []"
  by (metis length_0_conv length_readable_bytes unat_0 unat_eq_zero)

lemmas buffer_nat_simps = unat_readableBytes unat_buffer_size unat_wirterableBytes unat_headroom
  unat_room length_readable

section \<open>Taking bytes out\<close>

lemma Buffer_ctor_inv [simp, intro]: "buffer_inv (Buffer_ctor n)"
  by (simp add: buffer_inv_def Buffer_ctor_def kCheapPrepend_def kInitialSize_def)

lemma Buffer_ctor_readable [simp]: "readable (Buffer_ctor n) = []"
  by (simp add: readable_def Buffer_ctor_def)

lemma retrieveAll_inv: "buffer_inv b \<Longrightarrow> buffer_inv (retrieveAll b)"
  by (auto simp: buffer_inv_nat retrieveAll_def)

lemma retrieveAll_readable [simp]: "readable (retrieveAll b) = []"
  by (simp add: readable_def retrieveAll_def)

lemma retrieve_part:
  assumes inv: "buffer_inv b" and len: "len < readableBytes b"
  shows "unat (readerIndex b + len) = unat (readerIndex b) + unat len"
    and "unat (readerIndex b) + unat len < unat (writerIndex b)"
proof -
  from len have "unat len < unat (readableBytes b)" by (simp add: word_less_nat_alt)
  with inv show *: "unat (readerIndex b) + unat len < unat (writerIndex b)"
    by (auto simp: unat_readableBytes)
  from inv have "unat (writerIndex b) < 2 ^ 63" by (auto simp: buffer_inv_nat)
  with * show "unat (readerIndex b + len) = unat (readerIndex b) + unat len"
    by (intro unat_sum) auto
qed

lemma retrieve_inv: "buffer_inv b \<Longrightarrow> buffer_inv (retrieve len b)"
  using retrieve_part [of b len]
  by (auto simp: retrieve_def retrieveAll_inv) (auto simp: buffer_inv_nat)

lemma retrieve_readable:
  assumes "buffer_inv b"
  shows "readable (retrieve len b) = drop (unat len) (readable b)"
proof (cases "len < readableBytes b")
  case True
  with assms show ?thesis
    by (simp add: retrieve_def readable_def retrieve_part drop_take add.commute [of "unat len"])
next
  case False
  then have "length (readable b) \<le> unat len"
    using assms by (simp add: length_readable_bytes word_less_nat_alt)
  with False show ?thesis by (simp add: retrieve_def)
qed

lemma peek_bytes_readable:
  "buffer_inv b \<Longrightarrow> peek_bytes (readableBytes b) b = Inr (readable b)"
  by (auto simp: peek_bytes_def readable_def unat_readableBytes buffer_inv_nat)

lemma retrieveAsString_prefix:
  assumes "buffer_inv b" and "unat len \<le> length (readable b)"
  shows "retrieveAsString len b = Inr (take (unat len) (readable b), retrieve len b)"
proof -
  have "unat (readerIndex b) + unat len \<le> unat (writerIndex b)"
      and "unat (writerIndex b) \<le> length (buffer_vec b)"
    using assms by (auto simp: length_readable buffer_inv_nat)
  then show ?thesis
    by (simp add: retrieveAsString_def peek_bytes_def readable_def min_def)
qed

lemma retrieveAllAsString_eq:
  "buffer_inv b \<Longrightarrow> retrieveAllAsString b = Inr (readable b, retrieveAll b)"
  by (simp add: retrieveAllAsString_def retrieveAsString_def peek_bytes_readable retrieve_def)

section \<open>Making room and appending\<close>

lemma makeSpace_grow:
  assumes inv: "buffer_inv b"
    and small: "wirterableBytes b + (prependableBytes b - kCheapPrepend) < len"
    and fits: "unat (writerIndex b) + unat len < 2 ^ 63"
  shows "\<exists>z. makeSpace len b = Inr (b\<lparr>buffer_vec := buffer_vec b @ z\<rparr>) \<and>
      length (buffer_vec b @ z) = unat (writerIndex b) + unat len"
proof -
  have w: "unat (writerIndex b + len) = unat (writerIndex b) + unat len"
    using fits by (intro unat_sum) simp
  have "length (buffer_vec b) \<le> unat (writerIndex b) + unat len"
    using small inv by (simp add: word_less_nat_alt unat_room)
  with w fits small show ?thesis
    by (intro exI [of _ "replicate (unat (writerIndex b) + unat len - length (buffer_vec b)) 0"])
      (simp add: makeSpace_def vec_resize_grow)
qed

lemma makeSpace_compact:
  assumes inv: "buffer_inv b"
    and room: "\<not> wirterableBytes b + (prependableBytes b - kCheapPrepend) < len"
  shows "makeSpace len b = Inr (b\<lparr>
      buffer_vec := take 8 (buffer_vec b) @ readable b @ drop (8 + length (readable b)) (buffer_vec b),
      readerIndex := kCheapPrepend, writerIndex := kCheapPrepend + readableBytes b\<rparr>)"
proof -
  let ?r = "unat (readerIndex b)" and ?w = "unat (writerIndex b)"
  have bounds: "8 \<le> ?r" "?r \<le> ?w" "?w \<le> length (buffer_vec b)"
    using inv by (simp_all add: buffer_inv_nat)
  then have "std_copy_within (buffer_vec b) ?r ?w 8 =
      Inr (take 8 (buffer_vec b) @ readable b @ drop (8 + (?w - ?r)) (buffer_vec b))"
    by (simp add: std_copy_within_def copy_within_eq readable_def)
  with room inv show ?thesis by (simp add: makeSpace_def Let_def length_readable)
qed

lemma compacted:
  assumes inv: "buffer_inv b"
  defines "c \<equiv> b\<lparr>
      buffer_vec := take 8 (buffer_vec b) @ readable b @ drop (8 + length (readable b)) (buffer_vec b),
      readerIndex := kCheapPrepend, writerIndex := kCheapPrepend + readableBytes b\<rparr>"
  shows "buffer_inv c" and "readable c = readable b"
    and "unat (writerIndex c) = 8 + length (readable b)"
    and "length (buffer_vec c) = length (buffer_vec b)"
proof -
  have bounds: "8 \<le> unat (readerIndex b)" "unat (readerIndex b) \<le> unat (writerIndex b)"
      "unat (writerIndex b) \<le> length (buffer_vec b)" "length (buffer_vec b) < 2 ^ 63"
    using inv by (simp_all add: buffer_inv_nat)
  have len: "8 + length (readable b) \<le> length (buffer_vec b)"
    using bounds inv by (simp add: length_readable)
  show w: "unat (writerIndex c) = 8 + length (readable b)"
    using len bounds inv
    by (simp add: c_def length_readable_bytes) (subst unat_sum, simp_all)
  show vec: "length (buffer_vec c) = length (buffer_vec b)"
    using len by (simp add: c_def)
  show "buffer_inv c"
    unfolding buffer_inv_nat w vec using len bounds by (simp add: c_def)
  have "readerIndex c = kCheapPrepend" by (simp add: c_def)
  moreover have "take (length (readable b)) (drop 8 (buffer_vec c)) = readable b"
    using len by (simp add: c_def)
  ultimately show "readable c = readable b"
    by (simp add: readable_def [of c] w)
qed

text \<open>
  When a request can be met: the vector, grown to hold it behind the content, stays below its
  maximal size, or content and request fit into the vector as it is.
\<close>

definition append_fits :: "buffer \<Rightarrow> size_t \<Rightarrow> bool" where
  "append_fits b len \<longleftrightarrow>
     unat (writerIndex b) + unat len < 2 ^ 63 \<or>
     8 + length (readable b) + unat len \<le> length (buffer_vec b)"

text \<open>
  After \<open>ensureWriteableBytes\<close> there is room, the content is what it was, and the vector
  has grown only if the content and the request did not fit into it.
\<close>

lemma ensureWriteableBytes_ok:
  assumes inv: "buffer_inv b" and fits: "append_fits b len"
  shows "\<exists>c. ensureWriteableBytes len b = Inr c \<and> buffer_inv c \<and> readable c = readable b \<and>
      unat (writerIndex c) + unat len \<le> length (buffer_vec c) \<and>
      length (buffer_vec c) \<le> max (length (buffer_vec b)) (unat (writerIndex b) + unat len)"
proof (cases "wirterableBytes b < len")
  case False
  then have "unat (writerIndex b) + unat len \<le> length (buffer_vec b)"
    using inv by (auto simp: word_less_nat_alt unat_wirterableBytes buffer_inv_nat)
  with False inv show ?thesis by (simp add: ensureWriteableBytes_def)
next
  case True
  show ?thesis
  proof (cases "wirterableBytes b + (prependableBytes b - kCheapPrepend) < len")
    case grow: True
    then have "\<not> 8 + length (readable b) + unat len \<le> length (buffer_vec b)"
      using inv by (auto simp: word_less_nat_alt unat_room length_readable buffer_inv_nat)
    with fits have small: "unat (writerIndex b) + unat len < 2 ^ 63"
      by (simp add: append_fits_def)
    from makeSpace_grow [OF inv grow small] obtain z where
        z: "makeSpace len b = Inr (b\<lparr>buffer_vec := buffer_vec b @ z\<rparr>)"
          "length (buffer_vec b @ z) = unat (writerIndex b) + unat len"
      by blast
    moreover have "buffer_inv (b\<lparr>buffer_vec := buffer_vec b @ z\<rparr>)"
      using inv small z(2) by (auto simp: buffer_inv_nat)
    moreover have "readable (b\<lparr>buffer_vec := buffer_vec b @ z\<rparr>) = readable b"
      using inv by (auto simp: readable_def buffer_inv_nat)
    ultimately show ?thesis using True by (auto simp: ensureWriteableBytes_def)
  next
    case room: False
    let ?c = "b\<lparr>
      buffer_vec := take 8 (buffer_vec b) @ readable b @ drop (8 + length (readable b)) (buffer_vec b),
      readerIndex := kCheapPrepend, writerIndex := kCheapPrepend + readableBytes b\<rparr>"
    have "unat len \<le> (length (buffer_vec b) - unat (writerIndex b)) + (unat (readerIndex b) - 8)"
      using room inv by (simp add: word_less_nat_alt unat_room)
    then have "8 + length (readable b) + unat len \<le> length (buffer_vec b)"
      using inv by (auto simp: length_readable buffer_inv_nat)
    with compacted [OF inv] makeSpace_compact [OF inv room] True show ?thesis
      by (simp add: ensureWriteableBytes_def)
  qed
qed

lemma append_in_place:
  assumes inv: "buffer_inv c" and len: "unat len \<le> length data"
    and room: "unat (writerIndex c) + unat len \<le> length (buffer_vec c)"
  defines "c' \<equiv> c\<lparr>buffer_vec := copy_in (take (unat len) data) (buffer_vec c) (unat (writerIndex c)),
      writerIndex := writerIndex c + len\<rparr>"
  shows "std_copy_in (take (unat len) data) (buffer_vec c) (unat (writerIndex c)) =
      Inr (buffer_vec c')"
    and "buffer_inv c'" and "readable c' = readable c @ take (unat len) data"
    and "length (buffer_vec c') = length (buffer_vec c)"
proof -
  have bounds: "8 \<le> unat (readerIndex c)" "unat (readerIndex c) \<le> unat (writerIndex c)"
      "unat (writerIndex c) \<le> length (buffer_vec c)" "length (buffer_vec c) < 2 ^ 63"
    using inv by (simp_all add: buffer_inv_nat)
  have w: "unat (writerIndex c') = unat (writerIndex c) + unat len"
    using room bounds by (simp add: c'_def) (subst unat_sum, simp_all)
  show vec: "length (buffer_vec c') = length (buffer_vec c)" by (simp add: c'_def)
  show "std_copy_in (take (unat len) data) (buffer_vec c) (unat (writerIndex c)) =
      Inr (buffer_vec c')"
    using room len by (simp add: std_copy_in_def c'_def)
  show "buffer_inv c'"
    unfolding buffer_inv_nat vec w using bounds room by (simp add: c'_def)
  have "buffer_vec c' = take (unat (writerIndex c)) (buffer_vec c) @ take (unat len) data
      @ drop (unat (writerIndex c) + unat len) (buffer_vec c)"
    using room len by (simp add: c'_def copy_in_eq)
  moreover have "readerIndex c' = readerIndex c" by (simp add: c'_def)
  ultimately show "readable c' = readable c @ take (unat len) data"
    using bounds room len by (simp add: readable_slice w)
qed

lemma append_ok:
  assumes inv: "buffer_inv b" and len: "unat len \<le> length data"
    and fits: "append_fits b len"
  shows "\<exists>b'. append_buf data len b = Inr b' \<and> buffer_inv b' \<and>
      readable b' = readable b @ take (unat len) data \<and>
      length (buffer_vec b') \<le> max (length (buffer_vec b)) (unat (writerIndex b) + unat len)"
proof -
  obtain c where c: "ensureWriteableBytes len b = Inr c" "buffer_inv c" "readable c = readable b"
      "unat (writerIndex c) + unat len \<le> length (buffer_vec c)"
      "length (buffer_vec c) \<le> max (length (buffer_vec b)) (unat (writerIndex b) + unat len)"
    using ensureWriteableBytes_ok [OF inv fits] by blast
  note in_place = append_in_place [OF c(2) len c(4)]
  from c(1) in_place(1) len have "append_buf data len b =
      Inr (c\<lparr>buffer_vec := copy_in (take (unat len) data) (buffer_vec c) (unat (writerIndex c)),
        writerIndex := writerIndex c + len\<rparr>)"
    by (simp add: append_buf_def)
  with in_place(2-4) c(3,5) show ?thesis by simp
qed

text \<open>
  A request that cannot be met fails: with \<open>std::length_error\<close> for every length an array
  can have. (A length above \<open>2 ^ 63\<close> would wrap the sum of index and length around.)
\<close>

lemma not_fits_guards:
  assumes inv: "buffer_inv b" and "\<not> append_fits b len"
  shows "wirterableBytes b < len"
    and "wirterableBytes b + (prependableBytes b - kCheapPrepend) < len"
    and "2 ^ 63 \<le> unat (writerIndex b) + unat len"
proof -
  have bounds: "8 \<le> unat (readerIndex b)" "unat (readerIndex b) \<le> unat (writerIndex b)"
      "unat (writerIndex b) \<le> length (buffer_vec b)" "length (buffer_vec b) < 2 ^ 63"
    using inv by (simp_all add: buffer_inv_nat)
  with assms show "wirterableBytes b < len"
      and "wirterableBytes b + (prependableBytes b - kCheapPrepend) < len"
      and "2 ^ 63 \<le> unat (writerIndex b) + unat len"
    by (simp_all add: append_fits_def word_less_nat_alt unat_room unat_wirterableBytes
        length_readable) arith+
qed

lemma append_refused:
  assumes inv: "buffer_inv b" and nofit: "\<not> append_fits b len" and len: "unat len < 2 ^ 63"
  shows "append_buf data len b = Inl LengthError"
proof -
  have "unat (writerIndex b) < 2 ^ 63" using inv by (simp add: buffer_inv_nat)
  then have "unat (writerIndex b + len) = unat (writerIndex b) + unat len"
    using len by (intro unat_sum) simp
  with not_fits_guards [OF inv nofit] show ?thesis
    by (simp add: append_buf_def ensureWriteableBytes_def makeSpace_def vec_resize_refuses)
qed

lemma append_wraps:
  assumes inv: "buffer_inv b" and nofit: "\<not> append_fits b len" and len: "2 ^ 63 \<le> unat len"
  shows "append_buf data len b \<noteq> Inr b'"
proof
  assume "append_buf data len b = Inr b'"
  then obtain c xs where c: "ensureWriteableBytes len b = Inr c"
    and data: "unat len \<le> length data"
    and room: "unat (writerIndex c) + unat len \<le> length (buffer_vec c)"
    by (auto simp: append_buf_def std_copy_in_def min_def split: if_splits)
  from c not_fits_guards [OF inv nofit]
  have "vec_resize (writerIndex b + len) (buffer_vec b) = Inr (buffer_vec c)"
    by (auto simp: ensureWriteableBytes_def makeSpace_def)
  then have "length (buffer_vec c) < 2 ^ 63" by (metis vec_resize_length)
  with room len show False by simp
qed

text \<open>Hence a successful append always did what it should, whatever the arguments were.\<close>

lemma append_Inr:
  assumes inv: "buffer_inv b" and app: "append_buf data len b = Inr b'"
  shows "buffer_inv b'" and "readable b' = readable b @ take (unat len) data"
    and "unat len \<le> length data"
proof -
  have fits: "append_fits b len"
    using append_refused [OF inv] append_wraps [OF inv] app
    by (metis Inl_Inr_False not_le)
  then show len: "unat len \<le> length data"
    using app ensureWriteableBytes_ok [OF inv fits]
    by (auto simp: append_buf_def split: if_splits)
  from append_ok [OF inv len fits] app
  show "buffer_inv b'" and "readable b' = readable b @ take (unat len) data"
    by auto
qed

section \<open>Reading from and writing to a descriptor\<close>

text \<open>
  The bytes \<open>readv\<close> delivered, first those that went straight into the vector, then those
  that went through the stack array, end up at the end of the content.
\<close>

lemma readFd_error:
  "os_readv os (trace w) fd (read_iov b) = Inl e \<Longrightarrow>
     readFd os fd b w = Inr (Inl e, b, emit (EvReadv fd (read_iov b) (Inl e)) w)"
  by (simp add: readFd_def sys_readv_def Let_def)

lemma read_iov_capacity:
  assumes "length d \<le> sum_list (map unat (read_iov b))" and "unat (wirterableBytes b) < length d"
  shows "length d \<le> unat (wirterableBytes b) + extrabuf_size"
  using assms by (auto simp: read_iov_def extrabuf_size_def split: if_splits)

lemma reply_length:
  assumes os: "readv_contract os" and inv: "buffer_inv b"
    and reply: "os_readv os h fd (read_iov b) = Inr d"
  shows "length d < 2 ^ 64"
proof -
  have "unat (wirterableBytes b) < 2 ^ 63"
    using inv by (auto simp: unat_wirterableBytes buffer_inv_nat)
  moreover have "length d \<le> unat (wirterableBytes b) + extrabuf_size"
    using readv_contractD [OF os reply] read_iov_capacity [of d b]
    by (cases "unat (wirterableBytes b) < length d") auto
  ultimately show ?thesis by (simp add: extrabuf_size_def)
qed

text \<open>What fits goes into the vector directly and becomes readable when the index moves.\<close>

lemma store_direct:
  assumes inv: "buffer_inv b" and d: "length d \<le> unat (wirterableBytes b)"
  defines "b' \<equiv> b\<lparr>buffer_vec := copy_in d (buffer_vec b) (unat (writerIndex b)),
      writerIndex := writerIndex b + of_nat (length d)\<rparr>"
  shows "std_copy_in d (buffer_vec b) (unat (writerIndex b)) = Inr (buffer_vec b')"
    and "buffer_inv b'" and "readable b' = readable b @ d"
    and "length (buffer_vec b') = length (buffer_vec b)"
    and "unat (of_nat (length d) :: size_t) = length d"
proof -
  have cap: "unat (writerIndex b) + length d \<le> length (buffer_vec b)"
      "length (buffer_vec b) < 2 ^ 63"
    using d inv by (auto simp: unat_wirterableBytes buffer_inv_nat)
  then show n: "unat (of_nat (length d) :: size_t) = length d"
    by (intro unat_of_nat_size) simp
  have "unat (writerIndex b) + unat (of_nat (length d) :: size_t) \<le> length (buffer_vec b)"
    using cap n by simp
  note in_place = append_in_place [OF inv _ this, of d, unfolded n take_all [OF order_refl]]
  show "std_copy_in d (buffer_vec b) (unat (writerIndex b)) = Inr (buffer_vec b')"
    and "buffer_inv b'" and "readable b' = readable b @ d"
    and "length (buffer_vec b') = length (buffer_vec b)"
    using in_place by (simp_all add: b'_def)
qed

lemma readFd_small:
  assumes inv: "buffer_inv b" and small: "length d \<le> unat (wirterableBytes b)"
    and reply: "os_readv os (trace w) fd (read_iov b) = Inr d"
  shows "\<exists>b'. readFd os fd b w =
      Inr (Inr (of_nat (length d)), b', emit (EvReadv fd (read_iov b) (Inr d)) w) \<and>
      buffer_inv b' \<and> readable b' = readable b @ d"
proof -
  note direct = store_direct [OF inv small]
  have "(of_nat (length d) :: size_t) \<le> wirterableBytes b"
    using small by (simp add: word_le_nat_alt direct(5))
  with small direct(1-3) reply show ?thesis
    by (simp add: readFd_def sys_readv_def Let_def)
qed

text \<open>What does not fit is a filled vector followed by an append of the stack array.\<close>

lemma readFd_large:
  assumes os: "readv_contract os" and inv: "buffer_inv b"
    and large: "unat (wirterableBytes b) < length d" and d: "length d < 2 ^ 64"
    and reply: "os_readv os (trace w) fd (read_iov b) = Inr d"
  shows "\<exists>b1 extra len. readFd os fd b w = bnd (append_buf extra len b1) (\<lambda>b'.
        Inr (Inr (of_nat (length d)), b', emit (EvReadv fd (read_iov b) (Inr d)) w)) \<and>
      buffer_inv b1 \<and> unat (writerIndex b1) = length (buffer_vec b) \<and>
      unat len \<le> extrabuf_size \<and> unat len \<le> length extra \<and>
      readable b1 @ take (unat len) extra = readable b @ d"
proof -
  let ?m = "unat (wirterableBytes b)"
  let ?d = "take ?m d" and ?len = "of_nat (length d) - wirterableBytes b"
  let ?extra = "drop ?m d @ replicate (extrabuf_size - (length d - ?m)) 0"
  have len_d: "length ?d = ?m" using large by simp
  have bound: "length d \<le> ?m + extrabuf_size"
    using readv_contractD [OF os reply] large by (rule read_iov_capacity)
  have n: "unat (of_nat (length d) :: size_t) = length d"
    using d by (rule unat_of_nat_size)
  have big: "\<not> (of_nat (length d) :: size_t) \<le> wirterableBytes b"
    using large by (simp add: word_le_nat_alt n)
  then have rest: "unat ?len = length d - ?m"
    by (subst unat_diff) (simp_all add: n)
  note direct = store_direct [OF inv, of ?d, unfolded len_d, simplified]
  define b1 where "b1 = b\<lparr>buffer_vec := copy_in ?d (buffer_vec b) (unat (writerIndex b)),
      writerIndex := buffer_size b\<rparr>"
  have "writerIndex b + wirterableBytes b = buffer_size b"
    by (simp add: wirterableBytes_def)
  then have "buffer_inv b1" and "unat (writerIndex b1) = length (buffer_vec b)"
      and b1: "readable b1 = readable b @ ?d"
    using direct inv by (simp_all add: b1_def unat_buffer_size)
  moreover have "readFd os fd b w = bnd (append_buf ?extra ?len b1) (\<lambda>b'.
      Inr (Inr (of_nat (length d)), b', emit (EvReadv fd (read_iov b) (Inr d)) w))"
    using direct(1) big reply
    by (simp add: readFd_def sys_readv_def Let_def b1_def buffer_size_def)
  moreover have "unat ?len \<le> extrabuf_size" and "unat ?len \<le> length ?extra"
    using bound large by (simp_all add: rest)
  moreover have "readable b1 @ take (unat ?len) ?extra = readable b @ d"
    using large by (simp add: rest b1)
  ultimately show ?thesis by blast
qed

lemma readFd_ok:
  assumes os: "readv_contract os" and inv: "buffer_inv b"
    and fits: "length (buffer_vec b) + extrabuf_size < 2 ^ 63"
    and reply: "os_readv os (trace w) fd (read_iov b) = Inr d"
  shows "\<exists>b'. readFd os fd b w =
      Inr (Inr (of_nat (length d)), b', emit (EvReadv fd (read_iov b) (Inr d)) w) \<and>
      buffer_inv b' \<and> readable b' = readable b @ d"
proof (cases "length d \<le> unat (wirterableBytes b)")
  case True
  then show ?thesis using readFd_small [OF inv _ reply] by blast
next
  case False
  with readFd_large [OF os inv _ reply_length [OF os inv reply] reply] obtain b1 extra len where
      eq: "readFd os fd b w = bnd (append_buf extra len b1) (\<lambda>b'.
        Inr (Inr (of_nat (length d)), b', emit (EvReadv fd (read_iov b) (Inr d)) w))"
    and b1: "buffer_inv b1" "unat (writerIndex b1) = length (buffer_vec b)"
    and len: "unat len \<le> extrabuf_size" "unat len \<le> length extra"
    and read: "readable b1 @ take (unat len) extra = readable b @ d"
    by (metis not_le)
  have "append_fits b1 len" using fits b1 len by (simp add: append_fits_def)
  from append_ok [OF b1(1) len(2) this] eq read show ?thesis by auto
qed

text \<open>The same for whatever \<open>readFd\<close> returned, without asking that the buffer be small.\<close>

lemma readFd_Inr:
  assumes os: "readv_contract os" and inv: "buffer_inv b"
    and run: "readFd os fd b w = Inr (r, b', w')"
  shows "buffer_inv b'" and "w' = emit (EvReadv fd (read_iov b)
      (os_readv os (trace w) fd (read_iov b))) w"
    and "case os_readv os (trace w) fd (read_iov b) of
        Inl e \<Rightarrow> r = Inl e \<and> b' = b
      | Inr d \<Rightarrow> r = Inr (of_nat (length d)) \<and> readable b' = readable b @ d"
proof -
  have "buffer_inv b' \<and> w' = emit (EvReadv fd (read_iov b)
      (os_readv os (trace w) fd (read_iov b))) w \<and>
    (case os_readv os (trace w) fd (read_iov b) of
        Inl e \<Rightarrow> r = Inl e \<and> b' = b
      | Inr d \<Rightarrow> r = Inr (of_nat (length d)) \<and> readable b' = readable b @ d)"
  proof (cases "os_readv os (trace w) fd (read_iov b)")
    case (Inl e)
    with run inv readFd_error [OF Inl] show ?thesis by auto
  next
    case (Inr d)
    show ?thesis
    proof (cases "length d \<le> unat (wirterableBytes b)")
      case True
      with readFd_small [OF inv True Inr] run Inr show ?thesis by auto
    next
      case False
      with readFd_large [OF os inv _ reply_length [OF os inv Inr] Inr] obtain b1 extra len where
          eq: "readFd os fd b w = bnd (append_buf extra len b1) (\<lambda>b'.
            Inr (Inr (of_nat (length d)), b', emit (EvReadv fd (read_iov b) (Inr d)) w))"
        and b1: "buffer_inv b1" and read: "readable b1 @ take (unat len) extra = readable b @ d"
        by (metis not_le)
      from run eq obtain b2 where "append_buf extra len b1 = Inr b2"
          and "r = Inr (of_nat (length d))" and "b' = b2"
          and "w' = emit (EvReadv fd (read_iov b) (Inr d)) w"
        by auto
      with append_Inr [OF b1] read Inr show ?thesis by auto
    qed
  qed
  then show "buffer_inv b'" and "w' = emit (EvReadv fd (read_iov b)
      (os_readv os (trace w) fd (read_iov b))) w"
    and "case os_readv os (trace w) fd (read_iov b) of
        Inl e \<Rightarrow> r = Inl e \<and> b' = b
      | Inr d \<Rightarrow> r = Inr (of_nat (length d)) \<and> readable b' = readable b @ d"
    by blast+
qed

lemma writeFd_eq:
  "buffer_inv b \<Longrightarrow> writeFd os fd b w = Inr (sys_write os fd (readable b) w)"
  by (simp add: writeFd_def peek_bytes_readable)

section \<open>The buffer keeps the byte queue's contract\<close>

definition buffer_footprint :: "buffer \<Rightarrow> nat" where
  "buffer_footprint b = length (buffer_vec b)"

lemma buffer_put_ok:
  assumes inv: "buffer_inv b" and fits: "length (buffer_vec b) + length d < 2 ^ 63"
  shows "\<exists>b'. append_buf d (of_nat (length d)) b = Inr b' \<and> buffer_inv b' \<and> readable b' = readable b @ d \<and>
      length (buffer_vec b') \<le> length (buffer_vec b) + length d"
proof -
  have d: "unat (of_nat (length d) :: size_t) = length d"
    using fits by (intro unat_of_nat_size) simp
  have "unat (writerIndex b) \<le> length (buffer_vec b)" using inv by (simp add: buffer_inv_nat)
  moreover from this have "append_fits b (of_nat (length d))"
    using fits by (simp add: append_fits_def d)
  ultimately show ?thesis
    using append_ok [OF inv, of "of_nat (length d)" d] d by fastforce
qed

lemma buffer_get_ok:
  assumes inv: "buffer_inv b" and le: "n \<le> length (readable b)"
  shows "\<exists>b'. retrieveAsString (of_nat n) b = Inr (take n (readable b), b') \<and> buffer_inv b' \<and>
      readable b' = drop n (readable b) \<and> length (buffer_vec b') = length (buffer_vec b)"
proof -
  have n: "unat (of_nat n :: size_t) = n" "n \<le> unat (readableBytes b)"
    using length_readable_bound [OF inv] length_readable_bytes [OF inv] le
    by (auto intro: unat_of_nat_size)
  have "length (buffer_vec (retrieve (of_nat n) b)) = length (buffer_vec b)"
    by (simp add: retrieve_def retrieveAll_def)
  then show ?thesis
    using retrieveAsString_prefix [OF inv, of "of_nat n"] retrieve_inv [OF inv, of "of_nat n"]
      retrieve_readable [OF inv, of "of_nat n"] n le
    by auto
qed

interpretation bf: byte_fifo buffer_inv readable buffer_footprint "2 ^ 63"
  "\<lambda>d. append_buf d (of_nat (length d))" "\<lambda>n. retrieveAsString (of_nat n)" retrieveAllAsString
proof unfold_locales
  fix q :: buffer and d :: bytes
  assume "buffer_inv q" and "buffer_footprint q + length d < 2 ^ 63"
  then show "\<exists>q'. append_buf d (of_nat (length d)) q = Inr q' \<and> buffer_inv q' \<and>
      readable q' = readable q @ d \<and> buffer_footprint q' \<le> buffer_footprint q + length d"
    unfolding buffer_footprint_def by (rule buffer_put_ok)
next
  fix q n
  assume "buffer_inv q" and "n \<le> length (readable q)"
  then show "\<exists>q'. retrieveAsString (of_nat n) q = Inr (take n (readable q), q') \<and> buffer_inv q' \<and>
      readable q' = drop n (readable q) \<and> buffer_footprint q' = buffer_footprint q"
    unfolding buffer_footprint_def by (rule buffer_get_ok)
next
  fix q
  assume inv: "buffer_inv q"
  have "buffer_footprint (retrieveAll q) = buffer_footprint q"
    by (simp add: buffer_footprint_def retrieveAll_def)
  with retrieveAllAsString_eq [OF inv] retrieveAll_inv [OF inv] show
      "\<exists>q'. retrieveAllAsString q = Inr (readable q, q') \<and> buffer_inv q' \<and> readable q' = [] \<and>
        buffer_footprint q' = buffer_footprint q"
    by (auto simp: readable_def retrieveAll_def)
qed

section \<open>Properties\<close>

text \<open>
  C8 (buffer is a byte queue). Any script of appends, retrieves of a given length and retrieves of
  everything on a buffer runs without failure, as long as the bytes put in keep the vector below its
  maximal size and no retrieve asks for more than is readable at that moment. Each retrieve returns
  what it would take from the front of a list of bytes, what is readable in the end is what would be
  left of that list, and the vector grew by no more than the bytes put in.
\<close>

theorem buffer_is_fifo:
  assumes "buffer_inv b" and "length (buffer_vec b) + length (puts ops) < 2 ^ 63"
    and "asks_within (length (readable b)) ops"
  shows "\<exists>b'. serve (\<lambda>d. append_buf d (of_nat (length d))) (\<lambda>n. retrieveAsString (of_nat n))
        retrieveAllAsString ops b = Inr (fst (queue_run ops (readable b)), b') \<and>
      buffer_inv b' \<and> readable b' = snd (queue_run ops (readable b)) \<and>
      length (buffer_vec b') \<le> length (buffer_vec b) + length (puts ops)"
  using bf.serve_refines [of b ops] assms by (simp add: buffer_footprint_def)

theorem buffer_is_fifo_witness:
  "\<exists>b'. serve (\<lambda>d. append_buf d (of_nat (length d))) (\<lambda>n. retrieveAsString (of_nat n))
       retrieveAllAsString [Put [1, 2, 3], Take 2, Put [4], TakeAll, Put [5]] (Buffer_ctor 0)
     = Inr ([[1, 2], [3, 4]], b') \<and> readable b' = [5]"
proof -
  let ?ops = "[Put [1, 2, 3], Take 2, Put [4], TakeAll, Put [5]]"
  have b: "readable (Buffer_ctor 0) = []" "length (buffer_vec (Buffer_ctor 0)) + length (puts ?ops) < 2 ^ 63"
    by (simp_all add: readable_def Buffer_ctor_def kCheapPrepend_def kInitialSize_def)
  then have "asks_within (length (readable (Buffer_ctor 0))) ?ops" by simp
  from buffer_is_fifo [OF Buffer_ctor_inv b(2) this] b(1) show ?thesis by auto
qed



text \<open>
  C27 (append, every outcome). For data of a length an array can have, \<open>append\<close> succeeds exactly when
  the grown vector stays below its maximal size or content and data fit into the vector after
  moving the content to the front; it then keeps the index invariant, adds exactly the data at
  the end of the content and grows the vector to at most \<open>writerIndex + len\<close>. Otherwise it
  throws \<open>std::length_error\<close>. It never touches memory outside the vector.
\<close>

theorem append_outcome:
  assumes "buffer_inv b" and "length data < 2 ^ 63"
  shows "if append_fits b (of_nat (length data))
    then \<exists>b'. append_buf data (of_nat (length data)) b = Inr b' \<and> buffer_inv b' \<and>
      readable b' = readable b @ data \<and>
      length (buffer_vec b') \<le> max (length (buffer_vec b)) (unat (writerIndex b) + length data)
    else append_buf data (of_nat (length data)) b = Inl LengthError"
proof -
  have "unat (of_nat (length data) :: size_t) = length data"
    using assms(2) by (intro unat_of_nat_size) simp
  then show ?thesis
    using append_ok [OF assms(1), of "of_nat (length data)" data]
      append_refused [OF assms(1), of "of_nat (length data)" data] assms(2)
    by simp
qed

theorem append_outcome_witness:
  "\<exists>b'. append_buf [7, 8] 2 (Buffer_ctor 0) = Inr b' \<and> readable b' = [7, 8]"
proof -
  have "append_fits (Buffer_ctor 0) 2"
    by (simp add: append_fits_def Buffer_ctor_def kCheapPrepend_def)
  with append_outcome [OF Buffer_ctor_inv, of "[7, 8]" 0] show ?thesis by auto
qed

text \<open>
  Reading a descriptor. Under the documented bound on \<open>readv\<close>, \<open>readFd\<close> never loses or reorders a
  byte: whatever the kernel delivers, up to the free part of the vector plus 64 KiB, is added at
  the end of the readable content, whether or not it went through the stack array; the count is
  returned; and a failed read leaves the buffer as it was and reports the error.
\<close>

theorem readFd_appends_exactly:
  assumes "readv_contract os" and "buffer_inv b"
    and "length (buffer_vec b) + extrabuf_size < 2 ^ 63"
  shows "\<exists>b'. readFd os fd b w =
      Inr (map_sum id (\<lambda>d. of_nat (length d)) (os_readv os (trace w) fd (read_iov b)), b',
        emit (EvReadv fd (read_iov b) (os_readv os (trace w) fd (read_iov b))) w) \<and>
      buffer_inv b' \<and>
      readable b' = readable b @
        (case os_readv os (trace w) fd (read_iov b) of Inl e \<Rightarrow> [] | Inr d \<Rightarrow> d)"
proof (cases "os_readv os (trace w) fd (read_iov b)")
  case (Inl e)
  with readFd_error [OF Inl] assms show ?thesis by simp
next
  case (Inr d)
  with readFd_ok [OF assms Inr] show ?thesis by simp
qed

theorem readFd_appends_exactly_witness:
  "\<exists>b'. readFd demo_os 5 (Buffer_ctor 0) \<lparr>trace = []\<rparr> =
      Inr (Inr 3, b', \<lparr>trace = [EvReadv 5 (read_iov (Buffer_ctor 0)) (Inr [10, 20, 30])]\<rparr>) \<and>
      readable b' = [10, 20, 30]"
proof -
  have "os_readv demo_os [] 5 (read_iov (Buffer_ctor 0)) = Inr [10, 20, 30]"
    by (simp add: demo_os_def read_iov_def wirterableBytes_def buffer_size_def Buffer_ctor_def
        kCheapPrepend_def kInitialSize_def extrabuf_size_def)
  moreover have "length (buffer_vec (Buffer_ctor 0)) + extrabuf_size < 2 ^ 63"
    by (simp add: Buffer_ctor_def kCheapPrepend_def kInitialSize_def extrabuf_size_def)
  note readFd_appends_exactly [OF demo_os_readv Buffer_ctor_inv this, of 5 "\<lparr>trace = []\<rparr>"]
  ultimately show ?thesis by (auto simp: emit_def)
qed

end
