(* ===== verification/Net.thy ===== *)
theory Net
  imports Kernel
begin

text \<open>
  Socket addresses (\<open>src/src/InetAddress.h\<close>, \<open>InetAddress.cc\<close>) and sockets
  (\<open>src/src/Socket.h\<close>, \<open>Socket.cc\<close>). An address is the members of \<open>sockaddr_in\<close> the code
  uses, as the little-endian machine reads them, so that \<open>htons\<close> swaps bytes; the kernel gives
  and takes it as the bytes of the structure. \<open>inet_ntop\<close> for \<open>AF_INET\<close> writes the four
  bytes of the address in decimal; \<open>inet_addr\<close> stays a parameter.
\<close>

unbundle bit_operations_syntax

section \<open>Addresses\<close>

record sockaddr_in =
  sin_family :: "16 word"
  sin_port :: "16 word"
  sin_addr :: u32

definition AF_INET :: "16 word" where
  "AF_INET = 2"

definition byte_of :: "'a::len word \<Rightarrow> nat \<Rightarrow> byte" where
  "byte_of w i = ucast (drop_bit (8 * i) w)"

definition htons :: "16 word \<Rightarrow> 16 word" where
  "htons x = push_bit 8 x OR drop_bit 8 x"

definition ntohs :: "16 word \<Rightarrow> 16 word" where
  "ntohs x = push_bit 8 x OR drop_bit 8 x"

definition InetAddress_ctor :: "(string \<Rightarrow> u32) \<Rightarrow> 16 word \<Rightarrow> string \<Rightarrow> sockaddr_in" where
  "InetAddress_ctor inet_addr port ip =
     \<lparr>sin_family = AF_INET, sin_port = htons port, sin_addr = inet_addr ip\<rparr>"

text \<open>
  \<open>inet_ntop(AF_INET, ...)\<close>: the dotted form, or failure when the buffer is too small for it
  and its terminating zero.
\<close>

definition dotted :: "u32 \<Rightarrow> string" where
  "dotted a = show_nat (unat (byte_of a 0)) @ CHR ''.'' # show_nat (unat (byte_of a 1)) @
     CHR ''.'' # show_nat (unat (byte_of a 2)) @ CHR ''.'' # show_nat (unat (byte_of a 3))"

definition inet_ntop :: "u32 \<Rightarrow> nat \<Rightarrow> string option" where
  "inet_ntop a n = (if length (dotted a) < n then Some (dotted a) else None)"

definition toIP :: "sockaddr_in \<Rightarrow> string" where
  "toIP a = (case inet_ntop (sin_addr a) 64 of None \<Rightarrow> [] | Some s \<Rightarrow> s)"

definition toPort :: "sockaddr_in \<Rightarrow> 16 word" where
  "toPort a = ntohs (sin_port a)"

text \<open>\<open>toIpPort\<close> appends to the same 64-byte buffer with an unbounded \<open>sprintf\<close>.\<close>

definition toIpPort :: "sockaddr_in \<Rightarrow> failure + string" where
  "toIpPort a =
     (let buf = (case inet_ntop (sin_addr a) 64 of None \<Rightarrow> [] | Some s \<Rightarrow> s);
          port = ntohs (sin_port a);
          out = CHR '':'' # show_nat (unat port)
      in if length buf + length out < 64 then Inr (buf @ out) else Inl OutOfBounds)"

lemma ntohs_htons [simp]: "ntohs (htons x) = x"
  by (rule bit_word_eqI) (auto simp: ntohs_def htons_def bit_or_iff bit_push_bit_iff
      bit_drop_bit_eq possible_bit_word dest: bit_imp_possible_bit)

lemma ntohs_inject: "ntohs x = ntohs y \<longleftrightarrow> x = y"
proof -
  have "htons (ntohs x) = x" for x
    using ntohs_htons [of x] by (simp add: ntohs_def htons_def)
  then show ?thesis by metis
qed

lemma byte_of_inject:
  "(a :: u32) = b \<longleftrightarrow> byte_of a 0 = byte_of b 0 \<and> byte_of a 1 = byte_of b 1 \<and>
     byte_of a 2 = byte_of b 2 \<and> byte_of a 3 = byte_of b 3"
  (is "_ \<longleftrightarrow> ?bytes")
proof
  assume eq: ?bytes
  have byte: "bit (byte_of c i) n \<longleftrightarrow> n < 8 \<and> bit c (8 * i + n)" for c :: u32 and i n
    by (auto simp: byte_of_def bit_ucast_iff bit_drop_bit_eq possible_bit_word)
  show "a = b"
  proof (rule bit_word_eqI)
    fix n
    assume "n < LENGTH(32)"
    then have "n div 8 = 0 \<or> n div 8 = 1 \<or> n div 8 = 2 \<or> n div 8 = 3" by auto
    then have "byte_of a (n div 8) = byte_of b (n div 8)" using eq by auto
    then have "bit (byte_of a (n div 8)) (n mod 8) = bit (byte_of b (n div 8)) (n mod 8)" by simp
    then show "bit a n = bit b n" by (simp add: byte)
  qed
qed simp

lemma separators [simp]: "CHR ''.'' \<notin> set (show_nat n)" "CHR '':'' \<notin> set (show_nat n)"
proof -
  have "digit d \<noteq> CHR ''.'' \<and> digit d \<noteq> CHR '':''" if "d < 10" for d
    using of_char_digit [OF that] that by (auto dest!: arg_cong [of _ _ "of_char :: _ \<Rightarrow> nat"])
  then show "CHR ''.'' \<notin> set (show_nat n)" "CHR '':'' \<notin> set (show_nat n)"
    by (metis show_nat_digits)+
qed

lemma dotted_inject: "dotted a = dotted b \<longleftrightarrow> a = b"
  by (auto simp: dotted_def separated_inject show_nat_inject byte_of_inject [of a b]
      word_unat_eq_iff [symmetric])

lemma colon_dotted: "CHR '':'' \<notin> set (dotted a)"
  by (simp add: dotted_def)

lemma length_byte: "length (show_nat (unat (b :: byte))) \<le> 3"
  using length_show_nat [of "unat b" 2] unsigned_less [of b, where 'a = nat] by simp

lemma length_dotted: "length (dotted a) \<le> 15"
  using length_byte [of "byte_of a 0"] length_byte [of "byte_of a 1"]
    length_byte [of "byte_of a 2"] length_byte [of "byte_of a 3"]
  by (simp add: dotted_def)

lemma inet_ntop_64 [simp]: "inet_ntop a 64 = Some (dotted a)"
  using length_dotted [of a] by (simp add: inet_ntop_def)

lemma length_port: "length (show_nat (unat (p :: 16 word))) \<le> 5"
  using length_show_nat [of "unat p" 4] unsigned_less [of p, where 'a = nat] by simp

lemma toIpPort_eq: "toIpPort a = Inr (dotted (sin_addr a) @ CHR '':'' # show_nat (unat (toPort a)))"
  using length_dotted [of "sin_addr a"] length_port [of "ntohs (sin_port a)"]
  by (simp add: toIpPort_def toPort_def Let_def)

section \<open>Sockets\<close>

text \<open>The bytes of the structure, and the members read back from them.\<close>

definition addr_bytes :: "sockaddr_in \<Rightarrow> bytes" where
  "addr_bytes a =
     [byte_of (sin_family a) 0, byte_of (sin_family a) 1,
      byte_of (sin_port a) 0, byte_of (sin_port a) 1,
      byte_of (sin_addr a) 0, byte_of (sin_addr a) 1, byte_of (sin_addr a) 2,
      byte_of (sin_addr a) 3] @ replicate 8 0"

definition addr_of_bytes :: "bytes \<Rightarrow> sockaddr_in" where
  "addr_of_bytes b =
     \<lparr>sin_family = ucast (b ! 0) OR push_bit 8 (ucast (b ! 1)),
      sin_port = ucast (b ! 2) OR push_bit 8 (ucast (b ! 3)),
      sin_addr = ucast (b ! 4) OR push_bit 8 (ucast (b ! 5)) OR push_bit 16 (ucast (b ! 6))
        OR push_bit 24 (ucast (b ! 7))\<rparr>"

text \<open>
  What the kernel leaves in a zeroed \<open>sockaddr_in\<close> when it is told the structure has
  \<open>len\<close> bytes: the address, truncated to that length.
\<close>

definition fill_addr :: "u32 \<Rightarrow> bytes \<Rightarrow> bytes" where
  "fill_addr len b = (let d = take (min (unat len) 16) b in d @ replicate (16 - length d) 0)"

definition Socket_dtor :: "c_int \<Rightarrow> 'a kworld_scheme \<Rightarrow> 'a kworld_scheme" where
  "Socket_dtor sockfd = sys_close sockfd"

definition bindAddress ::
  "os \<Rightarrow> c_int \<Rightarrow> sockaddr_in \<Rightarrow> 'a kworld_scheme \<Rightarrow> failure + 'a kworld_scheme" where
  "bindAddress os sockfd a w =
     (let (r, w) = sys_bind os sockfd (addr_bytes a) w
      in case r of Some e \<Rightarrow> Inl Fatal | None \<Rightarrow> Inr w)"

definition Socket_listen :: "os \<Rightarrow> c_int \<Rightarrow> 'a kworld_scheme \<Rightarrow> failure + 'a kworld_scheme" where
  "Socket_listen os sockfd w =
     (let (r, w) = sys_listen os sockfd 1024 w
      in case r of Some e \<Rightarrow> Inl Fatal | None \<Rightarrow> Inr w)"

text \<open>
  \<open>accept\<close> hands the kernel a length it never set: whatever the stack holds is the argument
  \<open>len\<close>. The address is written to \<open>peeraddr\<close> on success only.
\<close>

definition Socket_accept ::
  "os \<Rightarrow> u32 \<Rightarrow> c_int \<Rightarrow> sockaddr_in \<Rightarrow> 'a kworld_scheme
     \<Rightarrow> (errno + c_int) \<times> sockaddr_in \<times> 'a kworld_scheme" where
  "Socket_accept os len sockfd peeraddr w =
     (let (r, w) = sys_accept os sockfd len w
      in case r of
           Inl e \<Rightarrow> (Inl e, peeraddr, w)
         | Inr (connfd, a) \<Rightarrow> (Inr connfd, addr_of_bytes (fill_addr len a), w))"

definition shutdownWrite :: "os \<Rightarrow> c_int \<Rightarrow> 'a kworld_scheme \<Rightarrow> 'a kworld_scheme" where
  "shutdownWrite os sockfd w =
     (let (r, w) = sys_shutdown os sockfd w in if r \<noteq> None then log_msg ERROR w else w)"

definition setTcpNoDelay :: "bool \<Rightarrow> c_int \<Rightarrow> 'a kworld_scheme \<Rightarrow> 'a kworld_scheme" where
  "setTcpNoDelay on sockfd = sys_setsockopt sockfd TCP_NODELAY on"

definition setReuseAddr :: "bool \<Rightarrow> c_int \<Rightarrow> 'a kworld_scheme \<Rightarrow> 'a kworld_scheme" where
  "setReuseAddr on sockfd = sys_setsockopt sockfd SO_REUSEADDR on"

definition setReusePort :: "bool \<Rightarrow> c_int \<Rightarrow> 'a kworld_scheme \<Rightarrow> 'a kworld_scheme" where
  "setReusePort on sockfd = sys_setsockopt sockfd SO_REUSEPORT on"

definition setKeepAlive :: "bool \<Rightarrow> c_int \<Rightarrow> 'a kworld_scheme \<Rightarrow> 'a kworld_scheme" where
  "setKeepAlive on sockfd = sys_setsockopt sockfd SO_KEEPALIVE on"

lemma bytes_16: "ucast (byte_of x 0) OR push_bit 8 (ucast (byte_of x 1)) = (x :: 16 word)"
  by (rule bit_word_eqI) (auto simp: byte_of_def bit_or_iff bit_push_bit_iff bit_ucast_iff
      bit_drop_bit_eq possible_bit_word)

lemma bytes_32:
  "ucast (byte_of x 0) OR push_bit 8 (ucast (byte_of x 1)) OR push_bit 16 (ucast (byte_of x 2))
     OR push_bit 24 (ucast (byte_of x 3)) = (x :: u32)"
  by (rule bit_word_eqI) (auto simp: byte_of_def bit_or_iff bit_push_bit_iff bit_ucast_iff
      bit_drop_bit_eq possible_bit_word, rule ccontr, simp)

lemma addr_of_bytes_inverse [simp]: "addr_of_bytes (addr_bytes a) = a"
  unfolding addr_of_bytes_def addr_bytes_def
  by (simp only: append.simps nth_Cons_0 nth_Cons_numeral) (simp add: bytes_16 [unfolded One_nat_def] bytes_32 [unfolded One_nat_def])

lemma length_addr_bytes [simp]: "length (addr_bytes a) = 16"
  by (simp add: addr_bytes_def)

section \<open>Properties\<close>

text \<open>
  C34 (addresses print and read back). Printing an address never overruns the 64-byte buffer, gives the dotted address, a colon and
  the port in decimal, at most 21 characters, and two addresses print alike only if they are the
  same host and port; the port given to the constructor is the one printed and read back.
\<close>

theorem toIpPort_faithful:
  "\<exists>s. toIpPort a = Inr s \<and> s = toIP a @ '':'' @ show_nat (unat (toPort a)) \<and> length s \<le> 21 \<and>
     (toIpPort b = Inr s \<longleftrightarrow> sin_addr a = sin_addr b \<and> sin_port a = sin_port b) \<and>
     toPort (InetAddress_ctor inet_addr port ip) = port"
  using length_dotted [of "sin_addr a"] length_port [of "toPort a"]
  by (auto simp: toIpPort_eq toIP_def separated_inject colon_dotted dotted_inject show_nat_inject
      toPort_def InetAddress_ctor_def ntohs_inject word_unat_eq_iff [symmetric])

text \<open>
  Accept reads an unset length. A successful \<open>accept\<close> reports the peer's address if the uninitialised length happens to be at
  least the size of the structure; if it happens to be below three the port is reported as zero
  whatever the peer's is, and with a length of zero so is the host.
\<close>

theorem accept_peer_address:
  assumes "os_accept os (trace w) sockfd len = Inr (connfd, addr_bytes peer)"
  shows "\<exists>a w'. Socket_accept os len sockfd a0 w = (Inr connfd, a, w') \<and>
    (if 16 \<le> len then a = peer else if len < 3 then toPort a = 0 else True) \<and>
    (if len = 0 then sin_addr a = 0 else True)"
proof -
  have call: "Socket_accept os len sockfd a0 w = (Inr connfd,
      addr_of_bytes (fill_addr len (addr_bytes peer)),
      emit (EvAccept sockfd len (Inr (connfd, addr_bytes peer))) w)"
    using assms by (simp add: Socket_accept_def sys_accept_def Let_def)
  have full: "fill_addr len (addr_bytes peer) = addr_bytes peer" if "16 \<le> len"
    using that by (simp add: fill_addr_def word_le_nat_alt)
  have zero: "fill_addr len (addr_bytes peer) ! i = 0" if "unat len \<le> i" "i < 16" for i
    using that by (simp add: fill_addr_def nth_append Let_def)
  have "toPort (addr_of_bytes (fill_addr len (addr_bytes peer))) = 0" if "len < 3"
    using that zero [of 2] zero [of 3]
    by (simp add: addr_of_bytes_def toPort_def ntohs_def word_less_nat_alt)
  moreover have "sin_addr (addr_of_bytes (fill_addr len (addr_bytes peer))) = 0" if "len = 0"
    using that zero [of 4] zero [of 5] zero [of 6] zero [of 7]
    by (simp add: addr_of_bytes_def)
  ultimately show ?thesis using call full by auto
qed

theorem accept_peer_address_witness:
  "\<exists>a w'. Socket_accept demo_os 0 3 \<lparr>sin_family = 0, sin_port = 0, sin_addr = 0\<rparr> \<lparr>trace = []\<rparr> =
     (Inr 3, a, w') \<and> toPort a = 0 \<and> sin_addr a = 0"
proof -
  have "os_accept demo_os (trace \<lparr>trace = []\<rparr>) 3 0 =
      Inr (3, addr_bytes \<lparr>sin_family = 2, sin_port = 16415, sin_addr = 117440522\<rparr>)"
    by (simp add: demo_os_def addr_bytes_def byte_of_def)
  from accept_peer_address [OF this] show ?thesis by auto
qed

end
