(* ===== verification/TcpConnection.thy ===== *)
theory TcpConnection
  imports EventLoop Buffer Net
begin

text \<open>
  One TCP connection (\<open>src/src/TcpConnection.h\<close>, \<open>TcpConnection.cc\<close>): its state machine,
  the two buffers, the four channel handlers, sending and shutting down. The code of the user of
  the library is a parameter: a callback is a number, and the function \<open>user\<close> answers each
  call of one, from the world at that moment, with the library calls the callback makes. Strings
  live in a store from addresses to bytes, so that a pointer kept beyond the life of its string is
  a dangling one. The functors the library binds are the datatype \<open>pending_functor\<close>.

  The main results: the bytes a connection has accepted are, at every moment and in order, those
  the kernel has taken followed by those in the output buffer; the channel watches for output
  exactly while that buffer holds bytes; and the write side is shut only when it is empty.
\<close>

unbundle bit_operations_syntax

section \<open>State\<close>

datatype StateE = kDisconnected | kConnecting | kConnected | kDisconnecting

type_synonym user_fn = nat

text \<open>
  What the \<open>std::bind\<close> calls bind: those with a \<open>TcpConnectionPtr\<close> hold the connection,
  \<open>sendInLoop\<close> and \<open>shutdownInLoop\<close> a raw pointer to it, and the former a raw pointer to
  the bytes of the caller's string.
\<close>

datatype pending_functor =
    F_connectEstablished conn_id
  | F_connectDistroyed conn_id
  | F_sendInLoop conn_id ptr size_t
  | F_shutdownInLoop conn_id
  | F_writeComplete user_fn conn_id
  | F_highWaterMark "user_fn option" conn_id size_t
  | F_removeConnectionInLoop conn_id
  | F_Acceptor_listen

text \<open>The target \<open>TcpServer\<close> binds as close callback.\<close>

datatype close_fn = TcpServer_removeConnection

record tcp_connection =
  tc_loop :: loop_id
  tc_name :: string
  tc_state :: StateE
  tc_reading :: bool
  tc_socket :: c_int
  tc_channel :: ptr
  tc_localAddr :: sockaddr_in
  tc_peerAddr :: sockaddr_in
  tc_connectionCallback :: "user_fn option"
  tc_messageCallback :: "user_fn option"
  tc_writeCompleteCallback :: "user_fn option"
  tc_highWaterMarkCallback :: "user_fn option"
  tc_closeCallback :: "close_fn option"
  tc_highWaterMark :: size_t
  tc_inputBuffer :: buffer
  tc_outputBuffer :: buffer

text \<open>A call of a user callback, with its arguments.\<close>

datatype call =
    OnConnection conn_id
  | OnMessage conn_id Timestamp
  | OnWriteComplete conn_id
  | OnHighWaterMark conn_id size_t

text \<open>
  What user code can do to a connection inside a callback. \<open>Send c a d\<close> is
  \<open>conn->send(s)\<close> for a string \<open>s\<close> of bytes \<open>d\<close>, at address \<open>a\<close>, that dies when the
  callback returns from the call. The setters take a function or an empty one.
\<close>

datatype api_call =
    Send conn_id ptr bytes
  | Shutdown conn_id
  | RetrieveAllAsString conn_id
  | RetrieveAsString conn_id size_t
  | SetConnectionCallback conn_id "user_fn option"
  | SetMessageCallback conn_id "user_fn option"
  | SetWriteCompleteCallback conn_id "user_fn option"
  | SetHighWaterMarkCallback conn_id "user_fn option"

record cworld = "pending_functor lworld" +
  conns :: "conn_id \<rightharpoonup> tcp_connection"
  strings :: "ptr \<rightharpoonup> bytes"
  calls :: "call list"

definition get_conn :: "conn_id \<Rightarrow> 'a cworld_scheme \<Rightarrow> failure + tcp_connection" where
  "get_conn c w = (case conns w c of None \<Rightarrow> Inl DanglingPointer | Some C \<Rightarrow> Inr C)"

definition put_conn :: "conn_id \<Rightarrow> tcp_connection \<Rightarrow> 'a cworld_scheme \<Rightarrow> 'a cworld_scheme" where
  "put_conn c C w = w\<lparr>conns := (conns w)(c \<mapsto> C)\<rparr>"

definition upd_conn ::
  "conn_id \<Rightarrow> (tcp_connection \<Rightarrow> tcp_connection) \<Rightarrow> 'a cworld_scheme
     \<Rightarrow> failure + 'a cworld_scheme" where
  "upd_conn c f w = bnd (get_conn c w) (\<lambda>C. Inr (put_conn c (f C) w))"

definition setState :: "StateE \<Rightarrow> tcp_connection \<Rightarrow> tcp_connection" where
  "setState s C = C\<lparr>tc_state := s\<rparr>"

definition connected :: "tcp_connection \<Rightarrow> bool" where
  "connected C \<longleftrightarrow> tc_state C = kConnected"

definition disconnected :: "tcp_connection \<Rightarrow> bool" where
  "disconnected C \<longleftrightarrow> tc_state C = kDisconnected"

text \<open>The setters of the callbacks, which may be empty, as members of the server are.\<close>

definition conn_setConnectionCallback :: "user_fn option \<Rightarrow> tcp_connection \<Rightarrow> tcp_connection" where
  [simp]: "conn_setConnectionCallback cb C = C\<lparr>tc_connectionCallback := cb\<rparr>"

definition conn_setMessageCallback :: "user_fn option \<Rightarrow> tcp_connection \<Rightarrow> tcp_connection" where
  [simp]: "conn_setMessageCallback cb C = C\<lparr>tc_messageCallback := cb\<rparr>"

definition conn_setWriteCompleteCallback :: "user_fn option \<Rightarrow> tcp_connection \<Rightarrow> tcp_connection" where
  [simp]: "conn_setWriteCompleteCallback cb C = C\<lparr>tc_writeCompleteCallback := cb\<rparr>"

definition conn_setHighWaterMarkCallback :: "user_fn option \<Rightarrow> tcp_connection \<Rightarrow> tcp_connection" where
  [simp]: "conn_setHighWaterMarkCallback cb C = C\<lparr>tc_highWaterMarkCallback := cb\<rparr>"

definition conn_setCloseCallback :: "close_fn \<Rightarrow> tcp_connection \<Rightarrow> tcp_connection" where
  [simp]: "conn_setCloseCallback cb C = C\<lparr>tc_closeCallback := Some cb\<rparr>"

text \<open>
  The constructor, with the address of the new channel; a null loop is a fatal error. The
  destructor destroys channel and socket, which closes the descriptor.
\<close>

definition kHighWaterMark :: size_t where
  "kHighWaterMark = 64 * 1024 * 1024"

definition TcpConnection_ctor ::
  "loop_id option \<Rightarrow> string \<Rightarrow> c_int \<Rightarrow> sockaddr_in \<Rightarrow> sockaddr_in \<Rightarrow> conn_id \<Rightarrow> ptr
     \<Rightarrow> 'a cworld_scheme \<Rightarrow> failure + 'a cworld_scheme" where
  "TcpConnection_ctor loop nameArg sockfd localAddr peerAddr c p w =
     (case loop of
        None \<Rightarrow> Inl Fatal
      | Some l \<Rightarrow>
          (let C = \<lparr>tc_loop = l, tc_name = nameArg, tc_state = kConnecting, tc_reading = True,
                 tc_socket = sockfd, tc_channel = p, tc_localAddr = localAddr,
                 tc_peerAddr = peerAddr, tc_connectionCallback = None, tc_messageCallback = None,
                 tc_writeCompleteCallback = None, tc_highWaterMarkCallback = None,
                 tc_closeCallback = None, tc_highWaterMark = kHighWaterMark,
                 tc_inputBuffer = Buffer_ctor kInitialSize,
                 tc_outputBuffer = Buffer_ctor kInitialSize\<rparr>;
               ch = setErrorCallback (TcpConnection_handleError c)
                     (setCloseCallback (TcpConnection_handleClose c)
                     (setWriteCallback (TcpConnection_handleWrite c)
                     (setReadCallback (TcpConnection_handleRead c) (Channel_ctor l sockfd))))
           in Inr (setKeepAlive True sockfd (put_channel p ch (put_conn c C w)))))"

definition TcpConnection_dtor :: "conn_id \<Rightarrow> 'a cworld_scheme \<Rightarrow> failure + 'a cworld_scheme" where
  "TcpConnection_dtor c w =
     bnd (get_conn c w) (\<lambda>C.
     Inr (Socket_dtor (tc_socket C)
       (w\<lparr>chans := (chans w)(tc_channel C := None), conns := (conns w)(c := None)\<rparr>)))"

section \<open>Sending\<close>

text \<open>Reading \<open>len\<close> bytes at the address of a string.\<close>

definition read_bytes :: "ptr \<Rightarrow> size_t \<Rightarrow> 'a cworld_scheme \<Rightarrow> failure + bytes" where
  "read_bytes a len w =
     (if len = 0 then Inr []
      else case strings w a of
             None \<Rightarrow> Inl DanglingPointer
           | Some d \<Rightarrow> if unat len \<le> length d then Inr (take (unat len) d) else Inl OutOfBounds)"

text \<open>The write-complete callback is queued, if the user set one.\<close>

definition notify_complete ::
  "os \<Rightarrow> conn_id \<Rightarrow> tcp_connection \<Rightarrow> 'a cworld_scheme \<Rightarrow> failure + 'a cworld_scheme" where
  "notify_complete os c C w =
     (case tc_writeCompleteCallback C of
        None \<Rightarrow> Inr w
      | Some g \<Rightarrow> queueInLoop os (tc_loop C) (F_writeComplete g c) w)"

text \<open>
  The direct attempt of \<open>sendInLoop\<close>: what was written, what remains, and whether the peer is
  gone.
\<close>

definition send_direct ::
  "os \<Rightarrow> conn_id \<Rightarrow> tcp_connection \<Rightarrow> c_int \<Rightarrow> bytes \<Rightarrow> size_t \<Rightarrow> 'a cworld_scheme
     \<Rightarrow> failure + (nat \<times> size_t \<times> bool \<times> 'a cworld_scheme)" where
  "send_direct os c C fd data len w =
     (let (r, w) = sys_write os fd data w
      in case r of
           Inr nwrote \<Rightarrow>
             (let remaining = len - of_nat nwrote in
              if remaining = 0
              then bnd (notify_complete os c C w) (\<lambda>w. Inr (nwrote, remaining, False, w))
              else Inr (nwrote, remaining, False, w))
         | Inl e \<Rightarrow>
             if e \<noteq> EWOULDBLOCK
             then Inr (0, len, e = EPIPE \<or> e = ECONNRESET, log_msg ERROR w)
             else Inr (0, len, False, w))"

text \<open>
  The rest goes to the output buffer, after the high-water callback was queued when the buffer
  crosses its mark; the channel is then watched for output.
\<close>

definition queue_high_water ::
  "os \<Rightarrow> conn_id \<Rightarrow> tcp_connection \<Rightarrow> size_t \<Rightarrow> 'a cworld_scheme \<Rightarrow> failure + 'a cworld_scheme" where
  "queue_high_water os c C remaining w =
     (let oldLen = readableBytes (tc_outputBuffer C)
      in if oldLen + remaining \<ge> tc_highWaterMark C \<and> oldLen < tc_highWaterMark C
           \<and> tc_highWaterMark C \<noteq> 0
         then queueInLoop os (tc_loop C)
                (F_highWaterMark (tc_highWaterMarkCallback C) c (oldLen + remaining)) w
         else Inr w)"

definition store_rest ::
  "os \<Rightarrow> conn_id \<Rightarrow> tcp_connection \<Rightarrow> bytes \<Rightarrow> size_t \<Rightarrow> 'a cworld_scheme
     \<Rightarrow> failure + 'a cworld_scheme" where
  "store_rest os c C rest remaining w =
     bnd (append_buf rest remaining (tc_outputBuffer C)) (\<lambda>out.
     let w = put_conn c (C\<lparr>tc_outputBuffer := out\<rparr>) w in
     bnd (get_channel (tc_channel C) w) (\<lambda>ch.
     if \<not> isWriting ch then enableWriting os (tc_channel C) w else Inr w))"

definition send_rest ::
  "os \<Rightarrow> conn_id \<Rightarrow> bytes \<Rightarrow> size_t \<Rightarrow> 'a cworld_scheme \<Rightarrow> failure + 'a cworld_scheme" where
  "send_rest os c rest remaining w =
     bnd (get_conn c w) (\<lambda>C.
     bnd (queue_high_water os c C remaining w) (store_rest os c C rest remaining))"

definition sendInLoop ::
  "os \<Rightarrow> conn_id \<Rightarrow> ptr \<Rightarrow> size_t \<Rightarrow> 'a cworld_scheme \<Rightarrow> failure + 'a cworld_scheme" where
  "sendInLoop os c data len w =
     bnd (get_conn c w) (\<lambda>C.
     if tc_state C = kDisconnected then Inr (log_msg ERROR w)
     else
       bnd (get_channel (tc_channel C) w) (\<lambda>ch.
       bnd (read_bytes data len w) (\<lambda>bytes.
       bnd (if \<not> isWriting ch \<and> readableBytes (tc_outputBuffer C) = 0
            then send_direct os c C (ch_fd ch) bytes len w
            else Inr (0, len, False, w)) (\<lambda>(nwrote, remaining, faultError, w).
       if \<not> faultError \<and> 0 < remaining
       then send_rest os c (drop nwrote bytes) remaining w
       else Inr w))))"

definition send :: "os \<Rightarrow> conn_id \<Rightarrow> ptr \<Rightarrow> 'a cworld_scheme \<Rightarrow> failure + 'a cworld_scheme" where
  "send os c buf w =
     bnd (get_conn c w) (\<lambda>C.
     if tc_state C = kConnected
     then
       (case strings w buf of
          None \<Rightarrow> Inl DanglingPointer
        | Some s \<Rightarrow>
            bnd (get_loop (tc_loop C) w) (\<lambda>L.
            if isInLoopThread L w then sendInLoop os c buf (of_nat (length s)) w
            else runInLoop (\<lambda>f. sendInLoop os c buf (of_nat (length s))) os (tc_loop C)
                   (F_sendInLoop c buf (of_nat (length s))) w))
     else Inr w)"

section \<open>Shutting down\<close>

definition shutdownInLoop :: "os \<Rightarrow> conn_id \<Rightarrow> 'a cworld_scheme \<Rightarrow> failure + 'a cworld_scheme" where
  "shutdownInLoop os c w =
     bnd (get_conn c w) (\<lambda>C.
     bnd (get_channel (tc_channel C) w) (\<lambda>ch.
     if \<not> isWriting ch then Inr (shutdownWrite os (tc_socket C) w) else Inr w))"

definition shutdown_conn :: "os \<Rightarrow> conn_id \<Rightarrow> 'a cworld_scheme \<Rightarrow> failure + 'a cworld_scheme" where
  "shutdown_conn os c w =
     bnd (get_conn c w) (\<lambda>C.
     if tc_state C = kConnected
     then runInLoop (\<lambda>f. shutdownInLoop os c) os (tc_loop C) (F_shutdownInLoop c)
            (put_conn c (setState kDisconnecting C) w)
     else Inr w)"

section \<open>User callbacks\<close>

fun exec_api :: "os \<Rightarrow> api_call \<Rightarrow> 'a cworld_scheme \<Rightarrow> failure + 'a cworld_scheme" where
  "exec_api os (Send c a d) w =
     bnd (send os c a (w\<lparr>strings := (strings w)(a \<mapsto> d)\<rparr>)) (\<lambda>w.
     Inr (w\<lparr>strings := (strings w)(a := None)\<rparr>))"
| "exec_api os (Shutdown c) w = shutdown_conn os c w"
| "exec_api os (RetrieveAllAsString c) w =
     bnd (get_conn c w) (\<lambda>C.
     bnd (retrieveAllAsString (tc_inputBuffer C)) (\<lambda>(s, b).
     Inr (put_conn c (C\<lparr>tc_inputBuffer := b\<rparr>) w)))"
| "exec_api os (RetrieveAsString c n) w =
     bnd (get_conn c w) (\<lambda>C.
     bnd (retrieveAsString n (tc_inputBuffer C)) (\<lambda>(s, b).
     Inr (put_conn c (C\<lparr>tc_inputBuffer := b\<rparr>) w)))"
| "exec_api os (SetConnectionCallback c g) w = upd_conn c (conn_setConnectionCallback g) w"
| "exec_api os (SetMessageCallback c g) w = upd_conn c (conn_setMessageCallback g) w"
| "exec_api os (SetWriteCompleteCallback c g) w = upd_conn c (conn_setWriteCompleteCallback g) w"
| "exec_api os (SetHighWaterMarkCallback c g) w = upd_conn c (conn_setHighWaterMarkCallback g) w"

text \<open>Calling an empty \<open>std::function\<close> throws.\<close>

definition call_user ::
  "(user_fn \<Rightarrow> call \<Rightarrow> 'a cworld_scheme \<Rightarrow> api_call list) \<Rightarrow> os \<Rightarrow> user_fn option \<Rightarrow> call
     \<Rightarrow> 'a cworld_scheme \<Rightarrow> failure + 'a cworld_scheme" where
  "call_user user os f cl w =
     (case f of
        None \<Rightarrow> Inl BadFunctionCall
      | Some g \<Rightarrow> run (map (exec_api os) (user g cl w)) (w\<lparr>calls := calls w @ [cl]\<rparr>))"

section \<open>Channel handlers\<close>

text \<open>
  \<open>handleClose\<close> tells the user, then the owner (\<open>close\<close> runs the close callback). The
  channel keeps its interest.
\<close>

definition handleClose ::
  "(user_fn \<Rightarrow> call \<Rightarrow> 'a cworld_scheme \<Rightarrow> api_call list)
     \<Rightarrow> (close_fn \<Rightarrow> conn_id \<Rightarrow> 'a cworld_scheme \<Rightarrow> failure + 'a cworld_scheme)
     \<Rightarrow> os \<Rightarrow> conn_id \<Rightarrow> 'a cworld_scheme \<Rightarrow> failure + 'a cworld_scheme" where
  "handleClose user close os c w =
     bnd (upd_conn c (setState kDisconnected) w) (\<lambda>w.
     bnd (get_conn c w) (\<lambda>C.
     bnd (call_user user os (tc_connectionCallback C) (OnConnection c) w) (\<lambda>w.
     bnd (get_conn c w) (\<lambda>C.
     case tc_closeCallback C of None \<Rightarrow> Inl BadFunctionCall | Some g \<Rightarrow> close g c w))))"

text \<open>The error is fetched and logged; the log carries its level only.\<close>

definition handleError :: "os \<Rightarrow> conn_id \<Rightarrow> 'a cworld_scheme \<Rightarrow> failure + 'a cworld_scheme" where
  "handleError os c w =
     bnd (get_conn c w) (\<lambda>C.
     bnd (get_channel (tc_channel C) w) (\<lambda>ch.
     let (r, w) = sys_getsockopt os (ch_fd ch) w in Inr (log_msg ERROR w)))"

definition handleRead ::
  "(user_fn \<Rightarrow> call \<Rightarrow> 'a cworld_scheme \<Rightarrow> api_call list)
     \<Rightarrow> (close_fn \<Rightarrow> conn_id \<Rightarrow> 'a cworld_scheme \<Rightarrow> failure + 'a cworld_scheme)
     \<Rightarrow> os \<Rightarrow> conn_id \<Rightarrow> Timestamp \<Rightarrow> 'a cworld_scheme \<Rightarrow> failure + 'a cworld_scheme" where
  "handleRead user close os c receiveTime w =
     bnd (get_conn c w) (\<lambda>C.
     bnd (get_channel (tc_channel C) w) (\<lambda>ch.
     bnd (readFd os (ch_fd ch) (tc_inputBuffer C) w) (\<lambda>(n, inb, w).
     let w = put_conn c (C\<lparr>tc_inputBuffer := inb\<rparr>) w in
     case n of
       Inl e \<Rightarrow> handleError os c (log_msg ERROR w)
     | Inr n \<Rightarrow>
         if n = 0 then handleClose user close os c w
         else call_user user os (tc_messageCallback C) (OnMessage c receiveTime) w)))"

text \<open>A shutdown that waited for the output is carried out.\<close>

definition finish_shutdown :: "os \<Rightarrow> conn_id \<Rightarrow> 'a cworld_scheme \<Rightarrow> failure + 'a cworld_scheme" where
  "finish_shutdown os c w =
     bnd (get_conn c w) (\<lambda>C.
     if tc_state C = kDisconnecting then shutdownInLoop os c w else Inr w)"

text \<open>What \<open>handleWrite\<close> does once the kernel took \<open>n > 0\<close> bytes.\<close>

definition after_write ::
  "os \<Rightarrow> conn_id \<Rightarrow> tcp_connection \<Rightarrow> nat \<Rightarrow> 'a cworld_scheme \<Rightarrow> failure + 'a cworld_scheme" where
  "after_write os c C n w =
     (let out = retrieve (of_nat n) (tc_outputBuffer C);
          w = put_conn c (C\<lparr>tc_outputBuffer := out\<rparr>) w
      in if readableBytes out = 0
         then
           bnd (disableWriting os (tc_channel C) w) (\<lambda>w.
           bnd (notify_complete os c C w) (finish_shutdown os c))
         else Inr w)"

definition handleWrite :: "os \<Rightarrow> conn_id \<Rightarrow> 'a cworld_scheme \<Rightarrow> failure + 'a cworld_scheme" where
  "handleWrite os c w =
     bnd (get_conn c w) (\<lambda>C.
     bnd (get_channel (tc_channel C) w) (\<lambda>ch.
     if isWriting ch
     then
       bnd (writeFd os (ch_fd ch) (tc_outputBuffer C) w) (\<lambda>(n, w).
       case n of
         Inl e \<Rightarrow> Inr (log_msg ERROR w)
       | Inr n \<Rightarrow> if 0 < n then after_write os c C n w else Inr (log_msg ERROR w))
     else Inr (log_msg ERROR w)))"

section \<open>Establishing and destroying\<close>

definition connectEstablished ::
  "(user_fn \<Rightarrow> call \<Rightarrow> 'a cworld_scheme \<Rightarrow> api_call list) \<Rightarrow> os \<Rightarrow> conn_id
     \<Rightarrow> 'a cworld_scheme \<Rightarrow> failure + 'a cworld_scheme" where
  "connectEstablished user os c w =
     bnd (upd_conn c (setState kConnected) w) (\<lambda>w.
     bnd (get_conn c w) (\<lambda>C.
     bnd (get_channel (tc_channel C) w) (\<lambda>ch.
     bnd (enableReading os (tc_channel C) (put_channel (tc_channel C) (tie c ch) w)) (\<lambda>w.
     call_user user os (tc_connectionCallback C) (OnConnection c) w))))"

definition connectDistroyed ::
  "(user_fn \<Rightarrow> call \<Rightarrow> 'a cworld_scheme \<Rightarrow> api_call list) \<Rightarrow> os \<Rightarrow> conn_id
     \<Rightarrow> 'a cworld_scheme \<Rightarrow> failure + 'a cworld_scheme" where
  "connectDistroyed user os c w =
     bnd (get_conn c w) (\<lambda>C.
     bnd (if tc_state C = kConnected
          then
            bnd (disableAll os (tc_channel C) (put_conn c (setState kDisconnected C) w)) (\<lambda>w.
            call_user user os (tc_connectionCallback C) (OnConnection c) w)
          else Inr w)
       (Channel_remove os (tc_channel C)))"

section \<open>What the steps of a connection leave alone\<close>

lemma get_conn_Inr [simp]: "get_conn c w = Inr C \<longleftrightarrow> conns w c = Some C"
  by (simp add: get_conn_def split: option.splits)

lemma get_conn_simps [simp]: "conns w c = Some C \<Longrightarrow> get_conn c w = Inr C"
  by simp

lemma put_conn_simps [simp]:
  "conns (put_conn c C w) = (conns w)(c \<mapsto> C)" "trace (put_conn c C w) = trace w"
  "chans (put_conn c C w) = chans w" "loops (put_conn c C w) = loops w"
  "cur_tid (put_conn c C w) = cur_tid w" "strings (put_conn c C w) = strings w"
  "calls (put_conn c C w) = calls w" "t_loopInThisThread (put_conn c C w) = t_loopInThisThread w"
  by (simp_all add: put_conn_def)

lemma cworld_updates [simp]:
  "conns (emit e w) = conns w" "conns (log_msg v w) = conns w"
  "conns (put_channel p ch w) = conns w" "conns (put_loop l L w) = conns w"
  "strings (emit e w) = strings w" "strings (log_msg v w) = strings w"
  "strings (put_channel p ch w) = strings w" "strings (put_loop l L w) = strings w"
  "calls (emit e w) = calls w" "calls (log_msg v w) = calls w"
  "calls (put_channel p ch w) = calls w" "calls (put_loop l L w) = calls w"
  by (simp_all add: emit_def log_msg_def put_channel_def put_loop_def)

lemma more_fields:
  assumes "lworld.more (w :: 'a cworld_scheme) = lworld.more w'"
  shows "conns w = conns w'" and "strings w = strings w'" and "calls w = calls w'"
  using assms by (cases w; cases w'; simp)+

text \<open>
  A connection as the thread of its loop sees it: its object, its channel, and a loop whose
  wake-up descriptor is not the connection's socket.
\<close>

definition shows_conn :: "conn_id \<Rightarrow> tcp_connection \<Rightarrow> channel \<Rightarrow> 'a cworld_scheme \<Rightarrow> bool" where
  "shows_conn c C ch w \<longleftrightarrow>
     conns w c = Some C \<and> chans w (tc_channel C) = Some ch \<and> ch_fd ch = tc_socket C \<and>
     ch_loop ch = tc_loop C \<and>
     (\<exists>L. loops w (tc_loop C) = Some L \<and> el_wakeupFd L \<noteq> tc_socket C \<and> isInLoopThread L w)"

text \<open>Calls that do not concern the connection's socket.\<close>

definition quiet_frame :: "c_int \<Rightarrow> 'a cworld_scheme \<Rightarrow> 'a cworld_scheme \<Rightarrow> bool" where
  "quiet_frame fd w w' \<longleftrightarrow> (\<exists>es. trace w' = trace w @ es \<and> list_all (quiet fd) es)"

lemma isInLoopThread_cong: "cur_tid w' = cur_tid w \<Longrightarrow> isInLoopThread L w' = isInLoopThread L w"
  by (simp add: isInLoopThread_def)

lemma isInLoopThread_simps [simp]:
  "isInLoopThread L (emit e w) = isInLoopThread L w"
  "isInLoopThread L (log_msg v w) = isInLoopThread L w"
  "isInLoopThread L (put_conn c C w) = isInLoopThread L w"
  "isInLoopThread L (put_channel p ch w) = isInLoopThread L w"
  by (simp_all add: isInLoopThread_def)

lemma quiet_frame_refl [simp]: "quiet_frame fd w w"
  by (simp add: quiet_frame_def)

lemma quiet_frame_same: "trace w' = trace w \<Longrightarrow> quiet_frame fd w w'"
  by (simp add: quiet_frame_def)

lemma quiet_frame_trans: "quiet_frame fd w v \<Longrightarrow> quiet_frame fd v w' \<Longrightarrow> quiet_frame fd w w'"
  by (force simp: quiet_frame_def)

lemma quiet_frame_tables:
  "quiet_frame fd w w' \<Longrightarrow>
     sent_on (trace w') fd = sent_on (trace w) fd \<and> shut_on (trace w') fd = shut_on (trace w) fd"
  by (auto simp: quiet_frame_def quiet_tables)

lemma queue_shows:
  assumes q: "queueInLoop os (tc_loop C) f w = Inr w'" and c: "shows_conn c C ch w"
  shows "shows_conn c C ch w'" and "quiet_frame (tc_socket C) w w'"
    and "strings w' = strings w" and "calls w' = calls w" and "cur_tid w' = cur_tid w"
proof -
  from q obtain L es where L: "loops w (tc_loop C) = Some L"
      "w' = (put_loop (tc_loop C) (L\<lparr>el_pendingFunctors := el_pendingFunctors L @ [f]\<rparr>) w)
        \<lparr>trace := trace w @ es\<rparr>"
      "list_all (is_wake (el_wakeupFd L)) es"
    by (rule queueInLoop_frame) blast
  with c show "shows_conn c C ch w'"
    by (auto simp: shows_conn_def put_loop_def isInLoopThread_def)
  from c L(1) have "el_wakeupFd L \<noteq> tc_socket C" by (simp add: shows_conn_def)
  with L show "quiet_frame (tc_socket C) w w'"
    by (auto simp: quiet_frame_def intro: is_wake_quiet)
  show "strings w' = strings w" "calls w' = calls w" "cur_tid w' = cur_tid w"
    using L(2) by (simp_all add: put_loop_def)
qed

lemma notify_shows:
  assumes "notify_complete os c' C w = Inr w'" and c: "shows_conn c C ch w"
  shows "shows_conn c C ch w'" and "quiet_frame (tc_socket C) w w'"
    and "strings w' = strings w" and "calls w' = calls w" and "cur_tid w' = cur_tid w"
  using assms(1) c queue_shows [OF _ c]
  by (auto simp: notify_complete_def split: option.splits)

lemma wakeupFd_frame:
  assumes "ctl_frame w w'" and "loops w l = Some L"
  shows "\<exists>L'. loops w' l = Some L' \<and> el_wakeupFd L' = el_wakeupFd L \<and>
    isInLoopThread L' w' = isInLoopThread L w"
proof -
  from assms have "map_option (el_poller_update (\<lambda>_. None)) (loops w' l) =
      Some (el_poller_update (\<lambda>_. None) L)"
    by (simp add: ctl_frame_def)
  then obtain L' where L': "loops w' l = Some L'"
      "el_poller_update (\<lambda>_. None) L' = el_poller_update (\<lambda>_. None) L"
    by auto
  from arg_cong [OF L'(2), of el_wakeupFd] arg_cong [OF L'(2), of el_threadId] L'(1) assms(1)
  show ?thesis by (simp add: isInLoopThread_def ctl_frame_def)
qed

lemma interest_shows:
  assumes i: "Channel_interest os i (tc_channel C) w = Inr w'" and c: "shows_conn c C ch w"
  obtains j where "shows_conn c C (set_index j (set_interest i ch)) w'"
    and "quiet_frame (tc_socket C) w w'" and "strings w' = strings w" and "calls w' = calls w"
    and "cur_tid w' = cur_tid w"
proof -
  from i c obtain j where w': "chans w' = (chans w)(tc_channel C \<mapsto> set_index j (set_interest i ch))"
      and frame: "ctl_frame w w'"
    by (elim Channel_interest_frame) (auto simp: shows_conn_def)
  from frame have more: "lworld.more w' = lworld.more w" and tid: "cur_tid w' = cur_tid w"
      and "\<exists>es. trace w' = trace w @ es \<and> list_all is_ctl es"
    by (simp_all add: ctl_frame_def)
  then have "quiet_frame (tc_socket C) w w'" by (auto simp: quiet_frame_def intro: is_ctl_quiet)
  moreover have "shows_conn c C (set_index j (set_interest i ch)) w'"
    using c w' more_fields(1) [OF more] wakeupFd_frame [OF frame]
    by (fastforce simp: shows_conn_def)
  ultimately show ?thesis using that more_fields(2,3) [OF more] tid by blast
qed

lemma put_conn_shows:
  assumes "shows_conn c C ch w"
    and "tc_loop C' = tc_loop C" "tc_socket C' = tc_socket C" "tc_channel C' = tc_channel C"
  shows "shows_conn c C' ch (put_conn c C' w)"
  using assms by (simp add: shows_conn_def)

section \<open>The output stream\<close>

text \<open>
  What a connection promises between two of its steps: well-formed buffers, and output watched
  exactly while there is output (a connection that was destroyed while it had output keeps the
  bytes and stops watching).
\<close>

definition conn_ok :: "conn_id \<Rightarrow> tcp_connection \<Rightarrow> channel \<Rightarrow> 'a cworld_scheme \<Rightarrow> bool" where
  "conn_ok c C ch w \<longleftrightarrow>
     shows_conn c C ch w \<and> buffer_inv (tc_inputBuffer C) \<and> buffer_inv (tc_outputBuffer C) \<and>
     (isWriting ch \<longrightarrow> readable (tc_outputBuffer C) \<noteq> []) \<and>
     (readable (tc_outputBuffer C) \<noteq> [] \<longrightarrow> isWriting ch \<or> tc_state C = kDisconnected)"

definition conn_inv :: "conn_id \<Rightarrow> 'a cworld_scheme \<Rightarrow> bool" where
  "conn_inv c w \<longleftrightarrow> (\<exists>C ch. conn_ok c C ch w)"

text \<open>Every byte the connection has taken responsibility for, in order.\<close>

definition out_stream :: "conn_id \<Rightarrow> 'a cworld_scheme \<Rightarrow> bytes" where
  "out_stream c w = (case conns w c of
     None \<Rightarrow> []
   | Some C \<Rightarrow> sent_on (trace w) (tc_socket C) @ readable (tc_outputBuffer C))"

definition peer_gone :: "os \<Rightarrow> c_int \<Rightarrow> bytes \<Rightarrow> 'a cworld_scheme \<Rightarrow> bool" where
  "peer_gone os fd d w \<longleftrightarrow>
     os_write os (trace w) fd d = Inl EPIPE \<or> os_write os (trace w) fd d = Inl ECONNRESET"

lemma emit_shows [simp]:
  "shows_conn c C ch (emit e w) = shows_conn c C ch w"
  "shows_conn c C ch (log_msg v w) = shows_conn c C ch w"
  by (simp_all add: shows_conn_def)

lemma quiet_frame_log [simp]: "quiet_frame fd w (log_msg v w)"
  by (simp add: quiet_frame_def)

lemma unat_rest: "n \<le> unat len \<Longrightarrow> unat (len - of_nat n :: size_t) = unat len - n"
  using unsigned_less [of len, where 'a = nat]
  by (simp add: unat_diff word_le_nat_alt unat_of_nat_size)

lemma send_direct_Inr:
  assumes run: "send_direct os c C (tc_socket C) data len w = Inr (n, remaining, fault, w')"
    and c: "shows_conn c C ch w" and os: "write_contract os" and len: "length data = unat len"
  shows "shows_conn c C ch w'" and "unat remaining = length data - n" and "n \<le> length data"
    and "sent_on (trace w') (tc_socket C) = sent_on (trace w) (tc_socket C) @ take n data"
    and "shut_on (trace w') (tc_socket C) = shut_on (trace w) (tc_socket C)"
    and "fault = peer_gone os (tc_socket C) data w" and "fault \<Longrightarrow> n = 0"
    and "strings w' = strings w" and "calls w' = calls w" and "cur_tid w' = cur_tid w"
proof -
  let ?fd = "tc_socket C" and ?r = "os_write os (trace w) (tc_socket C) data"
  let ?w = "emit (EvWrite ?fd data ?r) w"
  have "shows_conn c C ch w' \<and> unat remaining = length data - n \<and> n \<le> length data \<and>
    sent_on (trace w') ?fd = sent_on (trace w) ?fd @ take n data \<and>
    shut_on (trace w') ?fd = shut_on (trace w) ?fd \<and>
    fault = peer_gone os ?fd data w \<and> (fault \<longrightarrow> n = 0) \<and>
    strings w' = strings w \<and> calls w' = calls w \<and> cur_tid w' = cur_tid w"
  proof (cases ?r)
    case (Inl e)
    with run c len show ?thesis
      by (auto simp: send_direct_def sys_write_def Let_def table_append peer_gone_def
          split: if_splits)
  next
    case (Inr k)
    then have k: "k \<le> unat len" using write_contractD [OF os] len by metis
    have w: "shows_conn c C ch ?w" "sent_on (trace ?w) ?fd = sent_on (trace w) ?fd @ take k data"
      "shut_on (trace ?w) ?fd = shut_on (trace w) ?fd"
      using c Inr by (simp_all add: table_append)
    from run Inr have "n = k" "remaining = len - of_nat k" "\<not> fault"
        "w' = ?w \<or> notify_complete os c C ?w = Inr w'"
      by (auto simp: send_direct_def sys_write_def Let_def split: if_splits)
    with w k len Inr quiet_frame_tables [OF notify_shows(2) [OF _ w(1)]] notify_shows [OF _ w(1)]
    show ?thesis by (auto simp: unat_rest peer_gone_def)
  qed
  then show "shows_conn c C ch w'" and "unat remaining = length data - n" and "n \<le> length data"
    and "sent_on (trace w') ?fd = sent_on (trace w) ?fd @ take n data"
    and "shut_on (trace w') ?fd = shut_on (trace w) ?fd"
    and "fault = peer_gone os ?fd data w" and "fault \<Longrightarrow> n = 0"
    and "strings w' = strings w" and "calls w' = calls w" and "cur_tid w' = cur_tid w"
    by auto
qed

lemma send_rest_Inr:
  assumes run: "send_rest os c rest remaining w = Inr w'" and c: "shows_conn c C ch w"
    and out: "buffer_inv (tc_outputBuffer C)"
  obtains b ch' where "shows_conn c (C\<lparr>tc_outputBuffer := b\<rparr>) ch' w'" and "buffer_inv b"
    and "readable b = readable (tc_outputBuffer C) @ take (unat remaining) rest"
    and "unat remaining \<le> length rest"
    and "isWriting ch'" and "quiet_frame (tc_socket C) w w'" and "strings w' = strings w"
    and "calls w' = calls w" and "cur_tid w' = cur_tid w"
proof -
  from run c obtain v where q: "queue_high_water os c C remaining w = Inr v"
      and st: "store_rest os c C rest remaining v = Inr w'"
    by (auto simp: send_rest_def shows_conn_def)
  from q have v: "v = w \<or> (\<exists>f. queueInLoop os (tc_loop C) f w = Inr v)"
    by (auto simp: queue_high_water_def Let_def split: if_splits)
  from st obtain b where b: "append_buf rest remaining (tc_outputBuffer C) = Inr b"
    by (auto simp: store_rest_def)
  from v c queue_shows [OF _ c] have v: "shows_conn c C ch v" "quiet_frame (tc_socket C) w v"
      "strings v = strings w" "calls v = calls w" "cur_tid v = cur_tid w"
    by auto
  let ?C = "C\<lparr>tc_outputBuffer := b\<rparr>" and ?v = "put_conn c (C\<lparr>tc_outputBuffer := b\<rparr>) v"
  have C: "shows_conn c ?C ch ?v" by (rule put_conn_shows [OF v(1)]) simp_all
  have q: "quiet_frame (tc_socket C) w ?v"
    using v(2) by (rule quiet_frame_trans) (simp add: quiet_frame_same)
  note buf = append_Inr [OF out b]
  show ?thesis
  proof (cases "isWriting ch")
    case True
    with st b C have "w' = ?v" by (simp add: store_rest_def shows_conn_def)
    with True C q buf v show ?thesis by (intro that [of b ch]) simp_all
  next
    case False
    with st b C have "Channel_interest os EnableWriting (tc_channel ?C) ?v = Inr w'"
      by (simp add: store_rest_def shows_conn_def)
    then show ?thesis
    proof (rule interest_shows [OF _ C])
      fix j
      assume "shows_conn c ?C (set_index j (set_interest EnableWriting ch)) w'"
        and "quiet_frame (tc_socket ?C) ?v w'" "strings w' = strings ?v" "calls w' = calls ?v"
        "cur_tid w' = cur_tid ?v"
      with q buf v show ?thesis
        by (intro that [of b "set_index j (set_interest EnableWriting ch)"])
          (auto intro: quiet_frame_trans)
    qed
  qed
qed

text \<open>What a send adds to the stream: nothing on a closed connection or when the peer is gone.\<close>

definition accepted :: "os \<Rightarrow> tcp_connection \<Rightarrow> channel \<Rightarrow> bytes \<Rightarrow> 'a cworld_scheme \<Rightarrow> bytes" where
  "accepted os C ch d w =
     (if tc_state C = kDisconnected \<or> \<not> isWriting ch \<and> peer_gone os (tc_socket C) d w
      then [] else d)"

text \<open>
  How one step moves the stream: \<open>d\<close> is what it adds, and the kernel's part only grows. The
  members other than state and buffers stay.
\<close>

definition same_setup :: "tcp_connection \<Rightarrow> tcp_connection \<Rightarrow> bool" where
  "same_setup C C' \<longleftrightarrow>
     (\<exists>s i b. C' = C\<lparr>tc_state := s, tc_inputBuffer := i, tc_outputBuffer := b\<rparr>)"

lemma same_setup_refl [simp]: "same_setup C C"
  unfolding same_setup_def by (rule exI [of _ "tc_state C"], rule exI [of _ "tc_inputBuffer C"],
      rule exI [of _ "tc_outputBuffer C"]) simp

lemma same_setup_trans: "same_setup C D \<Longrightarrow> same_setup D E \<Longrightarrow> same_setup C E"
  unfolding same_setup_def by (elim exE, intro exI) simp

lemma same_setup_simps:
  "same_setup C C' \<Longrightarrow> tc_loop C' = tc_loop C" "same_setup C C' \<Longrightarrow> tc_socket C' = tc_socket C"
  "same_setup C C' \<Longrightarrow> tc_channel C' = tc_channel C"
  by (auto simp: same_setup_def)

definition stream_step ::
  "conn_id \<Rightarrow> tcp_connection \<Rightarrow> bytes \<Rightarrow> 'a cworld_scheme \<Rightarrow> tcp_connection \<Rightarrow> channel
     \<Rightarrow> 'a cworld_scheme \<Rightarrow> bool" where
  "stream_step c C d w C' ch' w' \<longleftrightarrow>
     conn_ok c C' ch' w' \<and> same_setup C C' \<and> out_stream c w' = out_stream c w @ d \<and>
     (\<exists>x. sent_on (trace w') (tc_socket C) = sent_on (trace w) (tc_socket C) @ x)"

lemma out_stream_ok:
  "shows_conn c C ch w \<Longrightarrow>
     out_stream c w = sent_on (trace w) (tc_socket C) @ readable (tc_outputBuffer C)"
  by (simp add: out_stream_def shows_conn_def)

lemma read_bytes_length: "read_bytes a len w = Inr d \<Longrightarrow> length d = unat len"
  by (auto simp: read_bytes_def split: if_splits option.splits)

lemma sendInLoop_Inr:
  assumes run: "sendInLoop os c a len w = Inr w'" and ok: "conn_ok c C ch w"
    and os: "write_contract os" and d: "read_bytes a len w = Inr d"
  obtains C' ch' where "stream_step c C (accepted os C ch d w) w C' ch' w'"
    and "tc_state C' = tc_state C" and "shut_on (trace w') (tc_socket C) = shut_on (trace w) (tc_socket C)"
    and "strings w' = strings w" and "calls w' = calls w" and "cur_tid w' = cur_tid w"
proof (cases "tc_state C = kDisconnected")
  case True
  from ok have c: "shows_conn c C ch w" by (simp add: conn_ok_def)
  with run True have "w' = log_msg ERROR w" by (auto simp: sendInLoop_def shows_conn_def)
  with ok True c show ?thesis
    by (intro that [of C ch]) (simp_all add: stream_step_def accepted_def conn_ok_def
        out_stream_ok [OF c] out_stream_ok [of c C ch "log_msg ERROR w"] table_append)
next
  case state: False
  from ok have c: "shows_conn c C ch w" and out: "buffer_inv (tc_outputBuffer C)"
      and watch: "isWriting ch = (readable (tc_outputBuffer C) \<noteq> [])"
    using state by (auto simp: conn_ok_def)
  let ?fd = "tc_socket C"
  have direct: "(\<not> isWriting ch \<and> readableBytes (tc_outputBuffer C) = 0) = (\<not> isWriting ch)"
    using watch by (simp add: readableBytes_0 [OF out])
  define tried where "tried = (if \<not> isWriting ch then send_direct os c C ?fd d len w
      else Inr (0, len, False, w))"
  have "sendInLoop os c a len w = bnd tried (\<lambda>(n, remaining, fault, v).
      if \<not> fault \<and> 0 < remaining then send_rest os c (drop n d) remaining v else Inr v)"
    using c state d direct by (auto simp: sendInLoop_def tried_def shows_conn_def)
  with run obtain n remaining fault v where
      v: "tried = Inr (n, remaining, fault, v)" and
      rest: "(if \<not> fault \<and> 0 < remaining then send_rest os c (drop n d) remaining v else Inr v) = Inr w'"
    by auto
  note len = read_bytes_length [OF d]
  have v': "shows_conn c C ch v \<and> unat remaining = length d - n \<and> n \<le> length d \<and>
      sent_on (trace v) ?fd = sent_on (trace w) ?fd @ take n d \<and>
      shut_on (trace v) ?fd = shut_on (trace w) ?fd \<and>
      fault = (\<not> isWriting ch \<and> peer_gone os ?fd d w) \<and> (fault \<longrightarrow> n = 0) \<and>
      (isWriting ch \<longrightarrow> n = 0) \<and>
      strings v = strings w \<and> calls v = calls w \<and> cur_tid v = cur_tid w"
    using v send_direct_Inr [OF _ c os len] c len
    by (cases "isWriting ch") (auto simp: tried_def)
  show ?thesis
  proof (cases "\<not> fault \<and> 0 < remaining")
    case False
    then have w': "w' = v" using rest by auto
    have "take n d = accepted os C ch d w"
    proof (cases fault)
      case True
      with v' show ?thesis by (simp add: accepted_def)
    next
      case no: False
      with False have "remaining = 0" by (simp add: word_gt_0)
      with v' no state show ?thesis by (auto simp: accepted_def)
    qed
    moreover have "readable (tc_outputBuffer C) = [] \<or> take n d = []" using v' watch by auto
    ultimately show ?thesis
      using w' v' ok c by (intro that [of C ch]) (auto simp: stream_step_def conn_ok_def
          out_stream_ok [OF c] out_stream_ok [of c C ch v])
  next
    case True
    with rest have "send_rest os c (drop n d) remaining v = Inr w'" by simp
    then show ?thesis
    proof (rule send_rest_Inr [OF _ _ out])
      show "shows_conn c C ch v" using v' by simp
      fix b ch'
      let ?C = "C\<lparr>tc_outputBuffer := b\<rparr>"
      assume C': "shows_conn c ?C ch' w'" "buffer_inv b"
        "readable b = readable (tc_outputBuffer C) @ take (unat remaining) (drop n d)"
        "isWriting ch'" "quiet_frame ?fd v w'" "strings w' = strings v" "calls w' = calls v"
        "cur_tid w' = cur_tid v"
      have members: "same_setup C ?C"
        unfolding same_setup_def by (intro exI [of _ "tc_state C"] exI [of _ "tc_inputBuffer C"]
            exI [of _ b]) simp
      have more: "take (unat remaining) (drop n d) = drop n d" "drop n d \<noteq> []"
        using v' True by (auto simp: word_less_nat_alt)
      have all: "accepted os C ch d w = d" using state v' True by (auto simp: accepted_def)
      have sent: "sent_on (trace w') ?fd = sent_on (trace w) ?fd @ take n d"
        using quiet_frame_tables [OF C'(5)] v' by simp
      have "readable (tc_outputBuffer C) = [] \<or> n = 0" using v' watch by auto
      then have "out_stream c w' = out_stream c w @ d"
        using more sent C'(3) by (auto simp: out_stream_ok [OF c] out_stream_ok [OF C'(1)])
      then have "stream_step c C (accepted os C ch d w) w ?C ch' w'"
        using C' ok more members sent all by (auto simp: stream_step_def conn_ok_def)
      then show ?thesis
        using C' v' quiet_frame_tables [OF C'(5)] by (intro that [of ?C ch']) auto
    qed
  qed
qed

text \<open>Shutting the write side: only when nothing is watched, hence nothing is left to send.\<close>

lemma shutdownInLoop_Inr:
  assumes run: "shutdownInLoop os c w = Inr w'" and c: "shows_conn c C ch w"
  shows "w' = (if isWriting ch then w else shutdownWrite os (tc_socket C) w)"
  using run c by (auto simp: shutdownInLoop_def shows_conn_def)

lemma shutdownWrite_tables [simp]:
  "conns (shutdownWrite os fd w) = conns w" "chans (shutdownWrite os fd w) = chans w"
  "loops (shutdownWrite os fd w) = loops w" "strings (shutdownWrite os fd w) = strings w"
  "calls (shutdownWrite os fd w) = calls w" "cur_tid (shutdownWrite os fd w) = cur_tid w"
  "isInLoopThread L (shutdownWrite os fd w) = isInLoopThread L w"
  "sent_on (trace (shutdownWrite os fd w)) fd' = sent_on (trace w) fd'"
  "shut_on (trace (shutdownWrite os fd w)) fd"
  by (simp_all add: shutdownWrite_def sys_shutdown_def Let_def table_append isInLoopThread_def)

text \<open>A socket whose write side was shut has nothing left in its buffer.\<close>

definition fin_ok :: "tcp_connection \<Rightarrow> 'a cworld_scheme \<Rightarrow> bool" where
  "fin_ok C w \<longleftrightarrow>
     (shut_on (trace w) (tc_socket C) \<longrightarrow>
        readable (tc_outputBuffer C) = [] \<and> tc_state C \<in> {kDisconnecting, kDisconnected})"

lemma stream_step_sub:
  assumes c: "shows_conn c C ch w" and c': "shows_conn c C' ch' w'"
    and "same_setup C C'" "buffer_inv (tc_inputBuffer C')" "buffer_inv (tc_outputBuffer C')"
    and "isWriting ch' \<longleftrightarrow> readable (tc_outputBuffer C') \<noteq> []"
    and "sent_on (trace w') (tc_socket C) = sent_on (trace w) (tc_socket C) @ x"
    and "x @ readable (tc_outputBuffer C') = readable (tc_outputBuffer C) @ d"
  shows "stream_step c C d w C' ch' w'"
  using assms same_setup_simps(2) [OF assms(3)]
  by (simp add: stream_step_def conn_ok_def out_stream_ok [OF c] out_stream_ok [OF c'])

lemma shutdownInLoop_ok:
  assumes run: "shutdownInLoop os c w = Inr w'" and ok: "conn_ok c C ch w" "fin_ok C w"
    and state: "tc_state C = kDisconnecting"
  shows "stream_step c C [] w C ch w'" and "fin_ok C w'"
proof -
  have c: "shows_conn c C ch w" using ok by (simp add: conn_ok_def)
  note w' = shutdownInLoop_Inr [OF run c]
  have c': "shows_conn c C ch w'" using c w' by (simp add: shows_conn_def)
  show "stream_step c C [] w C ch w'"
    using ok state w' by (intro stream_step_sub [OF c c', where x = "[]"]) (auto simp: conn_ok_def)
  show "fin_ok C w'" using ok state w' by (auto simp: fin_ok_def conn_ok_def)
qed

lemma stream_step_trans:
  assumes "stream_step c C d w C' ch' v" and "stream_step c C' d' v C'' ch'' w'"
  shows "stream_step c C (d @ d') w C'' ch'' w'"
  using assms same_setup_simps(2) [of C C']
  by (auto simp: stream_step_def intro: same_setup_trans)

lemma after_write_Inr:
  assumes run: "after_write os c C n w = Inr w'" and c: "shows_conn c C ch w"
    and buf: "buffer_inv (tc_inputBuffer C)" "buffer_inv (tc_outputBuffer C)"
    and n: "0 < n" "n \<le> length (readable (tc_outputBuffer C))" and wr: "isWriting ch"
    and sent: "sent_on (trace w) (tc_socket C) =
      sent_on h (tc_socket C) @ take n (readable (tc_outputBuffer C))"
    and fin: "shut_on (trace w) (tc_socket C) \<longrightarrow> False"
  obtains C' ch' where "conn_ok c C' ch' w'" and "same_setup C C'" and "tc_state C' = tc_state C"
    and "out_stream c w' = sent_on h (tc_socket C) @ readable (tc_outputBuffer C)"
    and "sent_on (trace w') (tc_socket C) = sent_on (trace w) (tc_socket C)"
    and "fin_ok C' w'" and "strings w' = strings w" and "calls w' = calls w"
    and "cur_tid w' = cur_tid w"
    and "readable (tc_outputBuffer C') = drop n (readable (tc_outputBuffer C))"
    and "tc_state C = kDisconnecting \<Longrightarrow> readable (tc_outputBuffer C') = [] \<Longrightarrow>
      shut_on (trace w') (tc_socket C)"
proof -
  let ?b = "retrieve (of_nat n) (tc_outputBuffer C)"
  let ?C = "C\<lparr>tc_outputBuffer := ?b\<rparr>"
  let ?v = "put_conn c ?C w"
  have "length (readable (tc_outputBuffer C)) < 2 ^ 64"
    using length_readable_bound [OF buf(2)] by simp
  then have un: "unat (of_nat n :: size_t) = n" using n by (intro unat_of_nat_size) simp
  have b: "buffer_inv ?b" "readable ?b = drop n (readable (tc_outputBuffer C))"
    using buf by (simp_all add: retrieve_inv retrieve_readable un)
  have C: "shows_conn c ?C ch ?v" by (rule put_conn_shows [OF c]) simp_all
  have members: "same_setup C ?C"
    unfolding same_setup_def by (intro exI [of _ "tc_state C"] exI [of _ "tc_inputBuffer C"]
        exI [of _ ?b]) simp
  show ?thesis
  proof (cases "readableBytes ?b = 0")
    case False
    with run have w': "w' = ?v" by (simp add: after_write_def Let_def)
    have "readable ?b \<noteq> []" using False b by (simp add: readableBytes_0)
    then show ?thesis
      using w' C b buf members wr sent fin
      by (intro that [of ?C ch]) (simp_all add: conn_ok_def out_stream_ok [OF C] fin_ok_def)
  next
    case True
    then have empty: "readable ?b = []" using readableBytes_0 [OF b(1)] by simp
    from True run obtain v1 v2 where v1: "disableWriting os (tc_channel ?C) ?v = Inr v1"
        and v2: "notify_complete os c C v1 = Inr v2" and last: "finish_shutdown os c v2 = Inr w'"
      by (auto simp: after_write_def Let_def)
    have same: "notify_complete os c ?C = notify_complete os c C"
      by (rule ext) (simp add: notify_complete_def split: option.splits)
    from v1 C show ?thesis
    proof (rule interest_shows)
      fix j
      let ?ch = "set_index j (set_interest DisableWriting ch)"
      assume s1: "shows_conn c ?C ?ch v1" "quiet_frame (tc_socket ?C) ?v v1"
        "strings v1 = strings ?v" "calls v1 = calls ?v" "cur_tid v1 = cur_tid ?v"
      have "notify_complete os c ?C v1 = Inr v2" using v2 by (simp only: same)
      note s2 = notify_shows [OF this s1(1)]
      have t2: "sent_on (trace v2) (tc_socket C) = sent_on (trace w) (tc_socket C)"
          "\<not> shut_on (trace v2) (tc_socket C)"
        using quiet_frame_tables [OF s1(2)] quiet_frame_tables [OF s2(2)] fin by simp_all
      have "w' = v2 \<and> tc_state C \<noteq> kDisconnecting \<or>
          w' = shutdownWrite os (tc_socket C) v2 \<and> tc_state C = kDisconnecting"
        using last s2(1) shutdownInLoop_Inr [OF _ s2(1)]
        by (auto simp: finish_shutdown_def shows_conn_def split: if_splits)
      then show ?thesis
      proof
        assume w': "w' = v2 \<and> tc_state C \<noteq> kDisconnecting"
        show ?thesis
          using s1 s2 t2 w' b buf members sent empty
          by (intro that [of ?C ?ch])
            (simp_all add: conn_ok_def out_stream_ok [OF s2(1)] fin_ok_def)
      next
        assume w': "w' = shutdownWrite os (tc_socket C) v2 \<and> tc_state C = kDisconnecting"
        then have c': "shows_conn c ?C ?ch w'" using s2(1) by (simp add: shows_conn_def)
        have "out_stream c w' = sent_on h (tc_socket C) @ readable (tc_outputBuffer C)"
          unfolding out_stream_ok [OF c'] using w' t2 sent b empty by simp
        then show ?thesis
          using s1 s2 t2 w' b buf members sent empty c'
          by (intro that [of ?C ?ch]) (simp_all add: conn_ok_def fin_ok_def)
      qed
    qed
  qed
qed

lemma handleWrite_Inr:
  assumes run: "handleWrite os c w = Inr w'" and ok: "conn_ok c C ch w"
    and fin: "fin_ok C w" and os: "write_contract os"
  obtains C' ch' where "stream_step c C [] w C' ch' w'" and "tc_state C' = tc_state C"
    and "fin_ok C' w'" and "strings w' = strings w" and "calls w' = calls w"
    and "cur_tid w' = cur_tid w"
    and "\<And>n. isWriting ch \<Longrightarrow>
      os_write os (trace w) (tc_socket C) (readable (tc_outputBuffer C)) = Inr n \<Longrightarrow>
      readable (tc_outputBuffer C') = drop n (readable (tc_outputBuffer C))"
    and "tc_state C = kDisconnecting \<Longrightarrow> readable (tc_outputBuffer C') = [] \<Longrightarrow>
      readable (tc_outputBuffer C) \<noteq> [] \<or> shut_on (trace w) (tc_socket C) \<Longrightarrow>
      shut_on (trace w') (tc_socket C)"
proof -
  from ok have c: "shows_conn c C ch w" and out: "buffer_inv (tc_outputBuffer C)"
      and inb: "buffer_inv (tc_inputBuffer C)"
    by (simp_all add: conn_ok_def)
  let ?fd = "tc_socket C" and ?b = "readable (tc_outputBuffer C)"
  let ?r = "os_write os (trace w) ?fd ?b"
  let ?w = "emit (EvWrite ?fd ?b ?r) w"
  show ?thesis
  proof (cases "isWriting ch \<and> (\<exists>n. ?r = Inr n \<and> 0 < n)")
    case False
    then have "w' = log_msg ERROR w \<or> w' = log_msg ERROR ?w \<and> sent_on (trace ?w) ?fd = sent_on (trace w) ?fd"
      using run c
      by (auto simp: handleWrite_def shows_conn_def writeFd_eq [OF out] sys_write_def Let_def
          table_append split: if_splits sum.splits)
    then have w': "shows_conn c C ch w'" "sent_on (trace w') ?fd = sent_on (trace w) ?fd"
        "shut_on (trace w') ?fd = shut_on (trace w) ?fd" "strings w' = strings w"
        "calls w' = calls w" "cur_tid w' = cur_tid w"
      using c by (auto simp: table_append)
    then have "stream_step c C [] w C ch w'"
      using ok by (simp add: stream_step_def conn_ok_def out_stream_ok [OF c] out_stream_ok [OF w'(1)])
    with w' fin False show ?thesis by (intro that [of C ch]) (auto simp: fin_ok_def)
  next
    case True
    then obtain n where n: "isWriting ch" "?r = Inr n" "0 < n" by auto
    then have len: "n \<le> length ?b" using write_contractD [OF os] by simp
    have step: "after_write os c C n ?w = Inr w'"
      using run c n by (simp add: handleWrite_def shows_conn_def writeFd_eq [OF out] sys_write_def
          Let_def)
    have w: "shows_conn c C ch ?w" "sent_on (trace ?w) ?fd = sent_on (trace w) ?fd @ take n ?b"
      using c n by (simp_all add: table_append)
    have open_fd: "shut_on (trace ?w) ?fd \<longrightarrow> False"
      using fin ok n len by (auto simp: fin_ok_def conn_ok_def table_append)
    show ?thesis
    proof (rule after_write_Inr [OF step w(1) inb out n(3) len n(1) w(2) open_fd])
      fix C' ch'
      assume C': "conn_ok c C' ch' w'" "same_setup C C'" "tc_state C' = tc_state C"
        "out_stream c w' = sent_on (trace w) ?fd @ ?b"
        "sent_on (trace w') ?fd = sent_on (trace ?w) ?fd" "fin_ok C' w'"
        "strings w' = strings ?w" "calls w' = calls ?w" "cur_tid w' = cur_tid ?w"
        "readable (tc_outputBuffer C') = drop n (readable (tc_outputBuffer C))"
        "tc_state C = kDisconnecting \<Longrightarrow> readable (tc_outputBuffer C') = [] \<Longrightarrow>
          shut_on (trace w') (tc_socket C)"
      then have "stream_step c C [] w C' ch' w'"
        using w(2) by (simp add: stream_step_def out_stream_ok [OF c])
      with C' n show ?thesis by (intro that [of C' ch']) simp_all
    qed
  qed
qed

section \<open>Scripts of a connection\<close>

text \<open>
  What happens to an established connection in its loop's thread: sends, shutdowns, reports that
  the socket is writable, and input taken by the user. The abstract machine is the list of bytes
  sent while the connection was connected.
\<close>

datatype conn_op = DoSend ptr bytes | DoShutdown | DoWritable | DoTake

fun conn_exec :: "os \<Rightarrow> conn_id \<Rightarrow> conn_op \<Rightarrow> 'a cworld_scheme \<Rightarrow> failure + 'a cworld_scheme" where
  "conn_exec os c (DoSend a d) = exec_api os (Send c a d)"
| "conn_exec os c DoShutdown = exec_api os (Shutdown c)"
| "conn_exec os c DoWritable = handleWrite os c"
| "conn_exec os c DoTake = exec_api os (RetrieveAllAsString c)"

fun spec_out :: "StateE \<Rightarrow> conn_op list \<Rightarrow> bytes" where
  "spec_out s [] = []"
| "spec_out s (DoSend a d # ops) = (if s = kConnected then d else []) @ spec_out s ops"
| "spec_out s (DoShutdown # ops) =
     spec_out (if s = kConnected then kDisconnecting else s) ops"
| "spec_out s (op # ops) = spec_out s ops"

text \<open>
  A send is lost when it is tried at once, nothing being in the way, and the kernel answers that the
  peer is gone. \<open>heard\<close> is a script without the sends that are lost when it runs.
\<close>

definition waiting :: "conn_id \<Rightarrow> 'a cworld_scheme \<Rightarrow> bytes" where
  "waiting c w = (case conns w c of None \<Rightarrow> [] | Some C \<Rightarrow> readable (tc_outputBuffer C))"

fun lost :: "os \<Rightarrow> conn_id \<Rightarrow> c_int \<Rightarrow> conn_op \<Rightarrow> 'a cworld_scheme \<Rightarrow> bool" where
  "lost os c fd (DoSend a d) w \<longleftrightarrow> waiting c w = [] \<and> peer_gone os fd d w"
| "lost os c fd _ w \<longleftrightarrow> False"

fun heard :: "os \<Rightarrow> conn_id \<Rightarrow> c_int \<Rightarrow> conn_op list \<Rightarrow> 'a cworld_scheme \<Rightarrow> conn_op list" where
  "heard os c fd [] w = []"
| "heard os c fd (op # ops) w =
     (if lost os c fd op w then [] else [op]) @
     (case conn_exec os c op w of Inl e \<Rightarrow> [] | Inr v \<Rightarrow> heard os c fd ops v)"

text \<open>A connection of a loop, on a socket, in a given state, all promises kept.\<close>

definition conn_good :: "conn_id \<Rightarrow> loop_id \<Rightarrow> c_int \<Rightarrow> StateE \<Rightarrow> 'a cworld_scheme \<Rightarrow> bool" where
  "conn_good c l fd s w \<longleftrightarrow>
     (\<exists>C ch. conn_ok c C ch w \<and> fin_ok C w \<and> tc_state C = s \<and> tc_loop C = l \<and> tc_socket C = fd)"

fun next_state :: "StateE \<Rightarrow> conn_op \<Rightarrow> StateE" where
  "next_state s DoShutdown = (if s = kConnected then kDisconnecting else s)"
| "next_state s _ = s"

fun added :: "StateE \<Rightarrow> conn_op \<Rightarrow> bytes" where
  "added s (DoSend a d) = (if s = kConnected then d else [])"
| "added s _ = []"

lemma spec_out_Cons: "spec_out s (op # ops) = added s op @ spec_out (next_state s op) ops"
  by (cases op) simp_all

lemma spec_out_heard:
  "conn_exec os c op w = Inr v \<Longrightarrow> spec_out s (heard os c fd (op # ops) w) =
     (if lost os c fd op w then [] else added s op) @ spec_out (next_state s op) (heard os c fd ops v)"
  by (cases op) simp_all

fun small_op :: "conn_op \<Rightarrow> bool" where
  "small_op (DoSend a d) \<longleftrightarrow> length d < 2 ^ 64"
| "small_op _ \<longleftrightarrow> True"

lemma strings_update [simp]:
  "conns (w\<lparr>strings := s\<rparr>) = conns w" "shows_conn c C ch (w\<lparr>strings := s\<rparr>) = shows_conn c C ch w"
  "conn_ok c C ch (w\<lparr>strings := s\<rparr>) = conn_ok c C ch w" "fin_ok C (w\<lparr>strings := s\<rparr>) = fin_ok C w"
  "out_stream c (w\<lparr>strings := s\<rparr>) = out_stream c w"
  by (simp_all add: shows_conn_def conn_ok_def fin_ok_def out_stream_def isInLoopThread_def
      cong: option.case_cong)

lemma send_own_thread:
  assumes "shows_conn c C ch w" and "strings w a = Some d"
  shows "send os c a w = (if tc_state C = kConnected
    then sendInLoop os c a (of_nat (length d)) w else Inr w)"
  using assms by (auto simp: send_def shows_conn_def)

lemma read_back:
  "strings w a = Some d \<Longrightarrow> length d < 2 ^ 64 \<Longrightarrow> read_bytes a (of_nat (length d)) w = Inr d"
  using unat_of_nat_size [of "length d"]
  by (cases "of_nat (length d) = (0 :: size_t)") (auto simp: read_bytes_def)

lemma shutdown_own_thread:
  assumes "shows_conn c C ch w"
  shows "shutdown_conn os c w = (if tc_state C = kConnected
    then shutdownInLoop os c (put_conn c (setState kDisconnecting C) w) else Inr w)"
  using assms by (auto simp: shutdown_conn_def shows_conn_def runInLoop_def)

lemma conn_exec_step:
  assumes os: "write_contract os" and small: "small_op op"
    and good: "conn_good c l fd s w" and s: "s \<in> {kConnected, kDisconnecting}"
    and run: "conn_exec os c op w = Inr w'"
  shows "conn_good c l fd (next_state s op) w' \<and>
    out_stream c w' = out_stream c w @ (if lost os c fd op w then [] else added s op)"
proof -
  from good obtain C ch where ok: "conn_ok c C ch w" "fin_ok C w" and st: "tc_state C = s"
      and lf: "tc_loop C = l" "tc_socket C = fd"
    by (auto simp: conn_good_def)
  then have c: "shows_conn c C ch w" and bufs: "buffer_inv (tc_inputBuffer C)"
    by (simp_all add: conn_ok_def)
  show ?thesis
  proof (cases op)
    case (DoSend a d)
    let ?w = "w\<lparr>strings := (strings w)(a \<mapsto> d)\<rparr>"
    from run DoSend obtain v where v: "send os c a ?w = Inr v"
        and w': "w' = v\<lparr>strings := (strings v)(a := None)\<rparr>"
      by auto
    have c1: "shows_conn c C ch ?w" and ok1: "conn_ok c C ch ?w" using c ok by simp_all
    show ?thesis
    proof (cases "s = kConnected")
      case False
      with v st have "v = ?w" by (simp add: send_own_thread [OF c1])
      then have "conn_ok c C ch w'" "fin_ok C w'" "out_stream c w' = out_stream c w"
        using ok w' by simp_all
      with False DoSend st lf show ?thesis unfolding conn_good_def by auto
    next
      case True
      with v st have run1: "sendInLoop os c a (of_nat (length d)) ?w = Inr v"
        by (simp add: send_own_thread [OF c1])
      have d: "read_bytes a (of_nat (length d)) ?w = Inr d"
        using small DoSend by (intro read_back) simp_all
      define x where "x = (if lost os c fd op w then [] else d)"
      have "isWriting ch = (waiting c w \<noteq> [])"
        using ok(1) c st True by (auto simp: conn_ok_def waiting_def shows_conn_def)
      then have all: "accepted os C ch d ?w = x"
        using st True DoSend lf by (simp add: accepted_def peer_gone_def x_def)
      have "\<exists>C' ch'. stream_step c C x ?w C' ch' v \<and> tc_state C' = tc_state C \<and>
          shut_on (trace v) (tc_socket C) = shut_on (trace w) (tc_socket C)"
        by (rule sendInLoop_Inr [OF run1 ok1 os d]) (auto simp: all)
      then obtain C' ch' where
          C': "stream_step c C x ?w C' ch' v" "tc_state C' = tc_state C"
          "shut_on (trace v) (tc_socket C) = shut_on (trace w) (tc_socket C)"
        by blast
      moreover have "\<not> shut_on (trace w) (tc_socket C)"
        using ok(2) st True by (auto simp: fin_ok_def)
      ultimately show ?thesis
        using DoSend True st w' lf same_setup_simps [of C C']
        by (auto simp: conn_good_def stream_step_def fin_ok_def x_def)
    qed
  next
    case DoShutdown
    show ?thesis
    proof (cases "s = kConnected")
      case False
      with run DoShutdown st lf ok show ?thesis
        by (auto simp: shutdown_own_thread [OF c] conn_good_def)
    next
      case True
      let ?C = "setState kDisconnecting C"
      have c1: "shows_conn c ?C ch (put_conn c ?C w)"
        by (rule put_conn_shows [OF c]) (simp_all add: setState_def)
      then have ok1: "conn_ok c ?C ch (put_conn c ?C w)" "fin_ok ?C (put_conn c ?C w)"
        using ok st True by (auto simp: conn_ok_def fin_ok_def setState_def)
      have run1: "shutdownInLoop os c (put_conn c ?C w) = Inr w'"
        using run DoShutdown True st by (simp add: shutdown_own_thread [OF c])
      have "tc_state ?C = kDisconnecting" by (simp add: setState_def)
      note shutdownInLoop_ok [OF run1 ok1 this]
      moreover have "out_stream c (put_conn c ?C w) = out_stream c w"
        by (simp add: out_stream_ok [OF c] out_stream_ok [OF c1]) (simp add: setState_def)
      ultimately show ?thesis
        using True DoShutdown lf by (auto simp: conn_good_def stream_step_def setState_def)
    qed
  next
    case DoWritable
    with run have "handleWrite os c w = Inr w'" by simp
    from handleWrite_Inr [OF this ok os] obtain C' ch' where
      "stream_step c C [] w C' ch' w'" "tc_state C' = tc_state C" "fin_ok C' w'"
      by metis
    with DoWritable st lf same_setup_simps [of C C'] show ?thesis
      by (auto simp: conn_good_def stream_step_def)
  next
    case DoTake
    let ?C = "C\<lparr>tc_inputBuffer := retrieveAll (tc_inputBuffer C)\<rparr>"
    have w': "w' = put_conn c ?C w"
      using run DoTake c by (auto simp: shows_conn_def retrieveAllAsString_eq [OF bufs])
    have c1: "shows_conn c ?C ch w'"
      unfolding w' by (rule put_conn_shows [OF c]) simp_all
    then have "conn_ok c ?C ch w'" "fin_ok ?C w'"
      using ok retrieveAll_inv [OF bufs] by (auto simp: conn_ok_def fin_ok_def w')
    moreover have "out_stream c w' = out_stream c w"
      by (simp add: out_stream_ok [OF c] out_stream_ok [OF c1]) (simp add: w')
    ultimately show ?thesis using DoTake st lf by (auto simp: conn_good_def)
  qed
qed

section \<open>Steps that cannot fail\<close>

text \<open>
  With poller and kernel in agreement (\<^const>\<open>loop_inv\<close>) and an output buffer below the largest
  vector, no step of a connection fails, and the agreement is kept.
\<close>

lemma loop_inv_cong:
  assumes "chans w' = chans w" and "loop_poller l w' = loop_poller l w"
    and "\<And>ep. interest (trace w') ep = interest (trace w) ep"
  shows "loop_inv os l w' = loop_inv os l w"
  using assms
  by (simp add: loop_inv_def distinct_fds_def poller_inv_def listed_def cong: option.case_cong)

lemma is_wake_interest: "list_all (is_wake fd) es \<Longrightarrow> interest (h @ es) ep = interest h ep"
proof (induction es rule: rev_induct)
  case Nil
  then show ?case by simp
next
  case (snoc e es)
  then have "interest_step ep e m = m" for m by (cases e) auto
  with snoc show ?case by (simp add: table_append)
qed

definition out_size :: "conn_id \<Rightarrow> 'a cworld_scheme \<Rightarrow> nat" where
  "out_size c w = (case conns w c of None \<Rightarrow> 0 | Some C \<Rightarrow> length (buffer_vec (tc_outputBuffer C)))"

lemma queue_total:
  assumes "loops w l = Some L"
  obtains w' where "queueInLoop os l f w = Inr w'" and "loop_inv os' l w' = loop_inv os' l w"
    and "conns w' = conns w"
proof -
  have "\<exists>w'. queueInLoop os l f w = Inr w'"
    using assms by (auto simp: queueInLoop_def wakeup_def Let_def split: prod.splits)
  then obtain w' where w': "queueInLoop os l f w = Inr w'" by blast
  then show ?thesis
  proof (rule queueInLoop_frame)
    fix L es
    assume L: "loops w l = Some L"
      "w' = (put_loop l (L\<lparr>el_pendingFunctors := el_pendingFunctors L @ [f]\<rparr>) w)
        \<lparr>trace := trace w @ es\<rparr>"
      "list_all (is_wake (el_wakeupFd L)) es"
    then have "loop_inv os' l w' = loop_inv os' l w"
      by (intro loop_inv_cong) (auto simp: is_wake_interest loop_poller_def)
    moreover have "conns w' = conns w" using L(2) by (simp add: put_loop_def)
    ultimately show ?thesis by (rule that [OF w'])
  qed
qed

lemma notify_total:
  assumes "shows_conn c C ch w" and "loop_inv os (tc_loop C) w"
  obtains w' where "notify_complete os c C w = Inr w'" and "loop_inv os (tc_loop C) w'"
    and "conns w' = conns w"
proof (cases "tc_writeCompleteCallback C")
  case None
  with assms show ?thesis by (intro that) (auto simp: notify_complete_def)
next
  case (Some g)
  from assms(1) obtain L where "loops w (tc_loop C) = Some L" by (auto simp: shows_conn_def)
  then show ?thesis
    by (rule queue_total [of w "tc_loop C" L os "F_writeComplete g c" os])
      (use Some assms(2) in \<open>auto simp: notify_complete_def intro: that\<close>)
qed

lemma interest_total:
  assumes "shows_conn c C ch w" and "loop_inv os (tc_loop C) w"
  obtains w' where "Channel_interest os i (tc_channel C) w = Inr w'" and "loop_inv os (tc_loop C) w'"
    and "conns w' = conns w"
proof -
  have "tc_channel C \<in> loop_owned (tc_loop C) w"
    using assms(1) by (auto simp: loop_owned_def shows_conn_def)
  from reg.change_law [OF assms(2) this, of i] obtain w' where
      w': "Channel_interest os i (tc_channel C) w = Inr w'" "loop_inv os (tc_loop C) w'"
    by blast
  from w'(1) have "ctl_frame w w'" by (rule Channel_interest_frame)
  with w' that more_fields(1) show ?thesis unfolding ctl_frame_def by blast
qed

lemma loop_inv_simps [simp]:
  "loop_inv os l (put_conn c C w) = loop_inv os l w"
  "loop_inv os l (log_msg v w) = loop_inv os l w"
  "loop_inv os l (emit (EvWrite fd d r) w) = loop_inv os l w"
  "loop_inv os l (w\<lparr>strings := s\<rparr>) = loop_inv os l w"
  "loop_inv os l (shutdownWrite os' fd w) = loop_inv os l w"
  by (rule loop_inv_cong; simp add: loop_poller_def table_append put_conn_def shutdownWrite_def
      sys_shutdown_def Let_def)+

lemma store_rest_total:
  assumes c: "shows_conn c C ch w" and inv: "loop_inv os (tc_loop C) w"
    and out: "buffer_inv (tc_outputBuffer C)" and len: "unat remaining \<le> length rest"
    and fits: "length (buffer_vec (tc_outputBuffer C)) + unat remaining < 2 ^ 63"
  obtains w' where "store_rest os c C rest remaining w = Inr w'" and "loop_inv os (tc_loop C) w'"
    and "out_size c w' \<le> length (buffer_vec (tc_outputBuffer C)) + unat remaining"
proof -
  have "unat (writerIndex (tc_outputBuffer C)) \<le> length (buffer_vec (tc_outputBuffer C))"
    using out by (simp add: buffer_inv_nat)
  then obtain b where b: "append_buf rest remaining (tc_outputBuffer C) = Inr b"
      "length (buffer_vec b) \<le> length (buffer_vec (tc_outputBuffer C)) + unat remaining"
    using append_ok [OF out len] fits by (fastforce simp: append_fits_def)
  let ?C = "C\<lparr>tc_outputBuffer := b\<rparr>"
  let ?w = "put_conn c ?C w"
  have c1: "shows_conn c ?C ch ?w" by (rule put_conn_shows [OF c]) simp_all
  show ?thesis
  proof (cases "isWriting ch")
    case True
    with b c1 inv show ?thesis
      by (intro that [of ?w]) (simp_all add: store_rest_def shows_conn_def out_size_def)
  next
    case False
    have "loop_inv os (tc_loop ?C) ?w" using inv by simp
    then show ?thesis
      by (rule interest_total [OF c1, where i = EnableWriting])
        (use False b c1 in \<open>auto simp: store_rest_def shows_conn_def out_size_def intro!: that\<close>)
  qed
qed

lemma send_direct_total:
  assumes c: "shows_conn c C ch w" and inv: "loop_inv os (tc_loop C) w"
  obtains n remaining fault w' where
    "send_direct os c C fd data len w = Inr (n, remaining, fault, w')"
    and "loop_inv os (tc_loop C) w'" and "conns w' = conns w"
proof -
  let ?r = "os_write os (trace w) fd data"
  let ?w = "emit (EvWrite fd data ?r) w"
  have w: "shows_conn c C ch ?w" "loop_inv os (tc_loop C) ?w" using c inv by simp_all
  show ?thesis
  proof (cases ?r)
    case (Inl e)
    with w show ?thesis
      by (cases "e = EWOULDBLOCK") (auto simp: send_direct_def sys_write_def Let_def intro: that)
  next
    case (Inr k)
    show ?thesis
    proof (cases "len - of_nat k = 0")
      case True
      from w obtain w' where "notify_complete os c C ?w = Inr w'" "loop_inv os (tc_loop C) w'"
          "conns w' = conns ?w"
        by (rule notify_total)
      with Inr True show ?thesis
        by (intro that [of k 0 False w']) (simp_all add: send_direct_def sys_write_def Let_def)
    next
      case False
      with Inr w show ?thesis
        by (intro that [of k "len - of_nat k" False ?w])
          (simp_all add: send_direct_def sys_write_def Let_def)
    qed
  qed
qed

lemma high_water_total:
  assumes c: "shows_conn c C ch w" and inv: "loop_inv os (tc_loop C) w"
  obtains w' where "queue_high_water os c C n w = Inr w'" and "loop_inv os (tc_loop C) w'"
    and "shows_conn c C ch w'"
proof -
  let ?f = "F_highWaterMark (tc_highWaterMarkCallback C) c (readableBytes (tc_outputBuffer C) + n)"
  from c obtain L where "loops w (tc_loop C) = Some L" by (auto simp: shows_conn_def)
  then obtain v where v: "queueInLoop os (tc_loop C) ?f w = Inr v"
      "loop_inv os (tc_loop C) v = loop_inv os (tc_loop C) w"
    by (rule queue_total)
  then have "shows_conn c C ch v" using queue_shows(1) [OF v(1) c] by simp
  with v c inv show ?thesis
    by (cases "queue_high_water os c C n w = Inr w") (auto simp: queue_high_water_def Let_def intro: that
        split: if_splits)
qed

lemma send_rest_total:
  assumes c: "shows_conn c C ch w" and inv: "loop_inv os (tc_loop C) w"
    and out: "buffer_inv (tc_outputBuffer C)" and len: "unat remaining \<le> length rest"
    and fits: "length (buffer_vec (tc_outputBuffer C)) + unat remaining < 2 ^ 63"
  obtains w' where "send_rest os c rest remaining w = Inr w'" and "loop_inv os (tc_loop C) w'"
    and "out_size c w' \<le> length (buffer_vec (tc_outputBuffer C)) + unat remaining"
proof -
  from c inv obtain v where v: "queue_high_water os c C remaining w = Inr v"
      "loop_inv os (tc_loop C) v" "shows_conn c C ch v"
    by (rule high_water_total)
  from v(3,2) out len fits obtain w' where "store_rest os c C rest remaining v = Inr w'"
      "loop_inv os (tc_loop C) w'"
      "out_size c w' \<le> length (buffer_vec (tc_outputBuffer C)) + unat remaining"
    by (rule store_rest_total)
  with v c show ?thesis by (intro that [of w']) (simp_all add: send_rest_def shows_conn_def)
qed

lemma sendInLoop_total:
  assumes ok: "conn_ok c C ch w" and inv: "loop_inv os (tc_loop C) w" and os: "write_contract os"
    and d: "read_bytes a len w = Inr d"
    and fits: "length (buffer_vec (tc_outputBuffer C)) + length d < 2 ^ 63"
  obtains w' where "sendInLoop os c a len w = Inr w'" and "loop_inv os (tc_loop C) w'"
    and "out_size c w' \<le> length (buffer_vec (tc_outputBuffer C)) + length d"
proof (cases "tc_state C = kDisconnected")
  case True
  with ok inv show ?thesis
    by (intro that [of "log_msg ERROR w"])
      (simp_all add: sendInLoop_def conn_ok_def shows_conn_def out_size_def)
next
  case state: False
  from ok have c: "shows_conn c C ch w" and out: "buffer_inv (tc_outputBuffer C)"
    by (simp_all add: conn_ok_def)
  note len = read_bytes_length [OF d]
  define tried where "tried = (if \<not> isWriting ch \<and> readableBytes (tc_outputBuffer C) = 0
      then send_direct os c C (tc_socket C) d len w else Inr (0, len, False, w))"
  have "\<exists>n remaining fault v. tried = Inr (n, remaining, fault, v) \<and> loop_inv os (tc_loop C) v \<and>
      conns v = conns w"
    unfolding tried_def using inv send_direct_total [OF c inv, of "tc_socket C" d len] by auto metis
  then obtain n remaining fault v where v: "tried = Inr (n, remaining, fault, v)"
      "loop_inv os (tc_loop C) v" "conns v = conns w"
    by blast
  have eq: "sendInLoop os c a len w =
      (if \<not> fault \<and> 0 < remaining then send_rest os c (drop n d) remaining v else Inr v)"
    using c state d v(1) by (auto simp: sendInLoop_def tried_def shows_conn_def)
  have v': "shows_conn c C ch v \<and> unat remaining = length d - n \<and> n \<le> length d"
    using v(1) send_direct_Inr [OF _ c os len] c len
    by (auto simp: tried_def split: if_splits)
  show ?thesis
  proof (cases "\<not> fault \<and> 0 < remaining")
    case False
    with eq v c show ?thesis
      by (intro that [of v]) (auto simp: out_size_def shows_conn_def)
  next
    case True
    have rest: "unat remaining \<le> length (drop n d)"
      "length (buffer_vec (tc_outputBuffer C)) + unat remaining < 2 ^ 63"
      using v' fits by auto
    from v' have "shows_conn c C ch v" by simp
    from this v(2) out rest obtain w' where
        "send_rest os c (drop n d) remaining v = Inr w'" "loop_inv os (tc_loop C) w'"
        "out_size c w' \<le> length (buffer_vec (tc_outputBuffer C)) + unat remaining"
      by (rule send_rest_total)
    with eq True v' show ?thesis by (intro that [of w']) auto
  qed
qed

lemma shutdown_total:
  assumes c: "shows_conn c C ch w" and inv: "loop_inv os l w"
  obtains w' where "shutdownInLoop os c w = Inr w'" and "loop_inv os l w'" and "conns w' = conns w"
  using c inv
  by (cases "isWriting ch")
    (auto simp: shutdownInLoop_def shows_conn_def intro: that)

lemma after_write_total:
  assumes c: "shows_conn c C ch w" and inv: "loop_inv os (tc_loop C) w"
  obtains w' where "after_write os c C n w = Inr w'" and "loop_inv os (tc_loop C) w'"
    and "out_size c w' = length (buffer_vec (tc_outputBuffer C))"
proof -
  let ?b = "retrieve (of_nat n) (tc_outputBuffer C)"
  let ?C = "C\<lparr>tc_outputBuffer := ?b\<rparr>"
  let ?v = "put_conn c ?C w"
  have vec: "buffer_vec ?b = buffer_vec (tc_outputBuffer C)"
    by (simp add: retrieve_def retrieveAll_def)
  have C: "shows_conn c ?C ch ?v" by (rule put_conn_shows [OF c]) simp_all
  show ?thesis
  proof (cases "readableBytes ?b = 0")
    case False
    with inv vec show ?thesis
      by (intro that [of ?v]) (simp_all add: after_write_def out_size_def Let_def)
  next
    case True
    from inv have "loop_inv os (tc_loop ?C) ?v" by simp
    from C this obtain v1 where v1: "disableWriting os (tc_channel ?C) ?v = Inr v1"
        "loop_inv os (tc_loop ?C) v1"
      by (rule interest_total)
    from interest_shows [OF v1(1) C] obtain ch1 where c1: "shows_conn c ?C ch1 v1" by metis
    from c1 v1(2) obtain v2 where v2: "notify_complete os c ?C v1 = Inr v2"
        "loop_inv os (tc_loop ?C) v2"
      by (rule notify_total)
    have c2: "shows_conn c ?C ch1 v2" by (rule notify_shows(1) [OF v2(1) c1])
    have same: "notify_complete os c ?C = notify_complete os c C"
      by (rule ext) (simp add: notify_complete_def split: option.splits)
    from c2 v2(2) obtain v3 where v3: "shutdownInLoop os c v2 = Inr v3"
        "loop_inv os (tc_loop ?C) v3" "conns v3 = conns v2"
      by (rule shutdown_total)
    have call: "after_write os c C n w =
        (if tc_state C = kDisconnecting then shutdownInLoop os c v2 else Inr v2)"
      using True v1(1) v2(1) c2
      by (simp add: after_write_def Let_def same finish_shutdown_def shows_conn_def)
    have "out_size c v2 = length (buffer_vec (tc_outputBuffer C))"
      using c2 vec by (simp add: out_size_def shows_conn_def)
    with call v2(2) v3 show ?thesis
      by (cases "tc_state C = kDisconnecting") (auto simp: out_size_def intro: that)
  qed
qed

lemma handleWrite_total:
  assumes ok: "conn_ok c C ch w" and inv: "loop_inv os (tc_loop C) w"
  obtains w' where "handleWrite os c w = Inr w'" and "loop_inv os (tc_loop C) w'"
    and "out_size c w' = length (buffer_vec (tc_outputBuffer C))"
proof -
  from ok have c: "shows_conn c C ch w" and out: "buffer_inv (tc_outputBuffer C)"
    by (simp_all add: conn_ok_def)
  let ?fd = "tc_socket C" and ?b = "readable (tc_outputBuffer C)"
  let ?w = "emit (EvWrite ?fd ?b (os_write os (trace w) ?fd ?b)) w"
  show ?thesis
  proof (cases "isWriting ch \<and> (\<exists>n. os_write os (trace w) ?fd ?b = Inr n \<and> 0 < n)")
    case False
    then have "handleWrite os c w = Inr (log_msg ERROR w) \<or> handleWrite os c w = Inr (log_msg ERROR ?w)"
      using c by (auto simp: handleWrite_def shows_conn_def writeFd_eq [OF out] sys_write_def Let_def
          split: sum.splits)
    with c inv show ?thesis by (auto simp: out_size_def shows_conn_def intro: that)
  next
    case True
    then obtain n where n: "isWriting ch" "os_write os (trace w) ?fd ?b = Inr n" "0 < n" by auto
    have "shows_conn c C ch ?w" "loop_inv os (tc_loop C) ?w" using c inv by simp_all
    then obtain w' where "after_write os c C n ?w = Inr w'" "loop_inv os (tc_loop C) w'"
        "out_size c w' = length (buffer_vec (tc_outputBuffer C))"
      by (rule after_write_total)
    with c n show ?thesis
      by (intro that [of w']) (simp_all add: handleWrite_def shows_conn_def writeFd_eq [OF out]
          sys_write_def Let_def)
  qed
qed

fun op_bytes :: "conn_op \<Rightarrow> nat" where
  "op_bytes (DoSend a d) = length d"
| "op_bytes _ = 0"

lemma conn_exec_total:
  assumes os: "write_contract os" and good: "conn_good c l fd s w"
    and inv: "loop_inv os l w" and room: "out_size c w + op_bytes op + n < 2 ^ 63"
  obtains w' where "conn_exec os c op w = Inr w'" and "loop_inv os l w'"
    and "out_size c w' + n < 2 ^ 63"
proof -
  from good obtain C ch where ok: "conn_ok c C ch w" and l: "tc_loop C = l"
    by (auto simp: conn_good_def)
  then have c: "shows_conn c C ch w" and inb: "buffer_inv (tc_inputBuffer C)"
    by (simp_all add: conn_ok_def)
  from room c inv l have inv: "loop_inv os (tc_loop C) w"
      and size: "length (buffer_vec (tc_outputBuffer C)) + op_bytes op + n < 2 ^ 63"
      "out_size c w = length (buffer_vec (tc_outputBuffer C))"
    by (auto simp: shows_conn_def out_size_def)
  show ?thesis
  proof (cases op)
    case (DoSend a d)
    let ?w = "w\<lparr>strings := (strings w)(a \<mapsto> d)\<rparr>"
    have d: "read_bytes a (of_nat (length d)) ?w = Inr d"
      using size DoSend by (intro read_back) simp_all
    have "conn_ok c C ch ?w" "loop_inv os (tc_loop C) ?w" using ok inv by simp_all
    from this os d obtain v where v: "sendInLoop os c a (of_nat (length d)) ?w = Inr v"
        "loop_inv os (tc_loop C) v"
        "out_size c v \<le> length (buffer_vec (tc_outputBuffer C)) + length d"
      by (rule sendInLoop_total) (use size DoSend in simp)
    have "shows_conn c C ch ?w" using c by simp
    from send_own_thread [OF this, of a d os]
    have "send os c a ?w = Inr v \<or> send os c a ?w = Inr ?w" using v by auto
    then show ?thesis
      using DoSend v l size inv
      by (elim disjE) (auto simp: out_size_def intro!: that)
  next
    case DoShutdown
    let ?C = "setState kDisconnecting C"
    have c1: "shows_conn c ?C ch (put_conn c ?C w)"
      by (rule put_conn_shows [OF c]) (simp_all add: setState_def)
    have "loop_inv os l (put_conn c ?C w)" using inv l by simp
    with c1 obtain v where "shutdownInLoop os c (put_conn c ?C w) = Inr v" "loop_inv os l v"
        "conns v = conns (put_conn c ?C w)"
      by (rule shutdown_total)
    with DoShutdown l size inv show ?thesis
      by (cases "tc_state C = kConnected")
        (auto simp: shutdown_own_thread [OF c] out_size_def setState_def intro!: that)
  next
    case DoWritable
    from ok inv obtain w' where "handleWrite os c w = Inr w'" "loop_inv os (tc_loop C) w'"
        "out_size c w' = length (buffer_vec (tc_outputBuffer C))"
      by (rule handleWrite_total)
    with DoWritable l size show ?thesis by (intro that [of w']) simp_all
  next
    case DoTake
    with c l size inv show ?thesis
      by (intro that [of "put_conn c (C\<lparr>tc_inputBuffer := retrieveAll (tc_inputBuffer C)\<rparr>) w"])
        (simp_all add: shows_conn_def retrieveAllAsString_eq [OF inb] out_size_def)
  qed
qed

fun total_bytes :: "conn_op list \<Rightarrow> nat" where
  "total_bytes [] = 0"
| "total_bytes (op # ops) = op_bytes op + total_bytes ops"

lemma next_state_open:
  "s \<in> {kConnected, kDisconnecting} \<Longrightarrow> next_state s op \<in> {kConnected, kDisconnecting}"
  by (cases op) auto

lemma script_runs:
  assumes os: "write_contract os"
  shows "conn_good c l fd s w \<Longrightarrow> s \<in> {kConnected, kDisconnecting} \<Longrightarrow> loop_inv os l w \<Longrightarrow>
    out_size c w + total_bytes ops < 2 ^ 63 \<Longrightarrow>
    \<exists>w'. run (map (conn_exec os c) ops) w = Inr w' \<and> loop_inv os l w' \<and>
      conn_good c l fd (fold (\<lambda>op s. next_state s op) ops s) w' \<and>
      out_stream c w' = out_stream c w @ spec_out s (heard os c fd ops w)"
proof (induction ops arbitrary: s w)
  case Nil
  then show ?case by simp
next
  case (Cons op ops)
  have small: "small_op op" using Cons.prems(4) by (cases op) simp_all
  have room: "out_size c w + op_bytes op + total_bytes ops < 2 ^ 63" using Cons.prems(4) by simp
  from os Cons.prems(1,3) room obtain v where v: "conn_exec os c op w = Inr v"
      "loop_inv os l v" "out_size c v + total_bytes ops < 2 ^ 63"
    by (rule conn_exec_total)
  note step = conn_exec_step [OF os small Cons.prems(1,2) v(1)]
  from Cons.IH [OF _ next_state_open [OF Cons.prems(2), of op] v(2,3)] step obtain w' where
      "run (map (conn_exec os c) ops) v = Inr w'" "loop_inv os l w'"
      "conn_good c l fd (fold (\<lambda>op s. next_state s op) ops (next_state s op)) w'"
      "out_stream c w' = out_stream c v @ spec_out (next_state s op) (heard os c fd ops v)"
    by blast
  with v(1) step show ?case by (auto simp: spec_out_heard simp del: heard.simps)
qed

lemma handleRead_ok:
  assumes "readv_contract os" and "conn_ok c C ch w"
    and "length (buffer_vec (tc_inputBuffer C)) + extrabuf_size < 2 ^ 63"
  shows "case os_readv os (trace w) (tc_socket C) (read_iov (tc_inputBuffer C)) of
      Inl e \<Rightarrow> \<exists>w' r. handleRead user close os c t w = Inr w' \<and> conns w' = conns w \<and>
        chans w' = chans w \<and> calls w' = calls w \<and>
        trace w' = trace w @ [EvReadv (tc_socket C) (read_iov (tc_inputBuffer C)) (Inl e),
          EvLog ERROR, EvGetsockopt (tc_socket C) r, EvLog ERROR]
    | Inr d \<Rightarrow> \<exists>b. buffer_inv b \<and> readable b = readable (tc_inputBuffer C) @ d \<and>
        handleRead user close os c t w =
          (let w' = put_conn c (C\<lparr>tc_inputBuffer := b\<rparr>)
             (emit (EvReadv (tc_socket C) (read_iov (tc_inputBuffer C)) (Inr d)) w)
           in if d = [] then handleClose user close os c w'
              else call_user user os (tc_messageCallback C) (OnMessage c t) w')"
proof -
  from assms(2) have inb: "buffer_inv (tc_inputBuffer C)" and c: "conns w c = Some C"
      "chans w (tc_channel C) = Some ch" "ch_fd ch = tc_socket C"
    by (simp_all add: conn_ok_def shows_conn_def)
  let ?in = "tc_inputBuffer C"
  show ?thesis
  proof (cases "os_readv os (trace w) (tc_socket C) (read_iov ?in)")
    case (Inl e)
    have same: "C\<lparr>tc_inputBuffer := ?in\<rparr> = C" "(conns w)(c \<mapsto> C) = conns w"
      using c(1) by (simp_all add: fun_upd_idem)
    from Inl c show ?thesis
      by (simp add: handleRead_def readFd_error handleError_def sys_getsockopt_def same Let_def
          log_msg_def emit_def put_conn_def)
  next
    case (Inr d)
    from readFd_ok [OF assms(1) inb assms(3) Inr] obtain b where
        b: "readFd os (tc_socket C) ?in w = Inr (Inr (of_nat (length d)), b,
          emit (EvReadv (tc_socket C) (read_iov ?in) (Inr d)) w)"
        "buffer_inv b" "readable b = readable ?in @ d"
      by blast
    have "unat (of_nat (length d) :: size_t) = length d"
      by (rule unat_of_nat_size [OF reply_length [OF assms(1) inb Inr]])
    then have "(of_nat (length d) :: size_t) = 0 \<longleftrightarrow> d = []" by auto
    with b c show ?thesis
      unfolding Inr sum.case by (intro exI [of _ b]) (simp add: handleRead_def Let_def)
  qed
qed

section \<open>Properties\<close>

text \<open>
  C1 (the output stream). For an established connection in its loop's thread, whatever the kernel
  answers to its writes: every script of sends, shutdowns, writable reports and input reads runs
  without failure. Afterwards the bytes the kernel took, followed by those in the output buffer, are
  exactly the earlier ones followed, in order, by the arguments of the sends made while the
  connection was connected, except those that were tried while nothing waited and that the kernel
  refused because the peer was gone. The channel watches for output exactly while the output buffer
  holds bytes; and if the write side has been shut, then only after the last of these bytes was
  handed to the kernel.
\<close>

theorem connection_stream:
  assumes "write_contract os"
    and "conn_good c l fd s w" and "s \<in> {kConnected, kDisconnecting}" and "loop_inv os l w"
    and "out_size c w + total_bytes ops < 2 ^ 63"
  shows "\<exists>w' C ch. run (map (conn_exec os c) ops) w = Inr w' \<and> loop_inv os l w' \<and>
    conns w' c = Some C \<and> chans w' (tc_channel C) = Some ch \<and>
    sent_on (trace w') fd @ readable (tc_outputBuffer C) =
      out_stream c w @ spec_out s (heard os c fd ops w) \<and>
    (isWriting ch \<longleftrightarrow> readable (tc_outputBuffer C) \<noteq> []) \<and>
    tc_state C = fold (\<lambda>op s. next_state s op) ops s \<and>
    (shut_on (trace w') fd \<longrightarrow>
       sent_on (trace w') fd = out_stream c w @ spec_out s (heard os c fd ops w) \<and>
       tc_state C = kDisconnecting)"
proof -
  from script_runs [OF assms] obtain w' where
      w': "run (map (conn_exec os c) ops) w = Inr w'" "loop_inv os l w'"
      "out_stream c w' = out_stream c w @ spec_out s (heard os c fd ops w)"
      and good: "conn_good c l fd (fold (\<lambda>op s. next_state s op) ops s) w'"
    by blast
  from good obtain C ch where C: "conn_ok c C ch w'" "fin_ok C w'" "tc_socket C = fd"
      "tc_state C = fold (\<lambda>op s. next_state s op) ops s"
    by (auto simp: conn_good_def)
  have "fold (\<lambda>op s. next_state s op) ops s \<in> {kConnected, kDisconnecting}"
    using assms(3) by (induction ops arbitrary: s) (use next_state_open in auto)
  then have "tc_state C \<noteq> kDisconnected" using C(4) by auto
  moreover have "shows_conn c C ch w'" using C(1) by (simp add: conn_ok_def)
  ultimately show ?thesis
    using w' C out_stream_ok [of c C ch w']
    by (intro exI [of _ w'] exI [of _ C] exI [of _ ch])
      (auto simp: conn_ok_def fin_ok_def shows_conn_def)
qed

text \<open>A connected connection on descriptor 9, its channel at address 16, for the witnesses.\<close>

definition demo_conn :: tcp_connection where
  "demo_conn =
     \<lparr>tc_loop = 0, tc_name = ''conn'', tc_state = kConnected, tc_reading = True, tc_socket = 9,
      tc_channel = 16,
      tc_localAddr = \<lparr>sin_family = 2, sin_port = 16415, sin_addr = 16777343\<rparr>,
      tc_peerAddr = \<lparr>sin_family = 2, sin_port = 1, sin_addr = 16777343\<rparr>,
      tc_connectionCallback = Some 0, tc_messageCallback = Some 1,
      tc_writeCompleteCallback = None, tc_highWaterMarkCallback = None,
      tc_closeCallback = Some TcpServer_removeConnection, tc_highWaterMark = kHighWaterMark,
      tc_inputBuffer = Buffer_ctor kInitialSize, tc_outputBuffer = Buffer_ctor kInitialSize\<rparr>"

definition demo_channel :: channel where
  "demo_channel = (Channel_ctor 0 9)\<lparr>ch_tie := Some 7, ch_tied := True\<rparr>"

definition demo_world :: "tid \<Rightarrow> cworld" where
  "demo_world t = \<lparr>trace = [], chans = [16 \<mapsto> demo_channel], cur_tid = t, loops = [0 \<mapsto> small_loop],
     t_loopInThisThread = [1 \<mapsto> 0], numCreated = 0, conns = [7 \<mapsto> demo_conn], strings = Map.empty, calls = []\<rparr>"

lemma demo_world_simps [simp]:
  "trace (demo_world t) = []" "chans (demo_world t) = [16 \<mapsto> demo_channel]"
  "conns (demo_world t) = [7 \<mapsto> demo_conn]" "loops (demo_world t) = [0 \<mapsto> small_loop]"
  "cur_tid (demo_world t) = t"
  by (simp_all add: demo_world_def)

lemma demo_conn_simps [simp]:
  "tc_loop demo_conn = 0" "tc_socket demo_conn = 9" "tc_channel demo_conn = 16"
  "tc_state demo_conn = kConnected" "tc_outputBuffer demo_conn = Buffer_ctor kInitialSize"
  "tc_inputBuffer demo_conn = Buffer_ctor kInitialSize" "tc_messageCallback demo_conn = Some 1"
  by (simp_all add: demo_conn_def)

lemma demo_channel_simps [simp]:
  "ch_fd demo_channel = 9" "ch_loop demo_channel = 0" "\<not> isWriting demo_channel"
  "ch_index demo_channel = kNew"
  by (simp_all add: demo_channel_def Channel_ctor_def isWriting_def kNew_def)

lemma demo_conn_ok: "conn_ok 7 demo_conn demo_channel (demo_world 1)"
  by (simp add: conn_ok_def shows_conn_def isInLoopThread_def)

lemma demo_conn_good: "conn_good 7 0 9 kConnected (demo_world 1)"
  using demo_conn_ok by (force simp: conn_good_def fin_ok_def shut_on_def)

lemma demo_loop_inv: "epoll_ctl_contract os \<Longrightarrow> loop_inv os 0 (demo_world t)"
  by (rule fresh_loop_inv [where m = Map.empty and p = 16 and ch = demo_channel and
        P = "\<lparr>po_ownerLoop = 0, po_epollfd = 3,
          po_events = replicate kInitEventListSize no_event, po_channels = Map.empty\<rparr>"])
    (simp_all add: loop_poller_def small_loop_def)

lemma demo_out [simp]: "out_stream 7 (demo_world t) = []" "out_size 7 (demo_world t) = 1032"
  by (simp add: out_stream_def)
    (simp add: out_size_def Buffer_ctor_def kCheapPrepend_def kInitialSize_def)

text \<open>A kernel that takes four bytes at a time, until the peer resets the connection.\<close>

definition reset_os :: os where
  "reset_os = demo_os\<lparr>os_write := \<lambda>h fd d.
     if h = [] then Inr (length d) else Inl ECONNRESET\<rparr>"

lemma reset_os_contracts: "write_contract reset_os" "epoll_ctl_contract reset_os"
  using demo_os_epoll_ctl
  by (simp_all add: reset_os_def write_contract_def epoll_ctl_contract_def)

lemma empty_out: "readableBytes (Buffer_ctor kInitialSize) = 0"
  by (simp add: Buffer_ctor_def readableBytes_def)

lemma demo_write: "tc_writeCompleteCallback demo_conn = None" "strings (demo_world t) = Map.empty"
  by (simp_all add: demo_conn_def demo_world_def)

text \<open>Two bytes go out; then the peer is gone, and the next send is lost.\<close>

theorem connection_stream_witness:
  "\<exists>w' C. run (map (conn_exec reset_os 7) [DoSend 100 [1, 2], DoSend 100 [3], DoShutdown]) (demo_world 1)
       = Inr w' \<and> conns w' 7 = Some C \<and>
     sent_on (trace w') 9 @ readable (tc_outputBuffer C) = [1, 2] \<and> tc_state C = kDisconnecting"
proof -
  have "spec_out kConnected (heard reset_os 7 9 [DoSend 100 [1, 2], DoSend 100 [3], DoShutdown] (demo_world 1))
      = [1, 2]"
    by (simp add: reset_os_def send_def get_conn_def get_loop_def get_channel_def isInLoopThread_def
        sendInLoop_def read_bytes_def send_direct_def sys_write_def notify_complete_def waiting_def
        peer_gone_def empty_out demo_write Let_def split: sum.split)
  with connection_stream [OF reset_os_contracts(1) demo_conn_good _
      demo_loop_inv [OF reset_os_contracts(2)], of "[DoSend 100 [1, 2], DoSend 100 [3], DoShutdown]"]
  show ?thesis by auto
qed

text \<open>
  C13 (what a send does). \<open>sendInLoop\<close> of a live string in the loop's thread never fails while the output
  buffer can grow. It adds nothing to the stream on a closed connection, and nothing when the
  direct attempt meets a lost peer; otherwise it adds the whole string, sent or buffered. The
  connection's promises hold afterwards and its state is unchanged.
\<close>

theorem sendInLoop_outcome:
  assumes "write_contract os" and "conn_ok c C ch w" and "loop_inv os (tc_loop C) w"
    and "read_bytes a len w = Inr d"
    and "length (buffer_vec (tc_outputBuffer C)) + length d < 2 ^ 63"
  shows "\<exists>w' C' ch'. sendInLoop os c a len w = Inr w' \<and> loop_inv os (tc_loop C) w' \<and>
    conn_ok c C' ch' w' \<and> tc_state C' = tc_state C \<and>
    out_stream c w' = out_stream c w @
      (if tc_state C = kDisconnected then []
       else if \<not> isWriting ch \<and> peer_gone os (tc_socket C) d w then [] else d) \<and>
    length (buffer_vec (tc_outputBuffer C')) \<le> length (buffer_vec (tc_outputBuffer C)) + length d"
proof -
  from assms(2,3,1,4,5) obtain w' where w': "sendInLoop os c a len w = Inr w'"
      "loop_inv os (tc_loop C) w'"
      "out_size c w' \<le> length (buffer_vec (tc_outputBuffer C)) + length d"
    by (rule sendInLoop_total)
  show ?thesis
  proof (rule sendInLoop_Inr [OF w'(1) assms(2,1,4)])
    fix C' ch'
    assume C': "stream_step c C (accepted os C ch d w) w C' ch' w'" "tc_state C' = tc_state C"
    then have "conns w' c = Some C'"
      by (simp add: stream_step_def conn_ok_def shows_conn_def)
    with w' C' show ?thesis
      by (intro exI [of _ w'] exI [of _ C'] exI [of _ ch'])
        (auto simp: stream_step_def accepted_def out_size_def)
  qed
qed

theorem sendInLoop_outcome_witness:
  "\<exists>w'. sendInLoop demo_os 7 100 6 ((demo_world 1)\<lparr>strings := [100 \<mapsto> [1, 2, 3, 4, 5, 6]]\<rparr>) = Inr w' \<and>
     out_stream 7 w' = [1, 2, 3, 4, 5, 6]"
proof -
  let ?w = "(demo_world 1)\<lparr>strings := [100 \<mapsto> [1, 2, 3, 4, 5, 6]]\<rparr>"
  have ok: "conn_ok 7 demo_conn demo_channel ?w" using demo_conn_ok by simp
  have inv: "loop_inv demo_os (tc_loop demo_conn) ?w"
    using demo_loop_inv [OF demo_os_epoll_ctl] by simp
  have d: "read_bytes 100 6 ?w = Inr [1, 2, 3, 4, 5, 6]" by (simp add: read_bytes_def)
  have "\<not> peer_gone demo_os 9 [1, 2, 3, 4, 5, 6] ?w" by (simp add: peer_gone_def demo_os_def)
  with sendInLoop_outcome [OF demo_os_write ok inv d] show ?thesis
    by (auto simp: Buffer_ctor_def kCheapPrepend_def kInitialSize_def)
qed

text \<open>
  C15 (what a readable report does). \<open>handleRead\<close> never fails by itself. Bytes that arrive are appended to the
  input buffer and the message callback is called once with them in place; an end of file runs
  \<open>handleClose\<close>; an error is logged twice, its cause fetched, and the connection left as it
  was, open and watched.
\<close>

theorem handleRead_outcome:
  assumes "readv_contract os" and "conn_ok c C ch w"
    and "length (buffer_vec (tc_inputBuffer C)) + extrabuf_size < 2 ^ 63"
  shows "case os_readv os (trace w) (tc_socket C) (read_iov (tc_inputBuffer C)) of
      Inl e \<Rightarrow> \<exists>w' r. handleRead user close os c t w = Inr w' \<and> conns w' = conns w \<and>
        chans w' = chans w \<and> calls w' = calls w \<and>
        trace w' = trace w @ [EvReadv (tc_socket C) (read_iov (tc_inputBuffer C)) (Inl e),
          EvLog ERROR, EvGetsockopt (tc_socket C) r, EvLog ERROR]
    | Inr d \<Rightarrow> \<exists>b. buffer_inv b \<and> readable b = readable (tc_inputBuffer C) @ d \<and>
        handleRead user close os c t w =
          (let w' = put_conn c (C\<lparr>tc_inputBuffer := b\<rparr>)
             (emit (EvReadv (tc_socket C) (read_iov (tc_inputBuffer C)) (Inr d)) w)
           in if d = [] then handleClose user close os c w'
              else call_user user os (tc_messageCallback C) (OnMessage c t) w')"
  by (rule handleRead_ok [OF assms])

theorem handleRead_outcome_witness:
  "\<exists>w' C. handleRead (\<lambda>f cl w. []) (\<lambda>f c w. Inr w) demo_os 7 5 (demo_world 1) = Inr w' \<and>
     calls w' = [OnMessage 7 5] \<and> conns w' 7 = Some C \<and> readable (tc_inputBuffer C) = [10, 20, 30]"
proof -
  have read: "os_readv demo_os [] 9 (read_iov (Buffer_ctor kInitialSize)) = Inr [10, 20, 30]"
    by (simp add: demo_os_def read_iov_def wirterableBytes_def buffer_size_def Buffer_ctor_def
        kCheapPrepend_def kInitialSize_def extrabuf_size_def)
  have room: "length (buffer_vec (tc_inputBuffer demo_conn)) + extrabuf_size < 2 ^ 63"
    by (simp add: Buffer_ctor_def kCheapPrepend_def kInitialSize_def extrabuf_size_def)
  from handleRead_outcome [OF demo_os_readv demo_conn_ok room, of "\<lambda>f cl w. []" "\<lambda>f c w. Inr w" 5]
  obtain b where "readable b = [10, 20, 30]" and "handleRead (\<lambda>f cl w. []) (\<lambda>f c w. Inr w) demo_os 7 5
      (demo_world 1) = call_user (\<lambda>f cl w. []) demo_os (Some 1) (OnMessage 7 5)
        (put_conn 7 (demo_conn\<lparr>tc_inputBuffer := b\<rparr>) (emit (EvReadv 9
          (read_iov (Buffer_ctor kInitialSize)) (Inr [10, 20, 30])) (demo_world 1)))"
    by (auto simp: read Let_def)
  then show ?thesis by (simp add: call_user_def) (simp add: demo_world_def)
qed

text \<open>
  C39 (a send from another thread keeps a dangling pointer). \<open>send\<close> called from a thread that does not run the
  connection's loop succeeds and queues \<open>sendInLoop\<close> with the address of the caller's
  characters. Once the caller's string is gone, nothing keeps them: the functor reads freed memory
  when the loop runs it, unless the connection was closed in between.
\<close>

theorem cross_thread_send_dangles:
  assumes "conns w c = Some C" and "chans w (tc_channel C) = Some ch" and "tc_state C = kConnected"
    and "loops w (tc_loop C) = Some L" and "cur_tid w \<noteq> el_threadId L"
    and "eventfd_contract os (el_wakeupFd L)" and "d \<noteq> []" and "length d < 2 ^ 64"
  shows "\<exists>w' L'. exec_api os (Send c a d) w = Inr w' \<and> loops w' (tc_loop C) = Some L' \<and>
    el_pendingFunctors L' = el_pendingFunctors L @ [F_sendInLoop c a (of_nat (length d))] \<and>
    conns w' = conns w \<and> chans w' = chans w \<and>
    sendInLoop os c a (of_nat (length d)) (w'\<lparr>cur_tid := el_threadId L\<rparr>) = Inl DanglingPointer"
proof -
  let ?w = "w\<lparr>strings := (strings w)(a \<mapsto> d)\<rparr>" and ?f = "F_sendInLoop c a (of_nat (length d))"
  have L: "loops ?w (tc_loop C) = Some L" using assms(4) by simp
  from queueInLoop_ok [OF L assms(6), of ?f] obtain v where
      v: "queueInLoop os (tc_loop C) ?f ?w = Inr v"
      "loops v = (loops w)(tc_loop C \<mapsto> L\<lparr>el_pendingFunctors := el_pendingFunctors L @ [?f]\<rparr>)"
      "chans v = chans w"
    by auto
  have "conns v = conns w"
    using v(1) by (rule queueInLoop_frame) (simp add: put_loop_def)
  moreover have "send os c a ?w = Inr v"
    using assms L v(1) by (simp add: send_def isInLoopThread_def runInLoop_def)
  moreover have "(of_nat (length d) :: size_t) \<noteq> 0"
    using unat_of_nat_size [OF assms(8)] assms(7) by (metis length_0_conv unat_0)
  ultimately show ?thesis
    using v assms(1-3) by (simp add: sendInLoop_def read_bytes_def get_conn_def get_channel_def)
qed

theorem cross_thread_send_dangles_witness:
  "\<exists>w'. exec_api (eventfd_os 4) (Send 7 100 [1, 2, 3]) (demo_world 2) = Inr w' \<and>
     sendInLoop (eventfd_os 4) 7 100 3 (w'\<lparr>cur_tid := 1\<rparr>) = Inl DanglingPointer"
  using cross_thread_send_dangles [of "demo_world 2" 7 demo_conn demo_channel small_loop
      "eventfd_os 4" "[1, 2, 3]" 100]
  by (auto simp: eventfd_os_contract)

end
