(* ===== verification/UserFrame.thy ===== *)
theory UserFrame
  imports TcpConnection
begin

text \<open>
  What user code can and cannot do to the library's state. The calls a callback can make (send,
  shutdown, taking input, setting callbacks) may change the state, the buffers and the user's
  callbacks of connections, append functors to loops, and talk to the kernel; they leave alone which
  connections exist and what they are connected to,
  which loops exist and whose thread runs them, the running thread, the record of callback calls
  and everything beyond the connections, in particular the server.
\<close>

definition same_loop :: "'f event_loop \<Rightarrow> 'f event_loop \<Rightarrow> bool" where
  "same_loop L L' \<longleftrightarrow>
     el_threadId L' = el_threadId L \<and> el_wakeupFd L' = el_wakeupFd L \<and> el_quit L' = el_quit L \<and>
     el_callingPendingFunctors L' = el_callingPendingFunctors L \<and>
     (\<exists>fs. el_pendingFunctors L' = el_pendingFunctors L @ fs)"

text \<open>
  A connection's state moves from connected to disconnecting only; its buffers and the callbacks of
  the user change freely.
\<close>

definition same_wiring :: "tcp_connection \<Rightarrow> tcp_connection \<Rightarrow> bool" where
  "same_wiring C C' \<longleftrightarrow>
     tc_loop C' = tc_loop C \<and> tc_name C' = tc_name C \<and> tc_reading C' = tc_reading C \<and>
     tc_socket C' = tc_socket C \<and> tc_channel C' = tc_channel C \<and>
     tc_localAddr C' = tc_localAddr C \<and> tc_peerAddr C' = tc_peerAddr C \<and>
     tc_closeCallback C' = tc_closeCallback C \<and> tc_highWaterMark C' = tc_highWaterMark C"

definition conn_moves :: "tcp_connection \<Rightarrow> tcp_connection \<Rightarrow> bool" where
  "conn_moves C C' \<longleftrightarrow>
     same_wiring C C' \<and>
     (tc_state C' = tc_state C \<or> tc_state C = kConnected \<and> tc_state C' = kDisconnecting)"

definition user_frame :: "'a cworld_scheme \<Rightarrow> 'a cworld_scheme \<Rightarrow> bool" where
  "user_frame w w' \<longleftrightarrow>
     cworld.more w' = cworld.more w \<and> cur_tid w' = cur_tid w \<and> calls w' = calls w \<and>
     (\<forall>c. rel_option conn_moves (conns w c) (conns w' c)) \<and>
     (\<forall>l. rel_option same_loop (loops w l) (loops w' l))"

lemma same_loop_refl [simp]: "same_loop L L"
  by (simp add: same_loop_def)

lemma same_loop_trans: "same_loop L K \<Longrightarrow> same_loop K M \<Longrightarrow> same_loop L M"
  by (auto simp: same_loop_def)

lemma conn_moves_refl [simp]: "conn_moves C C"
  by (simp add: conn_moves_def same_wiring_def)

lemma conn_moves_trans: "conn_moves C D \<Longrightarrow> conn_moves D E \<Longrightarrow> conn_moves C E"
  unfolding conn_moves_def same_wiring_def by auto

lemma user_frame_refl [simp]: "user_frame w w"
  by (simp add: user_frame_def option.rel_refl)

lemma rel_option_trans_with:
  "rel_option R x y \<Longrightarrow> rel_option R y z \<Longrightarrow> (\<And>a b c. R a b \<Longrightarrow> R b c \<Longrightarrow> R a c) \<Longrightarrow> rel_option R x z"
  by (cases x; cases y; cases z) auto

lemma user_frame_trans:
  assumes "user_frame w v" and "user_frame v u"
  shows "user_frame w u"
  using assms unfolding user_frame_def
  by (metis rel_option_trans_with conn_moves_trans same_loop_trans)

lemma user_frame_conn:
  "user_frame w w' \<Longrightarrow> conns w c = Some C \<Longrightarrow> \<exists>C'. conns w' c = Some C' \<and> conn_moves C C'"
  unfolding user_frame_def by (metis option_rel_Some1)

lemma user_frame_loop:
  "user_frame w w' \<Longrightarrow> loops w l = Some L \<Longrightarrow> \<exists>L'. loops w' l = Some L' \<and> same_loop L L'"
  unfolding user_frame_def by (metis option_rel_Some1)

lemma cworld_more_simps [simp]:
  "cworld.more (emit e w) = cworld.more w" "cworld.more (log_msg v w) = cworld.more w"
  "cworld.more (put_channel p ch w) = cworld.more w" "cworld.more (put_loop l L w) = cworld.more w"
  "cworld.more (put_conn c C w) = cworld.more w"
  by (simp_all add: emit_def log_msg_def put_channel_def put_loop_def put_conn_def)

lemma more_more: "lworld.more (w :: 'a cworld_scheme) = lworld.more w' \<Longrightarrow> cworld.more w = cworld.more w'"
  by (cases w; cases w'; simp)

text \<open>The elementary steps.\<close>

lemma frame_trace [simp]:
  "user_frame w (emit e w)" "user_frame w (log_msg v w)" "user_frame w (put_channel p ch w)"
  "user_frame w (w\<lparr>strings := s\<rparr>)" "user_frame w (log_msg v (emit e w))"
  by (simp_all add: user_frame_def option.rel_refl)

lemma frame_put_conn: "conns w c = Some C \<Longrightarrow> conn_moves C C' \<Longrightarrow> user_frame w (put_conn c C' w)"
  by (simp add: user_frame_def option.rel_refl)

lemma frame_queue:
  assumes "queueInLoop os l f w = Inr w'"
  shows "user_frame w w'"
proof -
  from assms obtain L es where
      L: "loops w l = Some L"
        "w' = (put_loop l (L\<lparr>el_pendingFunctors := el_pendingFunctors L @ [f]\<rparr>) w)
          \<lparr>trace := trace w @ es\<rparr>"
    by (rule queueInLoop_frame)
  have "same_loop L (L\<lparr>el_pendingFunctors := el_pendingFunctors L @ [f]\<rparr>)"
    by (simp add: same_loop_def)
  with L show ?thesis by (auto simp: user_frame_def put_loop_def option.rel_refl)
qed

lemma same_loop_poller: "el_poller_update (\<lambda>_. None) L' = el_poller_update (\<lambda>_. None) L \<Longrightarrow> same_loop L L'"
proof -
  assume eq: "el_poller_update (\<lambda>_. None) L' = el_poller_update (\<lambda>_. None) L"
  show ?thesis
    using arg_cong [OF eq, of el_threadId] arg_cong [OF eq, of el_wakeupFd] arg_cong [OF eq, of el_quit]
      arg_cong [OF eq, of el_callingPendingFunctors] arg_cong [OF eq, of el_pendingFunctors]
    by (simp add: same_loop_def)
qed

lemma frame_ctl: "ctl_frame w w' \<Longrightarrow> user_frame (w :: 'a cworld_scheme) w'"
proof -
  assume frame: "ctl_frame w w'"
  then have more: "lworld.more w' = lworld.more w" by (simp add: ctl_frame_def)
  have "rel_option same_loop (loops w l) (loops w' l)" for l
  proof -
    have "map_option (el_poller_update (\<lambda>_. None)) (loops w' l) =
        map_option (el_poller_update (\<lambda>_. None)) (loops w l)"
      using frame by (simp add: ctl_frame_def)
    then show ?thesis
      by (cases "loops w l"; cases "loops w' l") (auto intro: same_loop_poller)
  qed
  with frame more_fields [OF more] more_more [OF more] show ?thesis
    by (simp add: user_frame_def ctl_frame_def option.rel_refl)
qed

lemma frame_interest: "Channel_interest os i p w = Inr w' \<Longrightarrow> user_frame (w :: 'a cworld_scheme) w'"
  by (erule Channel_interest_frame) (rule frame_ctl)

lemma frame_remove: "Channel_remove os p w = Inr w' \<Longrightarrow> user_frame (w :: 'a cworld_scheme) w'"
  by (erule Channel_remove_frame) (rule frame_ctl)

lemma frame_shutdownWrite [simp]: "user_frame w (shutdownWrite os fd w)"
  by (auto simp: shutdownWrite_def sys_shutdown_def Let_def)

lemma conn_moves_updates [simp]:
  "conn_moves C (C\<lparr>tc_outputBuffer := b\<rparr>)" "conn_moves C (C\<lparr>tc_inputBuffer := b\<rparr>)"
  "conn_moves C (C\<lparr>tc_connectionCallback := g\<rparr>)" "conn_moves C (C\<lparr>tc_messageCallback := g\<rparr>)"
  "conn_moves C (C\<lparr>tc_writeCompleteCallback := g\<rparr>)" "conn_moves C (C\<lparr>tc_highWaterMarkCallback := g\<rparr>)"
  "tc_state C = kConnected \<Longrightarrow> conn_moves C (setState kDisconnecting C)"
  by (simp_all add: conn_moves_def same_wiring_def setState_def)

text \<open>The operations a callback can start.\<close>

lemma frame_notify: "notify_complete os c C w = Inr w' \<Longrightarrow> user_frame w w'"
  by (auto simp: notify_complete_def dest: frame_queue split: option.splits)

lemma frame_after:
  "user_frame (emit e w) w' \<Longrightarrow> user_frame w w'" "user_frame (w\<lparr>strings := s\<rparr>) w' \<Longrightarrow> user_frame w w'"
  "user_frame w v \<Longrightarrow> user_frame w (v\<lparr>strings := s'\<rparr>)"
  by (simp_all add: user_frame_def)

lemma frame_after_conn:
  "user_frame (put_conn c C' w) w' \<Longrightarrow> conns w c = Some C \<Longrightarrow> conn_moves C C' \<Longrightarrow> user_frame w w'"
  by (rule user_frame_trans [OF frame_put_conn])

lemma frame_send_direct:
  "send_direct os c C fd d len w = Inr (n, r, f, w') \<Longrightarrow> user_frame w w'"
  by (auto simp: send_direct_def sys_write_def Let_def dest!: frame_notify dest: frame_after
      split: sum.splits if_splits)

lemma frame_store_rest:
  assumes "store_rest os c C rest n w = Inr w'" and "conns w c = Some C"
  shows "user_frame w w'"
proof -
  from assms(1) obtain b where "append_buf rest n (tc_outputBuffer C) = Inr b"
    by (auto simp: store_rest_def)
  with assms(1) have "w' = put_conn c (C\<lparr>tc_outputBuffer := b\<rparr>) w \<or>
      enableWriting os (tc_channel C) (put_conn c (C\<lparr>tc_outputBuffer := b\<rparr>) w) = Inr w'"
    by (auto simp: store_rest_def Let_def split: if_splits)
  then show ?thesis
  proof
    assume "w' = put_conn c (C\<lparr>tc_outputBuffer := b\<rparr>) w"
    with assms(2) show ?thesis by (auto intro: frame_put_conn)
  next
    assume "enableWriting os (tc_channel C) (put_conn c (C\<lparr>tc_outputBuffer := b\<rparr>) w) = Inr w'"
    from frame_after_conn [OF frame_interest [OF this] assms(2)] show ?thesis by simp
  qed
qed

lemma queue_conns: "queueInLoop os l f (w :: 'a cworld_scheme) = Inr w' \<Longrightarrow> conns w' = conns w"
  by (erule queueInLoop_frame) (simp add: put_loop_def)

lemma frame_high_water:
  "queue_high_water os c C n w = Inr w' \<Longrightarrow> user_frame w w' \<and> conns w' = conns w"
  by (auto simp: queue_high_water_def Let_def dest: frame_queue queue_conns split: if_splits)

lemma frame_send_rest:
  assumes "send_rest os c rest n w = Inr w'"
  shows "user_frame w w'"
proof -
  from assms obtain C v where v: "conns w c = Some C" "queue_high_water os c C n w = Inr v"
      "store_rest os c C rest n v = Inr w'"
    by (auto simp: send_rest_def)
  from frame_high_water [OF v(2)] v(1) frame_store_rest [OF v(3)] show ?thesis
    by (auto intro: user_frame_trans)
qed

lemma frame_sendInLoop:
  assumes "sendInLoop os c a n w = Inr w'"
  shows "user_frame w w'"
proof -
  have "user_frame w v" if "(if b then send_direct os c C fd d n w else Inr (0, n, False, w)) =
      Inr (k, r, f, v)" for b C fd d k r f v
    using that by (auto dest: frame_send_direct split: if_splits)
  moreover have "user_frame v w'" if "(if b then send_rest os c d r v else Inr v) = Inr w'" for b d r v
    using that by (auto dest: frame_send_rest split: if_splits)
  ultimately show ?thesis
    using assms by (fastforce simp: sendInLoop_def intro: user_frame_trans split: if_split_asm)
qed

lemma frame_shutdownInLoop: "shutdownInLoop os c w = Inr w' \<Longrightarrow> user_frame w w'"
  by (auto simp: shutdownInLoop_def split: if_splits)

lemma frame_runInLoop:
  assumes "runInLoop exec os l f w = Inr w'" and "\<And>v. exec f w = Inr v \<Longrightarrow> user_frame w v"
  shows "user_frame w w'"
  using assms by (auto simp: runInLoop_def dest: frame_queue split: if_splits)

lemma frame_send:
  assumes "send os c a w = Inr w'"
  shows "user_frame w w'"
proof -
  from assms obtain C where C: "conns w c = Some C"
    by (auto simp: send_def)
  show ?thesis
  proof (cases "tc_state C = kConnected")
    case False
    with assms C show ?thesis by (simp add: send_def)
  next
    case True
    with assms C obtain s L where sL: "strings w a = Some s" "loops w (tc_loop C) = Some L"
      by (auto simp: send_def split: option.splits)
    with assms C True have
        run: "(if isInLoopThread L w then sendInLoop os c a (of_nat (length s)) w
               else runInLoop (\<lambda>f. sendInLoop os c a (of_nat (length s))) os (tc_loop C)
                      (F_sendInLoop c a (of_nat (length s))) w) = Inr w'"
      by (simp add: send_def)
    show ?thesis
    proof (cases "isInLoopThread L w")
      case True
      with run show ?thesis by (simp add: frame_sendInLoop)
    next
      case False
      with run have "runInLoop (\<lambda>f. sendInLoop os c a (of_nat (length s))) os (tc_loop C)
          (F_sendInLoop c a (of_nat (length s))) w = Inr w'" by simp
      then show ?thesis by (rule frame_runInLoop) (rule frame_sendInLoop)
    qed
  qed
qed

lemma frame_shutdown:
  assumes "shutdown_conn os c w = Inr w'"
  shows "user_frame w w'"
proof -
  from assms obtain C where C: "conns w c = Some C"
    by (auto simp: shutdown_conn_def)
  show ?thesis
  proof (cases "tc_state C = kConnected")
    case False
    with assms C show ?thesis by (simp add: shutdown_conn_def)
  next
    case True
    with assms C have "runInLoop (\<lambda>f. shutdownInLoop os c) os (tc_loop C) (F_shutdownInLoop c)
        (put_conn c (setState kDisconnecting C) w) = Inr w'" by (simp add: shutdown_conn_def)
    then have "user_frame (put_conn c (setState kDisconnecting C) w) w'"
      by (rule frame_runInLoop) (rule frame_shutdownInLoop)
    then show ?thesis by (rule frame_after_conn [OF _ C]) (simp add: True)
  qed
qed

lemma frame_retrieve:
  assumes "bnd (get_conn c w) (\<lambda>C. bnd (g C) (\<lambda>(s, b). Inr (put_conn c (C\<lparr>tc_inputBuffer := b\<rparr>) w))) = Inr w'"
  shows "user_frame w w'"
  using assms by (auto intro!: frame_put_conn)

lemma frame_exec_api:
  assumes "exec_api os a w = Inr w'"
  shows "user_frame w w'"
proof (cases a)
  case (Send c p d)
  with assms obtain v where v: "send os c p (w\<lparr>strings := (strings w)(p \<mapsto> d)\<rparr>) = Inr v"
      "w' = v\<lparr>strings := (strings v)(p := None)\<rparr>" by auto
  from frame_after (3) [OF frame_after (2) [OF frame_send [OF v(1)]]] v(2) show ?thesis by simp
next
  case (Shutdown c)
  with assms show ?thesis by (simp add: frame_shutdown)
next
  case (RetrieveAllAsString c)
  with assms show ?thesis by (simp only: exec_api.simps) (rule frame_retrieve)
next
  case (RetrieveAsString c n)
  with assms show ?thesis by (simp only: exec_api.simps) (rule frame_retrieve)
qed (use assms in \<open>auto simp: upd_conn_def intro: frame_put_conn\<close>)

text \<open>
  The lemma the server rests on: calling a user callback records the call, and otherwise does
  what user code can do.
\<close>

lemma call_user_Inr:
  assumes "call_user user os f cl w = Inr w'"
  obtains g where "f = Some g" and "user_frame (w\<lparr>calls := calls w @ [cl]\<rparr>) w'"
proof -
  from assms obtain g where g: "f = Some g"
      "run (map (exec_api os) (user g cl w)) (w\<lparr>calls := calls w @ [cl]\<rparr>) = Inr w'"
    by (auto simp: call_user_def split: option.splits)
  from g(2) have "user_frame (w\<lparr>calls := calls w @ [cl]\<rparr>) w'"
    by (rule run_invariant) (auto intro: user_frame_trans dest: frame_exec_api)
  with g(1) show ?thesis by (rule that)
qed

end
