(* ===== verification/Acceptor.thy ===== *)
theory Acceptor
  imports EventLoop Net
begin

text \<open>
  The acceptor (\<open>src/src/Acceptor.h\<close>, \<open>Acceptor.cc\<close>): a listening socket with its channel
  on the base loop. What the new-connection callback does with an accepted descriptor is the
  parameter \<open>newConnection\<close>; the length \<open>len\<close> is the uninitialised variable of
  \<open>Socket::accept\<close>.
\<close>

record acceptor =
  ac_loop :: loop_id
  ac_socket :: c_int
  ac_channel :: ptr
  ac_newConnectionCallback :: bool
  ac_listening :: bool

definition createNonblocking ::
  "os \<Rightarrow> 'a kworld_scheme \<Rightarrow> failure + (c_int \<times> 'a kworld_scheme)" where
  "createNonblocking os w =
     (let (r, w) = sys_socket os w in case r of Inl e \<Rightarrow> Inl Fatal | Inr fd \<Rightarrow> Inr (fd, w))"

text \<open>The argument \<open>reuseport\<close> is not used.\<close>

definition Acceptor_ctor ::
  "os \<Rightarrow> loop_id \<Rightarrow> sockaddr_in \<Rightarrow> bool \<Rightarrow> ptr \<Rightarrow> ('f, 'a) lworld_scheme
     \<Rightarrow> failure + (acceptor \<times> ('f, 'a) lworld_scheme)" where
  "Acceptor_ctor os loop listenAddr reuseport p w =
     bnd (createNonblocking os w) (\<lambda>(fd, w).
     let A = \<lparr>ac_loop = loop, ac_socket = fd, ac_channel = p, ac_newConnectionCallback = False,
           ac_listening = False\<rparr>;
         w = setReusePort True fd (setReuseAddr True fd (put_channel p (Channel_ctor loop fd) w))
     in bnd (bindAddress os fd listenAddr w) (\<lambda>w.
        bnd (get_channel p w) (\<lambda>ch.
        Inr (A, put_channel p (setReadCallback Acceptor_handleRead ch) w))))"

definition setNewConnectionCallback :: "acceptor \<Rightarrow> acceptor" where
  "setNewConnectionCallback A = A\<lparr>ac_newConnectionCallback := True\<rparr>"

text \<open>Destruction: the body, then the channel and the socket members.\<close>

definition Acceptor_dtor ::
  "os \<Rightarrow> acceptor \<Rightarrow> ('f, 'a) lworld_scheme \<Rightarrow> failure + ('f, 'a) lworld_scheme" where
  "Acceptor_dtor os A w =
     bnd (disableAll os (ac_channel A) w) (\<lambda>w.
     bnd (Channel_remove os (ac_channel A) w) (\<lambda>w.
     Inr (Socket_dtor (ac_socket A) (w\<lparr>chans := (chans w)(ac_channel A := None)\<rparr>))))"

definition Acceptor_listen ::
  "os \<Rightarrow> acceptor \<Rightarrow> ('f, 'a) lworld_scheme \<Rightarrow> failure + (acceptor \<times> ('f, 'a) lworld_scheme)" where
  "Acceptor_listen os A w =
     (let A = A\<lparr>ac_listening := True\<rparr>
      in bnd (Socket_listen os (ac_socket A) w) (\<lambda>w.
         bnd (enableReading os (ac_channel A) w) (\<lambda>w. Inr (A, w))))"

definition accept_handleRead ::
  "(c_int \<Rightarrow> sockaddr_in \<Rightarrow> ('f, 'a) lworld_scheme \<Rightarrow> failure + ('f, 'a) lworld_scheme)
     \<Rightarrow> os \<Rightarrow> u32 \<Rightarrow> acceptor \<Rightarrow> ('f, 'a) lworld_scheme \<Rightarrow> failure + ('f, 'a) lworld_scheme" where
  "accept_handleRead newConnection os len A w =
     (let peeraddr = InetAddress_ctor (\<lambda>s. 16777343) 0 ''127.0.0.1'';
          (connfd, peeraddr, w) = Socket_accept os len (ac_socket A) peeraddr w
      in case connfd of
           Inr connfd \<Rightarrow>
             if ac_newConnectionCallback A then newConnection connfd peeraddr w
             else Inr (sys_close connfd w)
         | Inl e \<Rightarrow>
             let w = log_msg ERROR w in Inr (if e = EMFILE then log_msg ERROR w else w))"

section \<open>Properties\<close>

text \<open>
  A readable listening socket. Each report accepts one connection. It is passed on once, with its descriptor, when a
  callback is set, and closed at once otherwise, so that no accepted descriptor leaks; an error is
  logged (twice when descriptors ran out), fails nothing, and leaves the acceptor watching.
\<close>

theorem accept_outcome:
  "case os_accept os (trace w) (ac_socket A) len of
      Inr (connfd, a) \<Rightarrow>
        accept_handleRead new os len A w =
          (let w' = emit (EvAccept (ac_socket A) len (Inr (connfd, a))) w
           in if ac_newConnectionCallback A
              then new connfd (addr_of_bytes (fill_addr len a)) w' else Inr (emit (EvClose connfd) w'))
    | Inl e \<Rightarrow> \<exists>w'. accept_handleRead new os len A w = Inr w' \<and> chans w' = chans w \<and> loops w' = loops w \<and>
        trace w' = trace w @ EvAccept (ac_socket A) len (Inl e) #
          replicate (if e = EMFILE then 2 else 1) (EvLog ERROR)"
  by (auto simp: accept_handleRead_def Socket_accept_def sys_accept_def sys_close_def Let_def
      numeral_2_eq_2 split: sum.splits)

end
