(* ===== verification/TcpServer.thy ===== *)
theory TcpServer
  imports UserFrame Threads Acceptor
begin

text \<open>
  The server (\<open>src/src/TcpServer.h\<close>, \<open>TcpServer.cc\<close>) and the composition of the whole
  library: what each queued functor and each channel callback runs, and one round of a loop over
  them. The server is part of the world; the addresses of a new connection and its channel come
  from an allocator \<open>fresh\<close>, the uninitialised length of \<open>accept\<close> is \<open>len\<close>.
\<close>

section \<open>State\<close>

record tcp_server =
  ts_loop :: loop_id
  ts_ipPort :: string
  ts_name :: string
  ts_acceptor :: acceptor
  ts_threadPool :: thread_pool
  ts_connectionCallback :: "user_fn option"
  ts_messageCallback :: "user_fn option"
  ts_writeCompleteCallback :: "user_fn option"
  ts_threadInitCallback :: bool
  ts_started :: c_int
  ts_nextConnId :: int
  ts_connections :: "string \<rightharpoonup> conn_id"

record sworld = cworld +
  server :: tcp_server

definition upd_server :: "(tcp_server \<Rightarrow> tcp_server) \<Rightarrow> 'a sworld_scheme \<Rightarrow> 'a sworld_scheme" where
  "upd_server f w = w\<lparr>server := f (server w)\<rparr>"

text \<open>The constructor; a null loop is a fatal error.\<close>

definition TcpServer_ctor ::
  "os \<Rightarrow> loop_id option \<Rightarrow> sockaddr_in \<Rightarrow> string \<Rightarrow> bool \<Rightarrow> ptr \<Rightarrow> 'a sworld_scheme
     \<Rightarrow> failure + 'a sworld_scheme" where
  "TcpServer_ctor os loop listenAddr nameArg reuseport p w =
     (case loop of
        None \<Rightarrow> Inl Fatal
      | Some l \<Rightarrow>
          bnd (toIpPort listenAddr) (\<lambda>ipPort.
          bnd (Acceptor_ctor os l listenAddr reuseport p w) (\<lambda>(A, w).
          Inr (w\<lparr>server :=
            \<lparr>ts_loop = l, ts_ipPort = ipPort, ts_name = nameArg,
             ts_acceptor = setNewConnectionCallback A,
             ts_threadPool = EventLoopThreadPool_ctor l nameArg,
             ts_connectionCallback = None, ts_messageCallback = None,
             ts_writeCompleteCallback = None, ts_threadInitCallback = False,
             ts_started = 0, ts_nextConnId = 1, ts_connections = Map.empty\<rparr>\<rparr>))))"

definition setThreadNum :: "int \<Rightarrow> 'a sworld_scheme \<Rightarrow> 'a sworld_scheme" where
  "setThreadNum n = upd_server (\<lambda>S. S\<lparr>ts_threadPool := pool_setThreadNum n (ts_threadPool S)\<rparr>)"

text \<open>The setters of the user's callbacks; of the thread-init callback only its presence matters.\<close>

definition setThreadInitCallback :: "'a sworld_scheme \<Rightarrow> 'a sworld_scheme" where
  "setThreadInitCallback = upd_server (\<lambda>S. S\<lparr>ts_threadInitCallback := True\<rparr>)"

definition setConnectionCallback :: "user_fn \<Rightarrow> 'a sworld_scheme \<Rightarrow> 'a sworld_scheme" where
  "setConnectionCallback g = upd_server (\<lambda>S. S\<lparr>ts_connectionCallback := Some g\<rparr>)"

definition setMessageCalback :: "user_fn \<Rightarrow> 'a sworld_scheme \<Rightarrow> 'a sworld_scheme" where
  "setMessageCalback g = upd_server (\<lambda>S. S\<lparr>ts_messageCallback := Some g\<rparr>)"

definition setWriteCompleteCallback :: "user_fn \<Rightarrow> 'a sworld_scheme \<Rightarrow> 'a sworld_scheme" where
  "setWriteCompleteCallback g = upd_server (\<lambda>S. S\<lparr>ts_writeCompleteCallback := Some g\<rparr>)"

section \<open>Connections come and go\<close>

text \<open>
  \<open>snprintf\<close> into 64 bytes: at most 63 characters. The counter is an \<open>int\<close>; its overflow
  is undefined.
\<close>

definition int_max :: int where
  "int_max = 2147483647"

definition conn_suffix :: "string \<Rightarrow> int \<Rightarrow> string" where
  "conn_suffix ipPort n = take 63 (''-'' @ ipPort @ ''#'' @ show_int n)"

definition local_addr :: "os \<Rightarrow> c_int \<Rightarrow> 'a kworld_scheme \<Rightarrow> sockaddr_in \<times> 'a kworld_scheme" where
  "local_addr os sockfd w =
     (let (r, w) = sys_getsockname os sockfd w
      in case r of
           Inl e \<Rightarrow> (addr_of_bytes (replicate 16 0), log_msg ERROR w)
         | Inr a \<Rightarrow> (addr_of_bytes (fill_addr 16 a), w))"

text \<open>The members the server sets on a connection it has just made.\<close>

definition set_callbacks :: "tcp_server \<Rightarrow> tcp_connection \<Rightarrow> tcp_connection" where
  "set_callbacks S C =
     conn_setCloseCallback TcpServer_removeConnection
       (conn_setWriteCompleteCallback (ts_writeCompleteCallback S)
         (conn_setMessageCallback (ts_messageCallback S)
           (conn_setConnectionCallback (ts_connectionCallback S) C)))"

definition newConnection ::
  "(user_fn \<Rightarrow> call \<Rightarrow> 'a sworld_scheme \<Rightarrow> api_call list) \<Rightarrow> os \<Rightarrow> conn_id \<Rightarrow> ptr
     \<Rightarrow> c_int \<Rightarrow> sockaddr_in \<Rightarrow> 'a sworld_scheme \<Rightarrow> failure + 'a sworld_scheme" where
  "newConnection user os c p sockfd peerAddr w =
     bnd (getNextLoop (ts_threadPool (server w))) (\<lambda>(ioLoop, pool).
     if ts_nextConnId (server w) = int_max then Inl IntOverflow else
     let S = server w;
         connName = ts_name S @ conn_suffix (ts_ipPort S) (ts_nextConnId S);
         w = upd_server (\<lambda>S. S\<lparr>ts_threadPool := pool, ts_nextConnId := ts_nextConnId S + 1\<rparr>) w;
         (localAddr, w) = local_addr os sockfd w
     in bnd (TcpConnection_ctor (Some ioLoop) connName sockfd localAddr peerAddr c p w) (\<lambda>w.
        let w = upd_server (\<lambda>S. S\<lparr>ts_connections := (ts_connections S)(connName \<mapsto> c)\<rparr>) w
        in bnd (upd_conn c (set_callbacks (server w)) w)
             (runInLoop (\<lambda>f. connectEstablished user os c) os ioLoop (F_connectEstablished c))))"

definition removeConnectionInLoop ::
  "os \<Rightarrow> conn_id \<Rightarrow> 'a sworld_scheme \<Rightarrow> failure + 'a sworld_scheme" where
  "removeConnectionInLoop os c w =
     bnd (get_conn c w) (\<lambda>C.
     let w = upd_server (\<lambda>S. S\<lparr>ts_connections := (ts_connections S)(tc_name C := None)\<rparr>) w
     in queueInLoop os (tc_loop C) (F_connectDistroyed c) w)"

definition removeConnection ::
  "os \<Rightarrow> conn_id \<Rightarrow> 'a sworld_scheme \<Rightarrow> failure + 'a sworld_scheme" where
  "removeConnection os c w =
     runInLoop (\<lambda>f. removeConnectionInLoop os c) os (ts_loop (server w))
       (F_removeConnectionInLoop c) w"

fun run_close :: "os \<Rightarrow> close_fn \<Rightarrow> conn_id \<Rightarrow> 'a sworld_scheme \<Rightarrow> failure + 'a sworld_scheme" where
  "run_close os TcpServer_removeConnection c = removeConnection os c"

section \<open>Starting and stopping\<close>

definition server_listen :: "os \<Rightarrow> 'a sworld_scheme \<Rightarrow> failure + 'a sworld_scheme" where
  "server_listen os w =
     bnd (Acceptor_listen os (ts_acceptor (server w)) w) (\<lambda>(A, w).
     Inr (upd_server (\<lambda>S. S\<lparr>ts_acceptor := A\<rparr>) w))"

definition TcpServer_start ::
  "(loop_id \<Rightarrow> 'a sworld_scheme \<Rightarrow> failure + 'a sworld_scheme) \<Rightarrow> bool \<Rightarrow> os
     \<Rightarrow> (nat \<Rightarrow> tid \<times> loop_id \<times> ptr) \<Rightarrow> 'a sworld_scheme \<Rightarrow> failure + 'a sworld_scheme" where
  "TcpServer_start init use_poll os supply w =
     (let started = ts_started (server w);
          w = upd_server (\<lambda>S. S\<lparr>ts_started := started + 1\<rparr>) w
      in if started = 0
         then
           bnd (pool_start init (ts_threadInitCallback (server w)) use_poll os supply
                  (ts_threadPool (server w)) w) (\<lambda>(P, w).
           let w = upd_server (\<lambda>S. S\<lparr>ts_threadPool := P\<rparr>) w
           in runInLoop (\<lambda>f. server_listen os) os (ts_loop (server w)) F_Acceptor_listen w)
         else Inr w)"

text \<open>
  The destructor walks the hash map and tells every connection to go in its own loop; then come
  the members, the pool's threads before the acceptor. The order in which the map lists its keys is
  the library's: a parameter \<open>order\<close>, of which only \<open>lists_keys\<close> is relied on. An entry whose
  pointer was reset in place is an entry that is gone: the map is not read again.
\<close>

definition lists_keys :: "string list \<Rightarrow> (string \<rightharpoonup> conn_id) \<Rightarrow> bool" where
  "lists_keys names m \<longleftrightarrow> distinct names \<and> set names = dom m"

definition map_items :: "((string \<rightharpoonup> conn_id) \<Rightarrow> string list) \<Rightarrow> (string \<rightharpoonup> conn_id) \<Rightarrow> conn_id list" where
  "map_items order m = List.map_filter m (order m)"

definition dismiss ::
  "(user_fn \<Rightarrow> call \<Rightarrow> 'a sworld_scheme \<Rightarrow> api_call list) \<Rightarrow> os \<Rightarrow> conn_id
     \<Rightarrow> 'a sworld_scheme \<Rightarrow> failure + 'a sworld_scheme" where
  "dismiss user os c w =
     bnd (get_conn c w) (\<lambda>C.
     runInLoop (\<lambda>f. connectDistroyed user os c) os (tc_loop C) (F_connectDistroyed c)
       (upd_server (\<lambda>S. S\<lparr>ts_connections := (ts_connections S)(tc_name C := None)\<rparr>) w))"

definition TcpServer_dtor ::
  "(user_fn \<Rightarrow> call \<Rightarrow> 'a sworld_scheme \<Rightarrow> api_call list) \<Rightarrow> os
     \<Rightarrow> ((string \<rightharpoonup> conn_id) \<Rightarrow> string list) \<Rightarrow> 'a sworld_scheme \<Rightarrow> failure + 'a sworld_scheme" where
  "TcpServer_dtor user os order w =
     bnd (run (map (dismiss user os) (map_items order (ts_connections (server w)))) w) (\<lambda>w.
     bnd (run (map (\<lambda>E w. bnd (EventLoopThread_dtor os E w) (\<lambda>(E, w). Inr w))
                (tp_threads (ts_threadPool (server w)))) w) (\<lambda>w.
     Acceptor_dtor os (ts_acceptor (server w)) w))"

section \<open>The whole library\<close>

fun exec_functor ::
  "(user_fn \<Rightarrow> call \<Rightarrow> 'a sworld_scheme \<Rightarrow> api_call list) \<Rightarrow> os \<Rightarrow> pending_functor
     \<Rightarrow> 'a sworld_scheme \<Rightarrow> failure + 'a sworld_scheme" where
  "exec_functor user os (F_connectEstablished c) = connectEstablished user os c"
| "exec_functor user os (F_connectDistroyed c) = connectDistroyed user os c"
| "exec_functor user os (F_sendInLoop c a n) = sendInLoop os c a n"
| "exec_functor user os (F_shutdownInLoop c) = shutdownInLoop os c"
| "exec_functor user os (F_writeComplete g c) = call_user user os (Some g) (OnWriteComplete c)"
| "exec_functor user os (F_highWaterMark g c n) = call_user user os g (OnHighWaterMark c n)"
| "exec_functor user os (F_removeConnectionInLoop c) = removeConnectionInLoop os c"
| "exec_functor user os F_Acceptor_listen = server_listen os"

fun invoke ::
  "(user_fn \<Rightarrow> call \<Rightarrow> 'a sworld_scheme \<Rightarrow> api_call list) \<Rightarrow> os \<Rightarrow> ('a sworld_scheme \<Rightarrow> conn_id \<times> ptr)
     \<Rightarrow> u32 \<Rightarrow> Timestamp \<Rightarrow> callback \<Rightarrow> 'a sworld_scheme \<Rightarrow> failure + 'a sworld_scheme" where
  "invoke user os fresh len t (EventLoop_handleRead l) w = EventLoop_handleRead_body os l w"
| "invoke user os fresh len t Acceptor_handleRead w =
     accept_handleRead (\<lambda>fd a w. let (c, p) = fresh w in newConnection user os c p fd a w)
       os len (ts_acceptor (server w)) w"
| "invoke user os fresh len t (TcpConnection_handleRead c) w = handleRead user (run_close os) os c t w"
| "invoke user os fresh len t (TcpConnection_handleWrite c) w = handleWrite os c w"
| "invoke user os fresh len t (TcpConnection_handleClose c) w = handleClose user (run_close os) os c w"
| "invoke user os fresh len t (TcpConnection_handleError c) w = handleError os c w"

definition alive :: "'a sworld_scheme \<Rightarrow> conn_id \<Rightarrow> bool" where
  "alive w c \<longleftrightarrow> conns w c \<noteq> None"

definition server_round ::
  "(user_fn \<Rightarrow> call \<Rightarrow> 'a sworld_scheme \<Rightarrow> api_call list) \<Rightarrow> os \<Rightarrow> ('a sworld_scheme \<Rightarrow> conn_id \<times> ptr)
     \<Rightarrow> u32 \<Rightarrow> loop_id \<Rightarrow> 'a sworld_scheme \<Rightarrow> failure + 'a sworld_scheme" where
  "server_round user os fresh len l =
     loop_body (invoke user os fresh len) alive (exec_functor user os) os l"

end
