(* ===== verification/ServerLifecycle.thy ===== *)
theory ServerLifecycle
  imports TcpServer
begin

text \<open>
  What the server promises (\<open>src/src/TcpServer.cc\<close>, over every other component): names of
  connections are never given out twice, its map holds live connections under their own names, a
  new connection is registered once and handed to the next loop, a closed one is reported once,
  erased, and forgotten by its poller. The invariant is carried through every callback and every
  queued functor, so through any number of rounds of any loops.
\<close>

section \<open>Names\<close>

lemma toIpPort_length: "toIpPort a = Inr s \<Longrightarrow> length s \<le> 21"
  using length_dotted [of "sin_addr a"] length_port [of "toPort a"] by (auto simp: toIpPort_eq)

lemma show_int_length: "0 \<le> n \<Longrightarrow> n \<le> int_max \<Longrightarrow> length (show_int n) \<le> 10"
  using length_show_nat [of "nat n" 9] by (simp add: show_int_def int_max_def)

lemma conn_suffix_whole:
  assumes "length ipPort \<le> 21" and "0 \<le> n" and "n \<le> int_max"
  shows "conn_suffix ipPort n = ''-'' @ ipPort @ ''#'' @ show_int n"
  using assms show_int_length [of n] by (simp add: conn_suffix_def)

lemma conn_suffix_inject:
  assumes "length ipPort \<le> 21" and "0 \<le> m" "m \<le> int_max" and "0 \<le> n" "n \<le> int_max"
  shows "conn_suffix ipPort m = conn_suffix ipPort n \<longleftrightarrow> m = n"
  using assms by (auto simp: conn_suffix_whole show_int_def show_nat_inject)

text \<open>
  What the server promises between two of its operations: every entry of its map is a live
  connection of that name, named after a number already given out, whose close callback is the
  server's.
\<close>

definition conn_name :: "tcp_server \<Rightarrow> int \<Rightarrow> string" where
  "conn_name S n = ts_name S @ conn_suffix (ts_ipPort S) n"

definition server_inv :: "'a sworld_scheme \<Rightarrow> bool" where
  "server_inv w \<longleftrightarrow>
     length (ts_ipPort (server w)) \<le> 21 \<and>
     1 \<le> ts_nextConnId (server w) \<and> ts_nextConnId (server w) \<le> int_max \<and>
     pool_inv (ts_threadPool (server w)) \<and>
     (\<forall>name c. ts_connections (server w) name = Some c \<longrightarrow>
        (\<exists>n C. 1 \<le> n \<and> n < ts_nextConnId (server w) \<and> name = conn_name (server w) n \<and>
           conns w c = Some C \<and> tc_name C = name \<and>
           tc_closeCallback C = Some TcpServer_removeConnection))"

lemma conn_name_inject:
  "length (ts_ipPort S) \<le> 21 \<Longrightarrow> 0 \<le> m \<Longrightarrow> m \<le> int_max \<Longrightarrow> 0 \<le> n \<Longrightarrow> n \<le> int_max \<Longrightarrow>
     conn_name S m = conn_name S n \<longleftrightarrow> m = n"
  by (simp add: conn_name_def conn_suffix_inject)

lemma next_name_free:
  assumes "server_inv w"
  shows "ts_connections (server w) (conn_name (server w) (ts_nextConnId (server w))) = None"
proof (rule ccontr)
  assume "\<not> ?thesis"
  then obtain c where "ts_connections (server w) (conn_name (server w) (ts_nextConnId (server w))) = Some c"
    by auto
  with assms obtain n where n: "1 \<le> n" "n < ts_nextConnId (server w)"
      "conn_name (server w) (ts_nextConnId (server w)) = conn_name (server w) n"
    unfolding server_inv_def by blast
  with assms show False
    using conn_name_inject [of "server w" "ts_nextConnId (server w)" n] by (simp add: server_inv_def)
qed

section \<open>Frames\<close>

lemma upd_server_simps [simp]:
  "server (upd_server f w) = f (server w)" "conns (upd_server f w) = conns w"
  "loops (upd_server f w) = loops w" "chans (upd_server f w) = chans w"
  "trace (upd_server f w) = trace w" "calls (upd_server f w) = calls w"
  "cur_tid (upd_server f w) = cur_tid w"
  by (simp_all add: upd_server_def)

lemma sworld_updates [simp]:
  "server (emit e w) = server w" "server (log_msg v w) = server w"
  "server (put_channel p ch w) = server w" "server (put_loop l L w) = server w"
  "server (put_conn c C w) = server w"
  by (simp_all add: emit_def log_msg_def put_channel_def put_loop_def put_conn_def)

lemma user_frame_server: "user_frame w w' \<Longrightarrow> server w' = server (w :: 'a sworld_scheme)"
  unfolding user_frame_def by (cases w; cases w'; simp)

lemma user_frame_calls: "user_frame w w' \<Longrightarrow> calls w' = calls w"
  by (simp add: user_frame_def)

text \<open>The invariant speaks of members no step of user code changes.\<close>

lemma conn_moves_setup:
  "conn_moves C C' \<Longrightarrow> tc_name C' = tc_name C \<and> tc_closeCallback C' = tc_closeCallback C \<and>
     tc_loop C' = tc_loop C \<and> tc_socket C' = tc_socket C \<and> tc_channel C' = tc_channel C \<and>
     tc_peerAddr C' = tc_peerAddr C"
  by (simp add: conn_moves_def same_wiring_def)

lemma server_inv_frame:
  assumes inv: "server_inv w" and server: "server w' = server w"
    and conns: "\<And>c C. conns w c = Some C \<Longrightarrow> \<exists>C'. conns w' c = Some C' \<and>
      tc_name C' = tc_name C \<and> tc_closeCallback C' = tc_closeCallback C"
  shows "server_inv w'"
proof -
  have "\<exists>n C. 1 \<le> n \<and> n < ts_nextConnId (server w') \<and> name = conn_name (server w') n \<and>
      conns w' c = Some C \<and> tc_name C = name \<and> tc_closeCallback C = Some TcpServer_removeConnection"
    if entry: "ts_connections (server w') name = Some c" for name c
  proof -
    from entry inv obtain n C where "1 \<le> n" "n < ts_nextConnId (server w)"
        "name = conn_name (server w) n" "conns w c = Some C" "tc_name C = name"
        "tc_closeCallback C = Some TcpServer_removeConnection"
      unfolding server_inv_def server by blast
    with conns [of c C] server show ?thesis by auto
  qed
  with inv show ?thesis unfolding server_inv_def server by blast
qed

lemma server_inv_user: "user_frame w w' \<Longrightarrow> server_inv w \<Longrightarrow> server_inv w'"
  by (rule server_inv_frame, assumption)
    (auto simp: user_frame_server dest!: user_frame_conn dest: conn_moves_setup)

section \<open>A new connection\<close>

text \<open>Calls that touch no interest list.\<close>

definition keeps_interest :: "'a kworld_scheme \<Rightarrow> 'a kworld_scheme \<Rightarrow> bool" where
  "keeps_interest w w' \<longleftrightarrow>
     (\<exists>es. w' = w\<lparr>trace := trace w @ es\<rparr> \<and> (\<forall>h ep. interest (h @ es) ep = interest h ep))"

lemma local_addr_frame: "local_addr os fd w = (a, w') \<Longrightarrow> keeps_interest w w'"
  by (auto simp: local_addr_def sys_getsockname_def log_msg_def emit_def keeps_interest_def
      table_append Let_def split: sum.splits)

lemma TcpConnection_ctor_ok:
  obtains C ch v where "TcpConnection_ctor (Some l) name fd la pa c p w = Inr v"
    and "conns v = (conns w)(c \<mapsto> C)" and "tc_name C = name" and "tc_loop C = l"
    and "tc_state C = kConnecting" and "tc_socket C = fd" and "tc_channel C = p"
    and "tc_peerAddr C = pa" and "cworld.more v = cworld.more w" and "loops v = loops w"
    and "calls v = calls w" and "cur_tid v = cur_tid w"
    and "chans v = (chans w)(p \<mapsto> ch)" and "ch_fd ch = fd" and "ch_loop ch = l"
    and "ch_index ch = kNew" and "ch_events ch = 0"
    and "\<And>ep. interest (trace v) ep = interest (trace w) ep"
proof -
  let ?C = "\<lparr>tc_loop = l, tc_name = name, tc_state = kConnecting, tc_reading = True,
      tc_socket = fd, tc_channel = p, tc_localAddr = la, tc_peerAddr = pa,
      tc_connectionCallback = None, tc_messageCallback = None, tc_writeCompleteCallback = None,
      tc_highWaterMarkCallback = None, tc_closeCallback = None, tc_highWaterMark = kHighWaterMark,
      tc_inputBuffer = Buffer_ctor kInitialSize, tc_outputBuffer = Buffer_ctor kInitialSize\<rparr>"
  let ?ch = "(Channel_ctor l fd)
      \<lparr>ch_readCallback := Some (TcpConnection_handleRead c),
       ch_writeCallback := Some (TcpConnection_handleWrite c),
       ch_closeCallback := Some (TcpConnection_handleClose c),
       ch_errorCallback := Some (TcpConnection_handleError c)\<rparr>"
  show ?thesis
    by (rule that [of "setKeepAlive True fd (put_channel p ?ch (put_conn c ?C w))" ?C ?ch])
      (simp_all add: TcpConnection_ctor_def Let_def setKeepAlive_def sys_setsockopt_def
        Channel_ctor_def kNew_def table_append)
qed

lemma set_callbacks_simps [simp]:
  "tc_name (set_callbacks S C) = tc_name C" "tc_loop (set_callbacks S C) = tc_loop C"
  "tc_state (set_callbacks S C) = tc_state C" "tc_socket (set_callbacks S C) = tc_socket C"
  "tc_channel (set_callbacks S C) = tc_channel C" "tc_peerAddr (set_callbacks S C) = tc_peerAddr C"
  "tc_connectionCallback (set_callbacks S C) = ts_connectionCallback S"
  "tc_messageCallback (set_callbacks S C) = ts_messageCallback S"
  "tc_writeCompleteCallback (set_callbacks S C) = ts_writeCompleteCallback S"
  "tc_closeCallback (set_callbacks S C) = Some TcpServer_removeConnection"
  by (simp_all add: set_callbacks_def)

text \<open>The connection as it stands when \<open>connectEstablished\<close> is handed to its loop.\<close>

definition made_connection ::
  "tcp_server \<Rightarrow> ptr \<Rightarrow> c_int \<Rightarrow> sockaddr_in \<Rightarrow> tcp_connection \<Rightarrow> bool" where
  "made_connection S p fd peerAddr C \<longleftrightarrow>
     tc_name C = conn_name S (ts_nextConnId S) \<and> tc_loop C = turn (ts_threadPool S) 0 \<and>
     tc_socket C = fd \<and> tc_channel C = p \<and> tc_peerAddr C = peerAddr \<and>
     tc_connectionCallback C = ts_connectionCallback S \<and>
     tc_messageCallback C = ts_messageCallback S \<and>
     tc_closeCallback C = Some TcpServer_removeConnection"

definition server_with :: "conn_id \<Rightarrow> tcp_server \<Rightarrow> tcp_server" where
  "server_with c S = S\<lparr>ts_threadPool := turned 1 (ts_threadPool S),
     ts_nextConnId := ts_nextConnId S + 1,
     ts_connections := (ts_connections S)(conn_name S (ts_nextConnId S) \<mapsto> c)\<rparr>"

lemma newConnection_stages:
  assumes max: "ts_nextConnId (server w) \<noteq> int_max" and pool: "pool_inv (ts_threadPool (server w))"
  obtains v C ch where "newConnection user os c p fd peer w =
      runInLoop (\<lambda>f. connectEstablished user os c) os (tc_loop C) (F_connectEstablished c) v"
    and "conns v = (conns w)(c \<mapsto> C)" and "made_connection (server w) p fd peer C"
    and "tc_state C = kConnecting" and "server v = server_with c (server w)"
    and "loops v = loops w" and "calls v = calls w" and "cur_tid v = cur_tid w"
    and "chans v = (chans w)(p \<mapsto> ch)" and "ch_fd ch = fd" and "ch_loop ch = tc_loop C"
    and "ch_index ch = kNew" and "ch_events ch = 0"
    and "\<And>ep. interest (trace v) ep = interest (trace w) ep"
proof -
  let ?S = "server w" and ?l = "turn (ts_threadPool (server w)) 0"
  let ?name = "conn_name (server w) (ts_nextConnId (server w))"
  let ?w = "upd_server (\<lambda>S. S\<lparr>ts_threadPool := turned 1 (ts_threadPool ?S),
      ts_nextConnId := ts_nextConnId S + 1\<rparr>) w"
  obtain la v1 where la: "local_addr os fd ?w = (la, v1)" by (cases "local_addr os fd ?w")
  obtain C ch v2 where v2: "TcpConnection_ctor (Some ?l) ?name fd la peer c p v1 = Inr v2"
      and C: "conns v2 = (conns v1)(c \<mapsto> C)" "tc_name C = ?name" "tc_loop C = ?l"
      "tc_state C = kConnecting" "tc_socket C = fd" "tc_channel C = p" "tc_peerAddr C = peer"
      "cworld.more v2 = cworld.more v1" "loops v2 = loops v1" "calls v2 = calls v1"
      "cur_tid v2 = cur_tid v1"
      and ch: "chans v2 = (chans v1)(p \<mapsto> ch)" "ch_fd ch = fd" "ch_loop ch = ?l"
      "ch_index ch = kNew" "ch_events ch = 0"
      "\<And>ep. interest (trace v2) ep = interest (trace v1) ep"
    by (rule TcpConnection_ctor_ok [of ?l ?name fd la peer c p v1]) blast
  from local_addr_frame [OF la] have v1: "conns v1 = conns w" "loops v1 = loops w"
      "calls v1 = calls w" "cur_tid v1 = cur_tid w" "chans v1 = chans w"
      "server v1 = ?S\<lparr>ts_threadPool := turned 1 (ts_threadPool ?S),
        ts_nextConnId := ts_nextConnId ?S + 1\<rparr>"
      "\<And>ep. interest (trace v1) ep = interest (trace w) ep"
    by (auto simp: keeps_interest_def)
  have s2: "server v2 = server v1" using C(8) by (cases v2; cases v1; simp)
  let ?v3 = "upd_server (\<lambda>S. S\<lparr>ts_connections := (ts_connections S)(?name \<mapsto> c)\<rparr>) v2"
  let ?C = "set_callbacks (server ?v3) C"
  let ?v = "put_conn c ?C ?v3"
  have call: "newConnection user os c p fd peer w =
      runInLoop (\<lambda>f. connectEstablished user os c) os ?l (F_connectEstablished c) ?v"
    using max la v2 C(1)
    by (simp add: newConnection_def getNextLoop_turn [OF pool] conn_name_def Let_def upd_conn_def
        del: One_nat_def)
  show ?thesis
  proof (rule that [of ?C ?v ch])
    show "newConnection user os c p fd peer w =
        runInLoop (\<lambda>f. connectEstablished user os c) os (tc_loop ?C) (F_connectEstablished c) ?v"
      using call C by simp
    show "conns ?v = (conns w)(c \<mapsto> ?C)" using C(1) v1 by simp
    show "made_connection ?S p fd peer ?C" using C v1 s2 by (simp add: made_connection_def)
    show "server ?v = server_with c ?S" using v1 s2 by (simp add: server_with_def)
  qed (use C ch v1 in simp_all)
qed

lemma server_with_inv:
  assumes "server_inv w" and "conns w c = None" and "ts_nextConnId (server w) \<noteq> int_max"
    and "conns v = (conns w)(c \<mapsto> C)" and "server v = server_with c (server w)"
    and "made_connection (server w) p fd peer C"
  shows "server_inv v"
proof -
  let ?S = "server w"
  have name: "conn_name (server_with c ?S) n = conn_name ?S n" for n
    by (simp add: conn_name_def server_with_def)
  have "\<exists>n C. 1 \<le> n \<and> n < ts_nextConnId (server v) \<and> name = conn_name (server v) n \<and>
      conns v d = Some C \<and> tc_name C = name \<and> tc_closeCallback C = Some TcpServer_removeConnection"
    if entry: "ts_connections (server v) name = Some d" for name d
  proof (cases "name = conn_name ?S (ts_nextConnId ?S)")
    case True
    with entry assms have "d = c" "1 \<le> ts_nextConnId ?S"
      by (simp_all add: server_with_def server_inv_def)
    with True assms show ?thesis
      by (intro exI [of _ "ts_nextConnId ?S"] exI [of _ C]) (simp add: name,
          simp add: server_with_def made_connection_def)
  next
    case False
    with entry assms(5) have "ts_connections ?S name = Some d" by (simp add: server_with_def)
    with assms(1) obtain n D where D: "1 \<le> n" "n < ts_nextConnId ?S" "name = conn_name ?S n"
        "conns w d = Some D" "tc_name D = name" "tc_closeCallback D = Some TcpServer_removeConnection"
      unfolding server_inv_def by blast
    with assms(2) have "d \<noteq> c" by auto
    with D assms(4,5) show ?thesis
      by (intro exI [of _ n] exI [of _ D]) (simp add: name, simp add: server_with_def)
  qed
  moreover have "pool_inv (ts_threadPool (server v))"
    using assms by (simp add: server_with_def server_inv_def pool_inv_turned)
  ultimately show ?thesis
    using assms unfolding server_inv_def by (simp add: server_with_def)
qed

section \<open>Establishing and destroying, in the loop's thread\<close>

lemma loop_inv_slot:
  assumes inv: "loop_inv os l w" and p: "chans w p = Some ch"
    and same: "ch_loop ch' = ch_loop ch" "ch_fd ch' = ch_fd ch" "ch_index ch' = ch_index ch"
      "ch_events ch' = ch_events ch"
  shows "loop_inv os l (put_channel p ch' w)"
proof -
  from inv obtain P where P: "loop_poller l w = Some P" "po_ownerLoop P = l" "poller_inv P w"
      and dist: "distinct_fds l w" and os: "epoll_ctl_contract os"
    by (auto simp: loop_inv_def)
  have "distinct_fds l (put_channel p ch' w)"
    using dist p same unfolding distinct_fds_def
    by (metis (no_types, lifting) fun_upd_other fun_upd_same option.inject put_channel_simps(1))
  moreover have "registration q ch' = registration q ch" for q
    using same by (simp add: registration_def)
  then have "listed P (put_channel p ch' w) = listed P w"
    using p same by (auto simp: listed_def fun_eq_iff split: option.splits)
  then have "poller_inv P (put_channel p ch' w)"
    using P(3) p same by (fastforce simp: poller_inv_def)
  ultimately show ?thesis using P os by (auto simp: loop_inv_def)
qed

lemma loop_inv_new_channel:
  assumes inv: "loop_inv os l w" and free: "chans w p = None"
    and fd: "\<forall>q d. chans w q = Some d \<longrightarrow> ch_loop d = l \<longrightarrow> ch_fd d \<noteq> ch_fd ch"
    and new: "ch_index ch = kNew"
    and v: "chans v = (chans w)(p \<mapsto> ch)" "loop_poller l v = loop_poller l w"
      "\<And>ep. interest (trace v) ep = interest (trace w) ep"
  shows "loop_inv os l v"
proof -
  from inv obtain P where P: "loop_poller l w = Some P" "po_ownerLoop P = l" "poller_inv P w"
      and dist: "distinct_fds l w" and os: "epoll_ctl_contract os"
    by (auto simp: loop_inv_def)
  have "distinct_fds l v"
    using dist fd unfolding distinct_fds_def v(1) by (simp split: if_splits) metis
  moreover have old: "po_channels P f = Some q \<Longrightarrow> q \<noteq> p" for f q
    using P(3) free by (auto elim!: poller_inv_registered)
  then have "listed P v = listed P w"
    by (auto simp: listed_def v(1) fun_eq_iff split: option.splits)
  then have "poller_inv P v"
    using P(3) new old v by (auto simp: poller_inv_def)
  ultimately show ?thesis using P os v(2) by (auto simp: loop_inv_def)
qed

lemma read_mask_nonzero: "m OR kReadEvent \<noteq> (0 :: u32)"
proof
  assume "m OR kReadEvent = 0"
  then have "bit (m OR kReadEvent) 0 = bit (0 :: u32) 0" by simp
  then show False by (simp add: kReadEvent_def bit_or_iff bit_masks)
qed

text \<open>Up to the user's callback: connected, tied to the connection, and watched for input.\<close>

lemma connectEstablished_eq:
  assumes c: "shows_conn c C ch w" and inv: "loop_inv os (tc_loop C) w"
  obtains v ch' where
    "connectEstablished user os c w = call_user user os (tc_connectionCallback C) (OnConnection c) v"
    and "conns v = (conns w)(c \<mapsto> setState kConnected C)" and "ctl_frame (put_conn c (setState kConnected C) w) v"
    and "loop_inv os (tc_loop C) v" and "chans v (tc_channel C) = Some ch'"
    and "ch_tie ch' = Some c" and "ch_tied ch'" and "isReading ch'"
    and "ch_events ch' = ch_events ch OR kReadEvent"
    and "loop_watched (tc_loop C) v (tc_channel C) = Some (ch_events ch')"
    and "\<And>q. q \<noteq> tc_channel C \<Longrightarrow> loop_watched (tc_loop C) v q = loop_watched (tc_loop C) w q"
proof -
  let ?C = "setState kConnected C" and ?p = "tc_channel C" and ?l = "tc_loop C"
  let ?w = "put_channel ?p (tie c ch) (put_conn c ?C w)"
  have C: "conns w c = Some C" "chans w ?p = Some ch" "ch_loop ch = ?l"
    using c by (simp_all add: shows_conn_def)
  have st: "tc_loop ?C = ?l" "tc_channel ?C = ?p" "tc_connectionCallback ?C = tc_connectionCallback C"
    by (simp_all add: setState_def)
  have "loop_inv os ?l (put_conn c ?C w)" using inv by simp
  then have inv1: "loop_inv os ?l ?w"
    by (rule loop_inv_slot [of _ _ _ ?p ch]) (simp_all add: C tie_def)
  have "?p \<in> loop_owned ?l ?w" using C by (simp add: loop_owned_def tie_def)
  from reg.change_law [OF inv1 this, of EnableReading] obtain v where
      v: "Channel_interest os EnableReading ?p ?w = Inr v" "loop_inv os ?l v"
      "(loop_mask v, loop_watched ?l v) =
        spec_step (Change EnableReading ?p) (loop_mask ?w, loop_watched ?l ?w)"
    by blast
  from v(1) obtain j where j: "chans v = (chans ?w)(?p \<mapsto> set_index j (set_interest EnableReading (tie c ch)))"
      and frame: "ctl_frame ?w v"
    by (elim Channel_interest_frame) auto
  let ?ch = "set_index j (set_interest EnableReading (tie c ch))"
  have more: "conns v = conns ?w"
    using frame more_fields(1) [of v ?w] by (simp add: ctl_frame_def)
  show ?thesis
  proof (rule that [of v ?ch])
    show "connectEstablished user os c w = call_user user os (tc_connectionCallback C) (OnConnection c) v"
      using C v(1) st by (simp add: connectEstablished_def upd_conn_def)
    show "conns v = (conns w)(c \<mapsto> ?C)" using more by simp
    show "ctl_frame (put_conn c ?C w) v" using frame by (simp add: ctl_frame_put_channel)
    show "loop_inv os ?l v" by (rule v)
    show "chans v ?p = Some ?ch" using j by simp
    show "ch_tie ?ch = Some c" "ch_tied ?ch" by (simp_all add: set_index_def set_interest.simps tie_def)
    show ev: "ch_events ?ch = ch_events ch OR kReadEvent"
      by (simp add: set_index_def set_interest.simps tie_def)
    then show "isReading ?ch"
      using read_mask_nonzero [of 0] by (simp add: isReading_def)
    show "loop_watched ?l v ?p = Some (ch_events ?ch)"
      using v(3) ev C by (simp add: loop_mask_def tie_def read_mask_nonzero kNoneEvent_def Let_def)
    show "loop_watched ?l v q = loop_watched ?l w q" if "q \<noteq> ?p" for q
    proof -
      have "loop_watched ?l v q = loop_watched ?l ?w q"
        using v(3) that by (simp add: Let_def)
      also have "\<dots> = loop_watched ?l w q"
        using that by (simp add: loop_watched_def loop_poller_def split: option.split)
      finally show ?thesis .
    qed
  qed
qed

lemma made_simps:
  assumes "made_connection S p fd peer C"
  shows "tc_name C = conn_name S (ts_nextConnId S)" and "tc_loop C = turn (ts_threadPool S) 0"
    and "tc_socket C = fd" and "tc_channel C = p"
    and "tc_connectionCallback C = ts_connectionCallback S"
    and "tc_closeCallback C = Some TcpServer_removeConnection"
  using assms by (simp_all add: made_connection_def)

lemma made_setState [simp]:
  "made_connection S p fd peer (setState s C) = made_connection S p fd peer C"
  by (simp add: made_connection_def setState_def)

lemma user_frame_calls_at: "user_frame w v \<Longrightarrow> user_frame (w\<lparr>calls := x\<rparr>) (v\<lparr>calls := x\<rparr>)"
  by (simp add: user_frame_def)

lemma server_inv_calls [simp]: "server_inv (w\<lparr>calls := x\<rparr>) = server_inv w"
  by (simp add: server_inv_def)

text \<open>A call of user code keeps the server and its invariant.\<close>

lemma call_user_server:
  assumes "call_user user os f cl w = Inr (w' :: 'a sworld_scheme)"
  shows "server w' = server w" and "server_inv w \<Longrightarrow> server_inv w'"
    and "calls w' = calls w @ [cl]" and "cur_tid w' = cur_tid w"
    and "conns w c = Some C \<Longrightarrow> \<exists>C'. conns w' c = Some C' \<and> conn_moves C C'"
    and "loops w l = Some L \<Longrightarrow> \<exists>L'. loops w' l = Some L' \<and> same_loop L L'"
proof -
  from assms have frame: "user_frame (w\<lparr>calls := calls w @ [cl]\<rparr>) w'" by (rule call_user_Inr)
  show "server w' = server w" using user_frame_server [OF frame] by simp
  show "server_inv w'" if "server_inv w" by (rule server_inv_user [OF frame]) (simp add: that)
  show "calls w' = calls w @ [cl]" using user_frame_calls [OF frame] by simp
  show "cur_tid w' = cur_tid w" using frame by (simp add: user_frame_def)
  show "conns w c = Some C \<Longrightarrow> \<exists>C'. conns w' c = Some C' \<and> conn_moves C C'"
    using user_frame_conn [OF frame] by simp
  show "loops w l = Some L \<Longrightarrow> \<exists>L'. loops w' l = Some L' \<and> same_loop L L'"
    using user_frame_loop [OF frame] by simp
qed

lemma ctl_frame_server:
  assumes "ctl_frame (w :: 'a sworld_scheme) v"
  shows "server v = server w" "conns v = conns w" "calls v = calls w" "cur_tid v = cur_tid w"
proof -
  from assms have more: "lworld.more v = lworld.more w" by (simp add: ctl_frame_def)
  from more_more [OF more] show "server v = server w" by (cases v; cases w; simp)
  from more_fields [OF more] show "conns v = conns w" "calls v = calls w" by simp_all
  from assms show "cur_tid v = cur_tid w" by (simp add: ctl_frame_def)
qed

lemma queueInLoop_server:
  assumes "queueInLoop os l f w = Inr (w' :: 'a sworld_scheme)"
  shows "server w' = server w" "conns w' = conns w" "calls w' = calls w" "cur_tid w' = cur_tid w"
    "chans w' = chans w"
    "\<exists>L. loops w l = Some L \<and>
       loops w' = (loops w)(l \<mapsto> L\<lparr>el_pendingFunctors := el_pendingFunctors L @ [f]\<rparr>)"
  using assms by (rule queueInLoop_frame, simp add: put_loop_def)+

text \<open>
  What \<open>newConnection\<close> leaves, whichever thread runs the connection's loop. With another
  thread the work ends with a queued functor, in the own thread with the user's callback.
\<close>

lemma newConnection_ok:
  fixes w :: "'a sworld_scheme"
  assumes inv: "server_inv w" and free: "conns w c = None" "chans w p = None"
    and max: "ts_nextConnId (server w) \<noteq> int_max"
    and l: "l = turn (ts_threadPool (server w)) 0" "loops w l = Some L" "loop_inv os l w"
    and fd: "\<forall>q d. chans w q = Some d \<longrightarrow> ch_loop d = l \<longrightarrow> ch_fd d \<noteq> fd" "el_wakeupFd L \<noteq> fd"
  shows "\<exists>v C. made_connection (server w) p fd peer C \<and>
    ts_connections (server w) (tc_name C) = None \<and> server v = server_with c (server w) \<and>
    server_inv v \<and> calls v = calls w \<and> conns v = (conns w)(c \<mapsto> C) \<and>
    (if el_threadId L = cur_tid w
     then tc_state C = kConnected \<and> loop_watched l v p = Some kReadEvent \<and>
       newConnection user os c p fd peer w =
         call_user user os (ts_connectionCallback (server w)) (OnConnection c) v
     else tc_state C = kConnecting \<and> newConnection user os c p fd peer w = Inr v \<and>
       loops v l = Some (L\<lparr>el_pendingFunctors := el_pendingFunctors L @ [F_connectEstablished c]\<rparr>))"
proof -
  have pool: "pool_inv (ts_threadPool (server w))" using inv by (simp add: server_inv_def)
  obtain v C ch where eq: "newConnection user os c p fd peer w =
        runInLoop (\<lambda>f. connectEstablished user os c) os (tc_loop C) (F_connectEstablished c) v"
      and v: "conns v = (conns w)(c \<mapsto> C)" "made_connection (server w) p fd peer C"
      "tc_state C = kConnecting" "server v = server_with c (server w)" "loops v = loops w"
      "calls v = calls w" "cur_tid v = cur_tid w"
      and ch: "chans v = (chans w)(p \<mapsto> ch)" "ch_fd ch = fd" "ch_loop ch = tc_loop C"
      "ch_index ch = kNew" "ch_events ch = 0" "\<And>ep. interest (trace v) ep = interest (trace w) ep"
    by (rule newConnection_stages [OF max pool, of user os c p fd peer]) blast
  note C = made_simps [OF v(2)]
  have name: "ts_connections (server w) (tc_name C) = None" using next_name_free [OF inv] C by simp
  have inv_v: "server_inv v" by (rule server_with_inv [OF inv free(1) max v(1,4,2)])
  show ?thesis
  proof (cases "el_threadId L = cur_tid w")
    case False
    with eq v l C have "newConnection user os c p fd peer w =
        queueInLoop os l (F_connectEstablished c) v"
      by (simp add: runInLoop_def isInLoopThread_def)
    moreover obtain v' where v': "queueInLoop os l (F_connectEstablished c) v = Inr v'"
      using l v by (auto intro: queue_total [of v l L os "F_connectEstablished c" os])
    moreover note q = queueInLoop_server [OF v']
    moreover have "server_inv v'"
      by (rule server_inv_frame [OF inv_v q(1)]) (simp add: q)
    ultimately show ?thesis
      using v name l False by (intro exI [of _ v'] exI [of _ C]) simp
  next
    case True
    have "loop_inv os l v"
      by (rule loop_inv_new_channel [OF l(3) free(2) _ ch(4,1) _ ch(6)])
        (use fd ch v in \<open>simp_all add: loop_poller_def\<close>)
    then have inv_l: "loop_inv os (tc_loop C) v" using l C by simp
    have shows_c: "shows_conn c C ch v"
      using v ch C l fd True by (simp add: shows_conn_def isInLoopThread_def)
    obtain u and ch' :: channel where u: "connectEstablished user os c v =
          call_user user os (tc_connectionCallback C) (OnConnection c) u"
        "conns u = (conns v)(c \<mapsto> setState kConnected C)" "ctl_frame (put_conn c (setState kConnected C) v) u"
        "ch_events ch' = ch_events ch OR kReadEvent"
        "loop_watched (tc_loop C) u (tc_channel C) = Some (ch_events ch')"
      by (rule connectEstablished_eq [OF shows_c inv_l, of user]) (rule that; assumption)
    note frame = ctl_frame_server [OF u(3)]
    have "server_inv u"
      by (rule server_inv_frame [OF inv_v]) (use frame v in \<open>auto simp: setState_def\<close>)
    moreover have "newConnection user os c p fd peer w =
        call_user user os (ts_connectionCallback (server w)) (OnConnection c) u"
      using eq u(1) v l C True by (simp add: runInLoop_def isInLoopThread_def)
    ultimately show ?thesis
      using u v name frame C l ch True
      by (intro exI [of _ u] exI [of _ "setState kConnected C"])
        (simp, simp add: setState_def)
  qed
qed

section \<open>Connections go\<close>

text \<open>Removal in the server's thread: the name is erased, destruction is queued behind it.\<close>

lemma removeConnectionInLoop_ok:
  fixes w :: "'a sworld_scheme"
  assumes C: "conns w c = Some C" and l: "loops w (tc_loop C) = Some K"
  shows "\<exists>w'. removeConnectionInLoop os c w = Inr w' \<and>
    server w' = (server w)\<lparr>ts_connections := (ts_connections (server w))(tc_name C := None)\<rparr> \<and>
    conns w' = conns w \<and> calls w' = calls w \<and> chans w' = chans w \<and> cur_tid w' = cur_tid w \<and>
    loops w' = (loops w)(tc_loop C \<mapsto>
      K\<lparr>el_pendingFunctors := el_pendingFunctors K @ [F_connectDistroyed c]\<rparr>)"
proof -
  let ?v = "upd_server (\<lambda>S. S\<lparr>ts_connections := (ts_connections S)(tc_name C := None)\<rparr>) w"
  obtain w' where w': "queueInLoop os (tc_loop C) (F_connectDistroyed c) ?v = Inr w'"
    using l by (auto intro: queue_total [of ?v "tc_loop C" K os "F_connectDistroyed c" os])
  note q = queueInLoop_server [OF w']
  show ?thesis
    by (rule exI [of _ w'])
      (use C l w' q in \<open>auto simp: removeConnectionInLoop_def\<close>)
qed

lemma server_inv_erase:
  assumes inv: "server_inv w"
    and v: "server v = (server w)\<lparr>ts_connections := (ts_connections (server w))(name := None)\<rparr>"
      "conns v = conns w"
  shows "server_inv v"
proof -
  have same: "conn_name (server v) n = conn_name (server w) n" for n
    by (simp add: conn_name_def v)
  have rest: "ts_ipPort (server v) = ts_ipPort (server w)"
      "ts_nextConnId (server v) = ts_nextConnId (server w)"
      "ts_threadPool (server v) = ts_threadPool (server w)" using v by simp_all
  have "\<exists>n C. 1 \<le> n \<and> n < ts_nextConnId (server v) \<and> nm = conn_name (server v) n \<and>
      conns v d = Some C \<and> tc_name C = nm \<and> tc_closeCallback C = Some TcpServer_removeConnection"
    if entry: "ts_connections (server v) nm = Some d" for nm d
  proof -
    from entry v have "ts_connections (server w) nm = Some d" by (simp split: if_splits)
    with inv obtain n C where "1 \<le> n" "n < ts_nextConnId (server w)" "nm = conn_name (server w) n"
        "conns w d = Some C" "tc_name C = nm" "tc_closeCallback C = Some TcpServer_removeConnection"
      unfolding server_inv_def by blast
    then show ?thesis
      by (intro exI [of _ n] exI [of _ C]) (simp add: same rest v(2))
  qed
  with inv rest show ?thesis unfolding server_inv_def by simp
qed

lemma conn_moves_disconnected: "conn_moves (setState kDisconnected C) C' \<Longrightarrow> tc_state C' = kDisconnected"
  by (auto simp: conn_moves_def setState_def)

lemma setState_simps [simp]:
  "tc_state (setState s C) = s" "tc_name (setState s C) = tc_name C"
  "tc_closeCallback (setState s C) = tc_closeCallback C" "tc_loop (setState s C) = tc_loop C"
  "tc_connectionCallback (setState s C) = tc_connectionCallback C"
  "tc_channel (setState s C) = tc_channel C" "tc_socket (setState s C) = tc_socket C"
  by (simp_all add: setState_def)

text \<open>Up to the close callback: the user was told once, and the connection is disconnected.\<close>

lemma handleClose_told:
  fixes w :: "'a sworld_scheme"
  assumes C: "conns w c = Some C" "tc_closeCallback C = Some g"
    and told: "call_user user os (tc_connectionCallback C) (OnConnection c)
      (put_conn c (setState kDisconnected C) w) = Inr v"
  shows "\<exists>D. handleClose user close os c w = close g c v \<and> conns v c = Some D \<and>
    tc_state D = kDisconnected \<and> tc_name D = tc_name C \<and> tc_loop D = tc_loop C"
proof -
  have "conns (put_conn c (setState kDisconnected C) w) c = Some (setState kDisconnected C)" by simp
  from call_user_server(5) [OF told this] obtain D where
      D: "conns v c = Some D" "conn_moves (setState kDisconnected C) D" by blast
  with C told conn_moves_setup [OF D(2)] conn_moves_disconnected [OF D(2)] show ?thesis
    by (intro exI [of _ D]) (simp add: handleClose_def upd_conn_def)
qed

lemma handleClose_own_loop:
  fixes w :: "'a sworld_scheme"
  assumes inv: "server_inv w" and C: "conns w c = Some C"
    and close: "tc_closeCallback C = Some TcpServer_removeConnection"
    and told: "call_user user os (tc_connectionCallback C) (OnConnection c)
      (put_conn c (setState kDisconnected C) w) = Inr v"
    and own: "loops w (ts_loop (server w)) = Some L" "el_threadId L = cur_tid w"
    and l: "loops w (tc_loop C) = Some K"
  shows "\<exists>w' D K' fs. handleClose user (run_close os) os c w = Inr w' \<and> server_inv w' \<and>
    conns w' c = Some D \<and> tc_state D = kDisconnected \<and> calls w' = calls w @ [OnConnection c] \<and>
    ts_connections (server w') = (ts_connections (server w))(tc_name C := None) \<and>
    loops w' (tc_loop C) = Some K' \<and>
    el_pendingFunctors K' = el_pendingFunctors K @ fs @ [F_connectDistroyed c]"
proof -
  let ?w = "put_conn c (setState kDisconnected C) w"
  note user = call_user_server [OF told]
  from handleClose_told [OF C close told] obtain D where
      eq: "handleClose user (run_close os) os c w = removeConnection os c v"
      and D: "conns v c = Some D" "tc_state D = kDisconnected" "tc_name D = tc_name C"
        "tc_loop D = tc_loop C"
    by auto
  from user(6) [of "ts_loop (server w)" L] own obtain L' where
      L': "loops v (ts_loop (server w)) = Some L'" "same_loop L L'" by auto
  from user(6) [of "tc_loop C" K] l obtain K' fs where
      K': "loops v (tc_loop C) = Some K'" "el_pendingFunctors K' = el_pendingFunctors K @ fs"
    by (auto simp: same_loop_def)
  have "server_inv ?w"
    by (rule server_inv_frame [OF inv]) (use C in \<open>auto simp: setState_def\<close>)
  then have inv_v: "server_inv v" by (rule user(2))
  have "isInLoopThread L' v" using L' own user(4) by (simp add: isInLoopThread_def same_loop_def)
  then have step: "removeConnection os c v = removeConnectionInLoop os c v"
    using L' user(1) by (simp add: removeConnection_def runInLoop_def)
  have "loops v (tc_loop D) = Some K'" using K' D by simp
  from removeConnectionInLoop_ok [OF D(1) this, of os] obtain w' where
      w': "removeConnectionInLoop os c v = Inr w'"
        "server w' = (server v)\<lparr>ts_connections := (ts_connections (server v))(tc_name D := None)\<rparr>"
        "conns w' = conns v" "calls w' = calls v"
        "loops w' = (loops v)(tc_loop D \<mapsto>
          K'\<lparr>el_pendingFunctors := el_pendingFunctors K' @ [F_connectDistroyed c]\<rparr>)"
    by blast
  have "server_inv w'" by (rule server_inv_erase [OF inv_v w'(2,3)])
  with eq step w' D K' user(1,3) show ?thesis
    by (intro exI [of _ w'] exI [of _ D]
        exI [of _ "K'\<lparr>el_pendingFunctors := el_pendingFunctors K' @ [F_connectDistroyed c]\<rparr>"]
        exI [of _ fs]) simp
qed

text \<open>Destruction: the poller forgets the channel.\<close>

lemma connectDistroyed_closed:
  fixes w :: "'a sworld_scheme"
  assumes C: "conns w c = Some C" "tc_state C \<noteq> kConnected"
    and ch: "chans w (tc_channel C) = Some ch" "ch_loop ch = tc_loop C"
    and inv: "loop_inv os (tc_loop C) w"
  shows "\<exists>w'. connectDistroyed user os c w = Inr w' \<and> loop_inv os (tc_loop C) w' \<and>
    loop_watched (tc_loop C) w' = (loop_watched (tc_loop C) w)(tc_channel C := None) \<and>
    conns w' = conns w \<and> calls w' = calls w \<and> server w' = server w"
proof -
  have "tc_channel C \<in> loop_owned (tc_loop C) w" using ch by (simp add: loop_owned_def)
  from reg.remove_law [OF inv this] obtain w' where
      w': "Channel_remove os (tc_channel C) w = Inr w'" "loop_inv os (tc_loop C) w'"
        "(loop_mask w', loop_watched (tc_loop C) w') =
          spec_step (Drop (tc_channel C)) (loop_mask w, loop_watched (tc_loop C) w)"
    by blast
  from w'(1) have frame: "ctl_frame w w'" by (rule Channel_remove_frame)
  from w' C ctl_frame_server [OF frame] show ?thesis
    by (intro exI [of _ w']) (simp add: connectDistroyed_def)
qed

section \<open>The invariant through every operation\<close>

text \<open>What all operations but the server's own leave alone.\<close>

definition same_entry :: "tcp_connection \<Rightarrow> tcp_connection \<Rightarrow> bool" where
  "same_entry C C' \<longleftrightarrow> tc_name C' = tc_name C \<and> tc_closeCallback C' = tc_closeCallback C"

definition server_frame :: "'a sworld_scheme \<Rightarrow> 'a sworld_scheme \<Rightarrow> bool" where
  "server_frame w w' \<longleftrightarrow>
     server w' = server w \<and> (\<forall>c. rel_option same_entry (conns w c) (conns w' c))"

definition server_good :: "'a sworld_scheme \<Rightarrow> bool" where
  "server_good w \<longleftrightarrow> server_inv w \<and> finite (dom (conns w))"

lemma same_entry_refl [simp]: "same_entry C C"
  by (simp add: same_entry_def)

lemma same_entry_setState [simp]: "same_entry C (setState s C)"
  by (simp add: same_entry_def)

lemma server_frame_refl [simp]: "server_frame w w"
  by (simp add: server_frame_def option.rel_refl)

lemma server_frame_trans: "server_frame w v \<Longrightarrow> server_frame v u \<Longrightarrow> server_frame w u"
  unfolding server_frame_def
  by (auto intro: rel_option_trans_with [where R = same_entry] simp: same_entry_def)

lemma server_frame_same: "server v = server w \<Longrightarrow> conns v = conns w \<Longrightarrow> server_frame w v"
  by (simp add: server_frame_def option.rel_refl)

lemma server_frame_put:
  "conns w c = Some C \<Longrightarrow> same_entry C C' \<Longrightarrow> server_frame w (put_conn c C' w)"
  by (simp add: server_frame_def option.rel_refl)

lemma server_frame_user: "user_frame w v \<Longrightarrow> server_frame w (v :: 'a sworld_scheme)"
  unfolding server_frame_def
proof (intro conjI allI)
  assume frame: "user_frame w v"
  then show "server v = server w" by (rule user_frame_server)
  fix c
  from frame have "rel_option conn_moves (conns w c) (conns v c)" by (simp add: user_frame_def)
  then show "rel_option same_entry (conns w c) (conns v c)"
    by (rule option.rel_mono_strong) (auto simp: same_entry_def dest: conn_moves_setup)
qed

lemma server_frame_ctl: "ctl_frame w v \<Longrightarrow> server_frame w (v :: 'a sworld_scheme)"
  by (rule server_frame_same) (simp_all add: ctl_frame_server)

lemma server_frame_queue: "queueInLoop os l f w = Inr v \<Longrightarrow> server_frame w (v :: 'a sworld_scheme)"
  by (rule server_frame_same) (simp_all add: queueInLoop_server)

lemma server_frame_call:
  assumes "call_user user os f cl w = Inr (w' :: 'a sworld_scheme)"
  shows "server_frame w w'"
proof -
  from assms have "user_frame (w\<lparr>calls := calls w @ [cl]\<rparr>) w'" by (rule call_user_Inr)
  from server_frame_user [OF this] show ?thesis by (simp add: server_frame_def)
qed

lemma server_frame_good:
  assumes frame: "server_frame w v" and good: "server_good w"
  shows "server_good v"
proof -
  have entry: "rel_option same_entry (conns w c) (conns v c)" for c
    using frame by (simp add: server_frame_def)
  have "server_inv v"
  proof (rule server_inv_frame)
    show "server_inv w" "server v = server w"
      using good frame by (simp_all add: server_good_def server_frame_def)
    show "\<exists>C'. conns v c = Some C' \<and> tc_name C' = tc_name C \<and> tc_closeCallback C' = tc_closeCallback C"
      if "conns w c = Some C" for c C
      using entry [of c] that by (auto simp: option_rel_Some1 same_entry_def)
  qed
  moreover have "dom (conns v) = dom (conns w)"
  proof -
    have "conns v c = None \<longleftrightarrow> conns w c = None" for c
      using entry [of c] by (cases "conns w c"; cases "conns v c") auto
    then show ?thesis by (auto simp: dom_def)
  qed
  ultimately show ?thesis using good by (simp add: server_good_def)
qed

text \<open>The handlers of a connection.\<close>

lemma frame_finish: "finish_shutdown os c w = Inr w' \<Longrightarrow> user_frame w w'"
  by (auto simp: finish_shutdown_def dest: frame_shutdownInLoop split: if_splits)

lemma frame_after_write:
  assumes "after_write os c C n w = Inr w'" and C: "conns w c = Some C"
  shows "user_frame w w'"
proof -
  let ?w = "put_conn c (C\<lparr>tc_outputBuffer := retrieve (of_nat n) (tc_outputBuffer C)\<rparr>) w"
  have first: "user_frame w ?w" by (rule frame_put_conn [OF C]) simp
  show ?thesis
  proof (cases "readableBytes (retrieve (of_nat n) (tc_outputBuffer C)) = 0")
    case True
    with assms(1) obtain v u where "disableWriting os (tc_channel C) ?w = Inr v"
        "notify_complete os c C v = Inr u" "finish_shutdown os c u = Inr w'"
      by (auto simp: after_write_def Let_def)
    from user_frame_trans [OF first user_frame_trans [OF frame_interest [OF this(1)]
        user_frame_trans [OF frame_notify [OF this(2)] frame_finish [OF this(3)]]]]
    show ?thesis .
  next
    case False
    with assms(1) first show ?thesis by (simp add: after_write_def Let_def)
  qed
qed

lemma user_frame_emit: "user_frame (emit e w) w' \<Longrightarrow> user_frame w w'"
  by (rule frame_after(1))

lemma frame_handleWrite:
  assumes "handleWrite os c w = Inr w'"
  shows "user_frame w w'"
proof -
  have out: "\<exists>e. v = emit e w" if "writeFd os fd b w = Inr (n, v)" for fd b n v
    using that by (auto simp: writeFd_def sys_write_def Let_def)
  have step: "user_frame w w'"
    if "writeFd os fd (tc_outputBuffer C) w = Inr (n, v)" "conns w c = Some C"
      "(case n of Inl e \<Rightarrow> Inr (log_msg ERROR v)
        | Inr n \<Rightarrow> if 0 < n then after_write os c C n v else Inr (log_msg ERROR v)) = Inr w'"
    for fd C n v
  proof -
    from out [OF that(1)] obtain e where v: "v = emit e w" by blast
    then have "user_frame v w'"
      using that by (auto split: sum.splits if_splits intro: frame_after_write)
    with v show ?thesis by (auto intro: user_frame_emit)
  qed
  from assms show ?thesis
    by (auto simp: handleWrite_def split: if_split_asm intro: step)
qed

lemma frame_handleError: "handleError os c w = Inr w' \<Longrightarrow> user_frame w w'"
  by (auto simp: handleError_def sys_getsockopt_def Let_def)

lemma good_put_state:
  assumes "conns w c = Some C" and "server_good w"
  shows "server_good (put_conn c (setState s C) w)"
  by (rule server_frame_good [OF server_frame_put [OF assms(1)] assms(2)]) simp

lemma good_removeConnectionInLoop:
  fixes w :: "'a sworld_scheme"
  assumes "removeConnectionInLoop os c w = Inr w'" and good: "server_good w"
  shows "server_good w'"
proof -
  from assms(1) obtain C where C: "conns w c = Some C" and queue: "queueInLoop os (tc_loop C)
      (F_connectDistroyed c) (upd_server (\<lambda>S. S\<lparr>ts_connections :=
        (ts_connections S)(tc_name C := None)\<rparr>) w) = Inr w'" (is "queueInLoop _ _ _ ?v = _")
    by (auto simp: removeConnectionInLoop_def)
  have "server_inv ?v"
    by (rule server_inv_erase) (use good in \<open>simp_all add: server_good_def\<close>)
  then have "server_good ?v" using good by (simp add: server_good_def)
  then show ?thesis by (rule server_frame_good [OF server_frame_queue [OF queue]])
qed

lemma good_removeConnection:
  assumes "removeConnection os c w = Inr w'" and "server_good w"
  shows "server_good w'"
  using assms
  by (auto simp: removeConnection_def runInLoop_def split: if_split_asm
      dest: good_removeConnectionInLoop server_frame_good [OF server_frame_queue])

lemma good_handleClose:
  assumes "handleClose user (run_close os) os c w = Inr w'" and good: "server_good w"
  shows "server_good w'"
proof -
  from assms(1) obtain C v D g where C: "conns w c = Some C"
      "call_user user os (tc_connectionCallback C) (OnConnection c)
        (put_conn c (setState kDisconnected C) w) = Inr v"
      "conns v c = Some D" "run_close os g c v = Inr w'"
    by (auto simp: handleClose_def upd_conn_def split: option.splits)
  from good_put_state [OF C(1) good] have "server_good v"
    by (rule server_frame_good [OF server_frame_call [OF C(2)]])
  with C(4) show ?thesis by (cases g) (auto intro: good_removeConnection)
qed

lemma good_handleRead:
  assumes "handleRead user (run_close os) os c t w = Inr w'" and good: "server_good w"
  shows "server_good w'"
proof -
  from assms(1) obtain C n b v and ch :: channel where C: "conns w c = Some C"
      "readFd os (ch_fd ch) (tc_inputBuffer C) w = Inr (n, b, v)" and
      rest: "(case n of Inl e \<Rightarrow> handleError os c (log_msg ERROR (put_conn c (C\<lparr>tc_inputBuffer := b\<rparr>) v))
        | Inr n \<Rightarrow> if n = 0 then handleClose user (run_close os) os c (put_conn c (C\<lparr>tc_inputBuffer := b\<rparr>) v)
          else call_user user os (tc_messageCallback C) (OnMessage c t)
            (put_conn c (C\<lparr>tc_inputBuffer := b\<rparr>) v)) = Inr w'"
    by (auto simp: handleRead_def Let_def)
  from C(2) obtain e where v: "v = emit e w"
    by (auto simp: readFd_def sys_readv_def Let_def split: sum.splits if_splits)
  let ?v = "put_conn c (C\<lparr>tc_inputBuffer := b\<rparr>) v"
  have "server_frame v ?v"
    by (rule server_frame_put) (simp_all add: v C same_entry_def)
  moreover have "server_frame w v" by (rule server_frame_same) (simp_all add: v)
  ultimately have good_v: "server_good ?v"
    using good by (blast intro: server_frame_good)
  show ?thesis
  proof (cases n)
    case (Inl e)
    with rest have "handleError os c (log_msg ERROR ?v) = Inr w'" by simp
    from server_frame_user [OF frame_handleError [OF this]] have "server_frame ?v w'"
      by (simp add: server_frame_def)
    then show ?thesis by (rule server_frame_good [OF _ good_v])
  next
    case (Inr k)
    with rest good_v show ?thesis
      by (auto split: if_split_asm intro: good_handleClose server_frame_good [OF server_frame_call])
  qed
qed

lemma good_connectEstablished:
  fixes w :: "'a sworld_scheme"
  assumes "connectEstablished user os c w = Inr w'" and good: "server_good w"
  shows "server_good w'"
proof -
  from assms(1) obtain C ch v where C: "conns w c = Some C" and
      read: "enableReading os (tc_channel C) (put_channel (tc_channel C) (tie c ch)
        (put_conn c (setState kConnected C) w)) = Inr v" and
      told: "call_user user os (tc_connectionCallback C) (OnConnection c) v = Inr w'"
    by (auto simp: connectEstablished_def upd_conn_def)
  have "ctl_frame (put_conn c (setState kConnected C) w) v"
    using read by (rule Channel_interest_frame) (simp add: ctl_frame_put_channel)
  from server_frame_good [OF server_frame_call [OF told] server_frame_good [OF
      server_frame_ctl [OF this] good_put_state [OF C good]]]
  show ?thesis .
qed

lemma good_connectDistroyed:
  fixes w :: "'a sworld_scheme"
  assumes "connectDistroyed user os c w = Inr w'" and good: "server_good w"
  shows "server_good w'"
proof -
  from assms(1) obtain C u where C: "conns w c = Some C" and
      first: "(if tc_state C = kConnected then
          bnd (disableAll os (tc_channel C) (put_conn c (setState kDisconnected C) w)) (\<lambda>w.
          call_user user os (tc_connectionCallback C) (OnConnection c) w)
        else Inr w) = Inr u" and
      rem: "Channel_remove os (tc_channel C) u = Inr w'"
    by (auto simp: connectDistroyed_def)
  have "server_good u"
  proof (cases "tc_state C = kConnected")
    case False
    with first good show ?thesis by simp
  next
    case True
    with first obtain v where v: "disableAll os (tc_channel C) (put_conn c (setState kDisconnected C) w) = Inr v"
        "call_user user os (tc_connectionCallback C) (OnConnection c) v = Inr u"
      by auto
    from v(1) have "ctl_frame (put_conn c (setState kDisconnected C) w) v"
      by (rule Channel_interest_frame)
    from server_frame_good [OF server_frame_call [OF v(2)] server_frame_good [OF
        server_frame_ctl [OF this] good_put_state [OF C good]]]
    show ?thesis .
  qed
  moreover from rem have "ctl_frame u w'" by (rule Channel_remove_frame)
  ultimately show ?thesis by (blast intro: server_frame_good server_frame_ctl)
qed

lemma server_listen_Inr:
  fixes w :: "'a sworld_scheme"
  assumes "server_listen os w = Inr w'"
  obtains A v where "server_frame w v" and "w' = upd_server (\<lambda>S. S\<lparr>ts_acceptor := A\<rparr>) v"
proof -
  from assms obtain A v where v: "Acceptor_listen os (ts_acceptor (server w)) w = Inr (A, v)"
      "w' = upd_server (\<lambda>S. S\<lparr>ts_acceptor := A\<rparr>) v"
    by (auto simp: server_listen_def)
  from v(1) obtain p u where u: "Socket_listen os p w = Inr u"
      and read: "enableReading os (ac_channel (ts_acceptor (server w))) u = Inr v"
    by (auto simp: Acceptor_listen_def Let_def)
  from u have "server_frame w u"
    by (auto simp: Socket_listen_def sys_listen_def Let_def intro!: server_frame_same
        split: option.splits)
  moreover from read have "ctl_frame u v" by (rule Channel_interest_frame)
  then have "server_frame u v" by (rule server_frame_ctl)
  ultimately have "server_frame w v" by (rule server_frame_trans)
  with v(2) show ?thesis by (rule that [rotated])
qed

lemma good_upd_server:
  assumes "server_good w" and "ts_ipPort (f (server w)) = ts_ipPort (server w)"
    and "ts_name (f (server w)) = ts_name (server w)"
    and "ts_nextConnId (f (server w)) = ts_nextConnId (server w)"
    and "ts_connections (f (server w)) = ts_connections (server w)"
    and "pool_inv (ts_threadPool (f (server w)))"
  shows "server_good (upd_server f w)"
  using assms unfolding server_good_def server_inv_def conn_name_def by simp

lemma good_server_listen:
  assumes "server_listen os w = Inr w'" and good: "server_good w"
  shows "server_good w'"
  using assms(1)
proof (rule server_listen_Inr)
  fix A v
  assume v: "server_frame w v" "w' = upd_server (\<lambda>S. S\<lparr>ts_acceptor := A\<rparr>) v"
  from server_frame_good [OF v(1) good] show ?thesis
    unfolding v(2) by (rule good_upd_server) (simp_all add: server_good_def server_inv_def
        server_frame_good [OF v(1) good, unfolded server_good_def server_inv_def])
qed

lemma good_exec_functor:
  "exec_functor user os f w = Inr w' \<Longrightarrow> server_good w \<Longrightarrow> server_good w'"
  by (cases f)
    (auto intro: good_connectEstablished good_connectDistroyed good_removeConnectionInLoop
      good_server_listen server_frame_good [OF server_frame_user [OF frame_sendInLoop]]
      server_frame_good [OF server_frame_user [OF frame_shutdownInLoop]]
      server_frame_good [OF server_frame_call])

lemma good_newConnection:
  fixes w :: "'a sworld_scheme"
  assumes run: "newConnection user os c p fd peer w = Inr w'" and good: "server_good w"
    and free: "conns w c = None"
  shows "server_good w'"
proof -
  have pool: "pool_inv (ts_threadPool (server w))" and inv: "server_inv w"
    using good by (simp_all add: server_good_def server_inv_def)
  have max: "ts_nextConnId (server w) \<noteq> int_max"
    using run by (auto simp: newConnection_def getNextLoop_turn [OF pool])
  obtain v C where eq: "newConnection user os c p fd peer w =
        runInLoop (\<lambda>f. connectEstablished user os c) os (tc_loop C) (F_connectEstablished c) v"
      and v: "conns v = (conns w)(c \<mapsto> C)" "server v = server_with c (server w)"
        "made_connection (server w) p fd peer C"
    by (rule newConnection_stages [OF max pool, of user os c p fd peer]) blast
  have "server_good v"
    using server_with_inv [OF inv free max v] good v(1) by (simp add: server_good_def)
  with run eq show ?thesis
    by (auto simp: runInLoop_def split: if_split_asm
        intro: good_connectEstablished server_frame_good [OF server_frame_queue])
qed

definition gives_fresh :: "('a sworld_scheme \<Rightarrow> conn_id \<times> ptr) \<Rightarrow> bool" where
  "gives_fresh fresh \<longleftrightarrow> (\<forall>w. finite (dom (conns w)) \<longrightarrow> conns w (fst (fresh w)) = None)"

lemma good_accept:
  fixes w :: "'a sworld_scheme"
  assumes fresh: "gives_fresh fresh"
    and run: "accept_handleRead (\<lambda>fd a w. let (c, p) = fresh w in newConnection user os c p fd a w)
       os len A w = Inr w'"
    and good: "server_good w"
  shows "server_good w'"
proof -
  have emit_good: "server_good (emit e v)" "server_good (log_msg lv v)" if "server_good v"
      for e lv and v :: "'a sworld_scheme"
    using server_frame_good [OF server_frame_same that] by simp_all
  have new: "server_good w'" if v: "(let (c, p) = fresh v in newConnection user os c p fd a v) = Inr w'"
      "server_good v" for fd a and v :: "'a sworld_scheme"
  proof -
    obtain c p where cp: "fresh v = (c, p)" by (cases "fresh v")
    then have "conns v c = None"
      using fresh v(2) unfolding gives_fresh_def server_good_def by (metis fst_conv)
    with v cp show ?thesis by (auto intro: good_newConnection)
  qed
  from run good show ?thesis
    by (auto simp: accept_handleRead_def Socket_accept_def sys_accept_def sys_close_def Let_def
        split: sum.splits if_split_asm intro!: emit_good
        elim!: new [unfolded Let_def, OF _ emit_good(1)])
qed

lemma good_invoke:
  assumes fresh: "gives_fresh fresh" and run: "invoke user os fresh len t cb w = Inr w'"
    and good: "server_good w"
  shows "server_good w'"
proof (cases cb)
  case (EventLoop_handleRead l)
  with run have "user_frame w w'"
    by (auto simp: EventLoop_handleRead_body_def sys_read_def Let_def)
  then show ?thesis by (rule server_frame_good [OF server_frame_user good])
next
  case Acceptor_handleRead
  with run good_accept [OF fresh _ good] show ?thesis by simp
qed (use run good in \<open>auto intro: good_handleRead good_handleClose
      server_frame_good [OF server_frame_user [OF frame_handleWrite]]
      server_frame_good [OF server_frame_user [OF frame_handleError]]\<close>)

lemma good_dispatch:
  assumes "gives_fresh fresh" and "handleEvent (invoke user os fresh len) alive t p w = Inr w'"
    and "server_good w"
  shows "server_good w'"
proof -
  have one: "server_good u"
    if "dispatch_if (invoke user os fresh len) t p cond cb v = Inr u" "server_good v"
    for cond v u and cb :: "channel \<Rightarrow> callback option"
    using that by (auto simp: dispatch_if_def split: if_split_asm option.splits
        intro: good_invoke [OF assms(1)])
  have "server_good w'" if "handleEventWithGuard (invoke user os fresh len) t p w = Inr w'"
    using that [unfolded handleEventWithGuard_def] assms(3)
    by (rule run_invariant) (auto intro: one)
  with assms(2,3) show ?thesis
    by (auto simp: handleEvent_def split: if_split_asm option.splits)
qed

lemma good_poll:
  fixes w :: "'a sworld_scheme"
  assumes "poll_step os l w = Inr w'" and good: "server_good w"
  shows "server_good w'"
proof -
  have fill: "conns v = conns u \<and> server v = server u"
    if "fill_entries es u = Inr (ps, v)" for es ps and u v :: "'a sworld_scheme"
    using that by (induction es arbitrary: u ps) fastforce+
  have "conns v = conns w \<and> server v = server w"
    if "EPollPoller_poll os P w = Inr (now, P', ps, v)" for P now P' ps v
    using that by (auto simp: EPollPoller_poll_def sys_epoll_wait_def fillActiveChannels_def Let_def
        split: sum.splits if_split_asm dest!: fill)
  with assms(1) have "conns w' = conns w \<and> server w' = server w"
    by (fastforce simp: poll_step_def upd_loop_Inr split: option.splits)
  then show ?thesis using good by (blast intro: server_frame_good server_frame_same)
qed

lemma good_upd_loop:
  "upd_loop l f w = Inr w' \<Longrightarrow> server_good w \<Longrightarrow> server_good (w' :: 'a sworld_scheme)"
  by (auto simp: upd_loop_Inr intro: server_frame_good [OF server_frame_same])

lemma good_round:
  fixes w :: "'a sworld_scheme"
  assumes fresh: "gives_fresh fresh" and run: "server_round user os fresh len l w = Inr w'"
    and good: "server_good w"
  shows "server_good w'"
proof -
  have handlers: "server_good u" if "handle_active (invoke user os fresh len) alive l v = Inr u"
      "server_good v" for u v :: "'a sworld_scheme"
  proof -
    from that(1) obtain L :: "pending_functor event_loop" where "run (map (handleEvent (invoke user os fresh len) alive
        (el_pollReturnTime L)) (el_activeChannels L)) v = Inr u"
      by (auto simp: handle_active_def)
    then show ?thesis using that(2)
      by (rule run_invariant) (auto intro: good_dispatch [OF fresh])
  qed
  have functors: "server_good u" if "doPendingFunctors (exec_functor user os) l v = Inr u"
      "server_good v" for u v :: "'a sworld_scheme"
  proof -
    from that(1) obtain v1 fs v2 v3 where "upd_loop l (\<lambda>L. L\<lparr>el_callingPendingFunctors := True\<rparr>) v = Inr v1"
        "upd_loop l (\<lambda>L. L\<lparr>el_pendingFunctors := []\<rparr>) v1 = Inr v2"
        "run (map (exec_functor user os) fs) v2 = Inr v3"
        "upd_loop l (\<lambda>L. L\<lparr>el_callingPendingFunctors := False\<rparr>) v3 = Inr u"
      by (auto simp: doPendingFunctors_def Let_def)
    moreover have "server_good v3" if "run (map (exec_functor user os) fs) v2 = Inr v3" "server_good v2"
      using that by (rule run_invariant) (auto intro: good_exec_functor)
    ultimately show ?thesis using that(2) by (blast intro: good_upd_loop)
  qed
  from run have "run [upd_loop l (\<lambda>L. L\<lparr>el_activeChannels := []\<rparr>), poll_step os l,
      handle_active (invoke user os fresh len) alive l,
      doPendingFunctors (exec_functor user os) l] w = Inr w'"
    by (simp add: server_round_def loop_body_def)
  then show ?thesis using good
    by (rule run_invariant) (auto intro: good_upd_loop good_poll handlers functors)
qed

section \<open>From the constructor on\<close>

lemma good_ctor:
  fixes w :: "'a sworld_scheme"
  assumes ctor: "TcpServer_ctor os (Some l) addr name reuseport p w = Inr w'"
    and fin: "finite (dom (conns w))"
  shows "server_good w'"
proof -
  from ctor obtain ipPort A v where ip: "toIpPort addr = Inr ipPort"
      and A: "Acceptor_ctor os l addr reuseport p w = Inr (A, v)"
      and w': "w' = v\<lparr>server := \<lparr>ts_loop = l, ts_ipPort = ipPort, ts_name = name,
         ts_acceptor = setNewConnectionCallback A,
         ts_threadPool = EventLoopThreadPool_ctor l name,
         ts_connectionCallback = None, ts_messageCallback = None,
         ts_writeCompleteCallback = None, ts_threadInitCallback = False,
         ts_started = 0, ts_nextConnId = 1, ts_connections = Map.empty\<rparr>\<rparr>"
    by (auto simp: TcpServer_ctor_def)
  from A have "conns v = conns w"
    by (auto simp: Acceptor_ctor_def createNonblocking_def sys_socket_def bindAddress_def sys_bind_def
        setReusePort_def setReuseAddr_def sys_setsockopt_def Let_def
        split: sum.splits option.splits if_split_asm)
  with fin have "finite (dom (conns v))" by simp
  then show ?thesis
    using toIpPort_length [OF ip] pool_ctor_inv [of l name]
    by (simp add: w' server_good_def server_inv_def int_max_def)
qed

text \<open>Constructing a loop touches neither server nor connections.\<close>

lemma loop_ctor_frame:
  fixes w :: "'a sworld_scheme"
  assumes "EventLoop_ctor use_poll os l p w = Inr w'"
  shows "server_frame w w'"
proof -
  from assms obtain v where "enableReading os p v = Inr w'" and v: "server v = server w" "conns v = conns w"
    by (auto simp: EventLoop_ctor_def newDefaultPoller_def EPollPoller_ctor_def createEventfd_def
        sys_epoll_create_def sys_eventfd_def Let_def split: sum.splits if_split_asm)
  then have "ctl_frame v w'" by (auto elim: Channel_interest_frame)
  from server_frame_ctl [OF this] v show ?thesis by (simp add: server_frame_def)
qed

definition init_keeps :: "(loop_id \<Rightarrow> 'a sworld_scheme \<Rightarrow> failure + 'a sworld_scheme) \<Rightarrow> bool" where
  "init_keeps init \<longleftrightarrow> (\<forall>l v v'. init l v = Inr v' \<longrightarrow> server_frame v v')"

lemma start_threads_frame:
  fixes w :: "'a sworld_scheme"
  assumes init: "init_keeps init"
  shows "start_threads init cb use_poll os supply i n P w = Inr (P', w') \<Longrightarrow> server_frame w w'"
proof (induction n arbitrary: i P w)
  case 0
  then show ?case by simp
next
  case (Suc n)
  obtain t l p where sup: "supply i = (t, l, p)" by (cases "supply i")
  from Suc.prems sup obtain u v P1 where
      ctor: "EventLoop_ctor use_poll os l p (w\<lparr>numCreated := numCreated w + 1, cur_tid := t\<rparr>) = Inr u"
      and first: "(if cb then init l u else Inr u) = Inr v"
      and rest: "start_threads init cb use_poll os supply (Suc i) n P1 (v\<lparr>cur_tid := cur_tid w\<rparr>) =
        Inr (P', w')"
    by (auto simp: startLoop_def threadFunc_begin_def EventLoopThread_ctor_def Thread_ctor_def
        setDefaultname_def Thread_start_def Let_def split: if_split_asm)
  have "server_frame u v" using first init by (auto simp: init_keeps_def split: if_split_asm)
  moreover have "server_frame w u" using loop_ctor_frame [OF ctor] by (simp add: server_frame_def)
  moreover have "server_frame v w'" using Suc.IH [OF rest] by (simp add: server_frame_def)
  ultimately show ?case by (blast intro: server_frame_trans)
qed

lemma pool_start_inv:
  assumes "pool_start init cb use_poll os supply P w = Inr (P', w')" and "pool_inv P"
  shows "pool_inv P'"
proof -
  from assms(1) obtain v where
    "start_threads init cb use_poll os supply 0 (nat (tp_numThreads P)) (P\<lparr>tp_started := True\<rparr>) w =
      Inr (P', v)"
    by (auto simp: pool_start_def split: if_split_asm)
  from start_threads_Inr [OF this] assms(2) show ?thesis by (auto simp: pool_inv_def)
qed

lemma start_Inr:
  fixes w :: "'a sworld_scheme"
  assumes init: "init_keeps init" and start: "TcpServer_start init use_poll os supply w = Inr w'"
    and first: "ts_started (server w) = 0"
  obtains P v where "server_frame (upd_server (\<lambda>S. S\<lparr>ts_started := 1\<rparr>) w) v"
    and "pool_inv (ts_threadPool (server w)) \<Longrightarrow> pool_inv P"
    and "runInLoop (\<lambda>f. server_listen os) os (ts_loop (server v)) F_Acceptor_listen
      (upd_server (\<lambda>S. S\<lparr>ts_threadPool := P\<rparr>) v) = Inr w'"
proof -
  let ?w = "upd_server (\<lambda>S. S\<lparr>ts_started := 1\<rparr>) w"
  from start first obtain P v where
      pool: "pool_start init (ts_threadInitCallback (server w)) use_poll os supply
        (ts_threadPool (server w)) ?w = Inr (P, v)" and
      listen: "runInLoop (\<lambda>f. server_listen os) os (ts_loop (server v)) F_Acceptor_listen
        (upd_server (\<lambda>S. S\<lparr>ts_threadPool := P\<rparr>) v) = Inr w'"
    by (auto simp: TcpServer_start_def Let_def)
  from pool obtain u where u: "start_threads init (ts_threadInitCallback (server w)) use_poll os supply 0
      (nat (tp_numThreads (ts_threadPool (server w))))
      ((ts_threadPool (server w))\<lparr>tp_started := True\<rparr>) ?w = Inr (P, u)"
      "v = u \<or> init (tp_baseLoop P) u = Inr v"
    by (auto simp: pool_start_def split: if_split_asm)
  have "server_frame ?w u" by (rule start_threads_frame [OF init u(1)])
  moreover have "server_frame u v" using u(2) init by (auto simp: init_keeps_def)
  ultimately have "server_frame ?w v" by (rule server_frame_trans)
  with pool listen show ?thesis by (blast intro: that pool_start_inv)
qed

lemma start_again:
  "ts_started (server w) \<noteq> 0 \<Longrightarrow> TcpServer_start init use_poll os supply w =
     Inr (upd_server (\<lambda>S. S\<lparr>ts_started := ts_started S + 1\<rparr>) w)"
  by (simp add: TcpServer_start_def upd_server_def Let_def)

lemma good_start:
  fixes w :: "'a sworld_scheme"
  assumes init: "init_keeps init" and start: "TcpServer_start init use_poll os supply w = Inr w'"
    and good: "server_good w"
  shows "server_good w'"
proof -
  have pool: "pool_inv (ts_threadPool (server w))" using good by (simp add: server_good_def server_inv_def)
  have counted: "server_good (upd_server (\<lambda>S. S\<lparr>ts_started := k S\<rparr>) w)" for k
    by (rule good_upd_server [OF good]) (use pool in simp_all)
  show ?thesis
  proof (cases "ts_started (server w) = 0")
    case False
    with start have "w' = upd_server (\<lambda>S. S\<lparr>ts_started := ts_started S + 1\<rparr>) w"
      by (simp add: start_again)
    with counted [of "\<lambda>S. ts_started S + 1"] show ?thesis by simp
  next
    case True
    with init start show ?thesis
    proof (rule start_Inr)
      fix P v
      assume v: "server_frame (upd_server (\<lambda>S. S\<lparr>ts_started := 1\<rparr>) w) v"
        and P: "pool_inv (ts_threadPool (server w)) \<Longrightarrow> pool_inv P"
        and listen: "runInLoop (\<lambda>f. server_listen os) os (ts_loop (server v)) F_Acceptor_listen
          (upd_server (\<lambda>S. S\<lparr>ts_threadPool := P\<rparr>) v) = Inr w'"
      have "server_good (upd_server (\<lambda>S. S\<lparr>ts_threadPool := P\<rparr>) v)"
        by (rule good_upd_server [OF server_frame_good [OF v counted]]) (use P pool in simp_all)
      with listen show ?thesis
        by (auto simp: runInLoop_def split: if_split_asm
            intro: good_server_listen server_frame_good [OF server_frame_queue])
    qed
  qed
qed

text \<open>The first start leaves the counter at one.\<close>

lemma start_counts:
  fixes w :: "'a sworld_scheme"
  assumes "init_keeps init" and "TcpServer_start init use_poll os supply w = Inr w'"
    and "ts_started (server w) = 0"
  shows "ts_started (server w') = 1"
  using assms
proof (rule start_Inr)
  fix P v
  assume v: "server_frame (upd_server (\<lambda>S. S\<lparr>ts_started := 1\<rparr>) w) v"
    and listen: "runInLoop (\<lambda>f. server_listen os) os (ts_loop (server v)) F_Acceptor_listen
      (upd_server (\<lambda>S. S\<lparr>ts_threadPool := P\<rparr>) v) = Inr w'"
  have "ts_started (server v) = 1" using v by (simp add: server_frame_def)
  with listen show ?thesis
    by (auto simp: runInLoop_def queueInLoop_server(1) server_frame_def split: if_split_asm
        elim!: server_listen_Inr)
qed

text \<open>One round of a loop, in the thread that runs it.\<close>

definition take_turn ::
  "(user_fn \<Rightarrow> call \<Rightarrow> 'a sworld_scheme \<Rightarrow> api_call list) \<Rightarrow> os
     \<Rightarrow> ('a sworld_scheme \<Rightarrow> conn_id \<times> ptr) \<Rightarrow> u32 \<Rightarrow> loop_id
     \<Rightarrow> 'a sworld_scheme \<Rightarrow> failure + 'a sworld_scheme" where
  "take_turn user os fresh len l w =
     bnd (get_loop l w) (\<lambda>L. server_round user os fresh len l (w\<lparr>cur_tid := el_threadId L\<rparr>))"

lemma good_take_turn:
  fixes w :: "'a sworld_scheme"
  assumes "gives_fresh fresh" and "take_turn user os fresh len l w = Inr w'" and "server_good w"
  shows "server_good w'"
proof -
  from assms(2) obtain L :: "pending_functor event_loop"
    where run: "server_round user os fresh len l (w\<lparr>cur_tid := el_threadId L\<rparr>) = Inr w'"
    by (auto simp: take_turn_def)
  have "server_good (w\<lparr>cur_tid := el_threadId L\<rparr>)"
    by (rule server_frame_good [OF server_frame_same assms(3)]) simp_all
  then show ?thesis by (rule good_round [OF assms(1) run])
qed

lemma server_runs_good:
  fixes w :: "'a sworld_scheme"
  assumes fresh: "gives_fresh fresh" and init: "init_keeps init" and fin: "finite (dom (conns w))"
    and ctor: "TcpServer_ctor os (Some l) addr name reuseport p w = Inr v"
    and run: "run (TcpServer_start init use_poll os supply # map (take_turn user os fresh len) ls)
      (setMessageCalback mc (setConnectionCallback cc (setThreadNum n v))) = Inr w'"
  shows "server_good w'"
proof -
  have v: "server_good v" by (rule good_ctor [OF ctor fin])
  then have pool: "pool_inv (ts_threadPool (server v))" by (simp add: server_good_def server_inv_def)
  have "server_good (setMessageCalback mc (setConnectionCallback cc (setThreadNum n v)))"
    unfolding setMessageCalback_def setConnectionCallback_def setThreadNum_def
    by (intro good_upd_server v) (use pool in \<open>simp_all add: pool_inv_def pool_setThreadNum_def\<close>)
  with run show ?thesis
    by (rule run_invariant) (auto intro: good_take_turn [OF fresh] good_start [OF init])
qed

section \<open>A server for the witnesses\<close>

text \<open>
  The connection 7 of the world for the witnesses of \<open>TcpConnection\<close>, registered by a server
  that listens on descriptor 5 and has given out one number.
\<close>

definition demo_server :: tcp_server where
  "demo_server =
     \<lparr>ts_loop = 0, ts_ipPort = ''127.0.0.1:8000'', ts_name = ''echo'',
      ts_acceptor = \<lparr>ac_loop = 0, ac_socket = 5, ac_channel = 24,
        ac_newConnectionCallback = True, ac_listening = True\<rparr>,
      ts_threadPool = EventLoopThreadPool_ctor 0 ''echo'',
      ts_connectionCallback = Some 0, ts_messageCallback = Some 1,
      ts_writeCompleteCallback = None, ts_threadInitCallback = False,
      ts_started = 1, ts_nextConnId = 2,
      ts_connections = [''echo'' @ conn_suffix ''127.0.0.1:8000'' 1 \<mapsto> 7]\<rparr>"

definition named_conn :: tcp_connection where
  "named_conn = demo_conn\<lparr>tc_name := conn_name demo_server 1\<rparr>"

definition demo_sworld :: "tid \<Rightarrow> sworld" where
  "demo_sworld t =
     \<lparr>trace = [], chans = [16 \<mapsto> demo_channel], cur_tid = t, loops = [0 \<mapsto> small_loop],
      t_loopInThisThread = [1 \<mapsto> 0], numCreated = 0, conns = [7 \<mapsto> named_conn],
      strings = Map.empty, calls = [], server = demo_server\<rparr>"

lemma demo_sworld_simps [simp]:
  "trace (demo_sworld t) = []" "chans (demo_sworld t) = [16 \<mapsto> demo_channel]"
  "conns (demo_sworld t) = [7 \<mapsto> named_conn]" "loops (demo_sworld t) = [0 \<mapsto> small_loop]"
  "cur_tid (demo_sworld t) = t" "calls (demo_sworld t) = []" "server (demo_sworld t) = demo_server"
  by (simp_all add: demo_sworld_def)

lemma named_conn_simps [simp]:
  "tc_loop named_conn = 0" "tc_socket named_conn = 9" "tc_channel named_conn = 16"
  "tc_state named_conn = kConnected" "tc_name named_conn = conn_name demo_server 1"
  "tc_closeCallback named_conn = Some TcpServer_removeConnection"
  "tc_connectionCallback named_conn = Some 0"
  by (simp_all add: named_conn_def) (simp_all add: demo_conn_def)

lemma demo_server_simps [simp]:
  "ts_loop demo_server = 0" "ts_nextConnId demo_server = 2" "ts_connectionCallback demo_server = Some 0"
  "ts_threadPool demo_server = EventLoopThreadPool_ctor 0 ''echo''"
  "ts_connections demo_server = [conn_name demo_server 1 \<mapsto> 7]"
  by (simp_all add: demo_server_def conn_name_def)

lemma demo_server_inv: "server_inv (demo_sworld t)"
  by (auto simp: server_inv_def pool_ctor_inv int_max_def) (simp add: demo_server_def)

lemma demo_turn [simp]: "turn (EventLoopThreadPool_ctor 0 nm) i = 0"
  by (simp add: turn_def getAllLoops_def EventLoopThreadPool_ctor_def)

lemma demo_sworld_loop_inv: "epoll_ctl_contract os \<Longrightarrow> loop_inv os 0 (demo_sworld t)"
  by (rule fresh_loop_inv [where m = Map.empty and p = 16 and ch = demo_channel and
        P = "\<lparr>po_ownerLoop = 0, po_epollfd = 3,
          po_events = replicate kInitEventListSize no_event, po_channels = Map.empty\<rparr>"])
    (simp_all add: loop_poller_def small_loop_def)

text \<open>
  A thread with a loop and nothing else, and a kernel that reports descriptor 5, which the
  listening socket will be, as readable. What is needed to run the code on it.
\<close>

definition base_sworld :: sworld where
  "base_sworld =
     \<lparr>trace = [EvEpollCreate (Inr 3), EvEventfd (Inr 4)], chans = Map.empty, cur_tid = 1,
      loops = [0 \<mapsto> small_loop], t_loopInThisThread = [1 \<mapsto> 0], numCreated = 0,
      conns = Map.empty, strings = Map.empty, calls = [], server = demo_server\<rparr>"

definition low_fresh :: "'a sworld_scheme \<Rightarrow> conn_id \<times> ptr" where
  "low_fresh w = (if conns w 8 = None then 8 else (LEAST c. conns w c = None), 32)"

lemma low_fresh_fresh: "gives_fresh low_fresh"
  unfolding gives_fresh_def
proof (intro allI impI)
  fix w :: "'a sworld_scheme"
  assume "finite (dom (conns w))"
  then have "\<exists>c. c \<notin> dom (conns w)" by (rule ex_new_if_finite [rotated]) simp
  then have "conns w (LEAST c. conns w c = None) = None"
    by (metis (mono_tags, lifting) LeastI domIff)
  then show "conns w (fst (low_fresh w)) = None" by (simp add: low_fresh_def)
qed

lemma first_event: "take (Suc 0) ((replicate 16 x)[0 := y]) = [y]"
  by (simp add: numeral_eq_Suc)

lemma event_data_5: "data_set_fd 5 (data_set_ptr 5 0) = 5"
  using data_survives_iff [of 5 5 0] by simp

lemma readable_mask:
  "kReadEvent AND 1 \<noteq> 0" "1 AND EPOLLHUP = 0" "1 AND EPOLLERR = 0"
  "1 AND (EPOLLIN OR EPOLLPRI) \<noteq> 0" "1 AND EPOLLOUT = 0"
  by (simp_all add: epoll_masks kReadEvent_def)

lemmas eval_kernel = emit_def demo_os_def ready_os_def interest_def sys_socket_def sys_setsockopt_def
  sys_bind_def sys_listen_def sys_accept_def sys_getsockname_def sys_epoll_ctl_def sys_epoll_wait_def

lemmas eval_channel = Channel_interest_def Channel_update_def Channel_ctor_def get_channel_def
  put_channel_def set_interest.simps set_index_def set_revents_def tie_def handleEvent_def
  handleEventWithGuard_def dispatch_if_def on_close_def on_error_def on_read_def on_write_def
  readable_mask

lemmas eval_loop = EventLoop_updateChannel_def EPollPoller_updateChannel_def EPollPoller_update_def
  registration_def kNew_def kAdded_def kDeleted_def put_loop_def isInLoopThread_def runInLoop_def
  small_loop_def server_round_def loop_body_def upd_loop_def poll_step_def EPollPoller_poll_def
  fillActiveChannels_def std_copy_in_def handle_active_def doPendingFunctors_def
  kInitEventListSize_def first_event event_data_5

lemmas eval_start = TcpServer_ctor_def toIpPort_eq Acceptor_ctor_def createNonblocking_def
  bindAddress_def setReusePort_def setReuseAddr_def base_sworld_def TcpServer_start_def pool_start_def
  setThreadNum_def pool_setThreadNum_def EventLoopThreadPool_ctor_def setConnectionCallback_def
  setMessageCalback_def upd_server_def server_listen_def Acceptor_listen_def Socket_listen_def
  setNewConnectionCallback_def

lemmas eval_accept = take_turn_def accept_handleRead_def Socket_accept_def newConnection_def
  getNextLoop_def int_max_def local_addr_def TcpConnection_ctor_def setKeepAlive_def upd_conn_def
  put_conn_def set_callbacks_def connectEstablished_def setState_def call_user_def get_conn_def
  low_fresh_def

abbreviation local_8000 :: sockaddr_in where
  "local_8000 \<equiv> InetAddress_ctor (\<lambda>s. 16777343) 8000 ''127.0.0.1''"

section \<open>Properties\<close>

text \<open>
  C9 (a new connection). With a fresh object, channel and descriptor, \<open>newConnection\<close> gives the
  connection a name that is not in the map, registers it there, moves the pool on, and keeps the
  server's invariant. If this thread runs the connection's loop, the connection is connected and
  watched for input when the user's connection callback is called, with which the operation ends;
  otherwise the establishing is queued in the loop, and nothing else happens.
\<close>

theorem newConnection_outcome:
  fixes w :: "'a sworld_scheme"
  assumes "server_inv w" and "conns w c = None" and "chans w p = None"
    and "ts_nextConnId (server w) \<noteq> int_max"
    and "l = turn (ts_threadPool (server w)) 0" and "loops w l = Some L" and "loop_inv os l w"
    and "\<forall>q d. chans w q = Some d \<longrightarrow> ch_loop d = l \<longrightarrow> ch_fd d \<noteq> fd" and "el_wakeupFd L \<noteq> fd"
  shows "\<exists>v C. made_connection (server w) p fd peer C \<and>
    ts_connections (server w) (tc_name C) = None \<and> server v = server_with c (server w) \<and>
    server_inv v \<and> calls v = calls w \<and> conns v = (conns w)(c \<mapsto> C) \<and>
    (if el_threadId L = cur_tid w
     then tc_state C = kConnected \<and> loop_watched l v p = Some kReadEvent \<and>
       newConnection user os c p fd peer w =
         call_user user os (ts_connectionCallback (server w)) (OnConnection c) v
     else tc_state C = kConnecting \<and> newConnection user os c p fd peer w = Inr v \<and>
       loops v l = Some (L\<lparr>el_pendingFunctors := el_pendingFunctors L @ [F_connectEstablished c]\<rparr>))"
  by (rule newConnection_ok [OF assms])

theorem newConnection_outcome_witness:
  "\<exists>w' C. newConnection (\<lambda>f cl w. []) demo_os 8 32 10 (InetAddress_ctor (\<lambda>s. 1) 80 ''10.0.0.1'')
       (demo_sworld 1) = Inr w' \<and> conns w' 8 = Some C \<and> tc_state C = kConnected \<and>
     calls w' = [OnConnection 8] \<and> ts_connections (server w') (conn_name demo_server 2) = Some 8"
proof -
  let ?peer = "InetAddress_ctor (\<lambda>s. 1) 80 ''10.0.0.1''"
  have "\<forall>q d. chans (demo_sworld 1) q = Some d \<longrightarrow> ch_loop d = 0 \<longrightarrow> ch_fd d \<noteq> 10" by auto
  from newConnection_outcome [OF demo_server_inv _ _ _ _ _ demo_sworld_loop_inv [OF demo_os_epoll_ctl]
      this, of 8 32 small_loop ?peer "\<lambda>f cl w. []"]
  obtain v C where v: "made_connection demo_server 32 10 ?peer C"
      "server v = server_with 8 demo_server" "calls v = []" "conns v 8 = Some C"
      "tc_state C = kConnected"
      "newConnection (\<lambda>f cl w. []) demo_os 8 32 10 ?peer (demo_sworld 1) =
        call_user (\<lambda>f cl w. []) demo_os (Some 0) (OnConnection 8) v"
    by (auto simp: int_max_def)
  then show ?thesis by (simp add: call_user_def server_with_def)
qed

text \<open>
  A closed connection. When a connection of the server is closed in the server's own thread
  and the user's callback returns, the user was told exactly once, the connection is disconnected,
  its name is erased and no other, the invariant holds, and its destruction is the last functor of
  its loop.
\<close>

theorem close_outcome:
  fixes w :: "'a sworld_scheme"
  assumes "server_inv w" and "conns w c = Some C"
    and "tc_closeCallback C = Some TcpServer_removeConnection"
    and "call_user user os (tc_connectionCallback C) (OnConnection c)
      (put_conn c (setState kDisconnected C) w) = Inr v"
    and "loops w (ts_loop (server w)) = Some L" and "el_threadId L = cur_tid w"
    and "loops w (tc_loop C) = Some K"
  shows "\<exists>w' D K' fs. handleClose user (run_close os) os c w = Inr w' \<and> server_inv w' \<and>
    conns w' c = Some D \<and> tc_state D = kDisconnected \<and> calls w' = calls w @ [OnConnection c] \<and>
    ts_connections (server w') = (ts_connections (server w))(tc_name C := None) \<and>
    loops w' (tc_loop C) = Some K' \<and>
    el_pendingFunctors K' = el_pendingFunctors K @ fs @ [F_connectDistroyed c]"
  by (rule handleClose_own_loop [OF assms])

theorem close_outcome_witness:
  "\<exists>w'. handleClose (\<lambda>f cl w. []) (run_close demo_os) demo_os 7 (demo_sworld 1) = Inr w' \<and>
     calls w' = [OnConnection 7] \<and> ts_connections (server w') = Map.empty"
proof -
  let ?w = "put_conn 7 (setState kDisconnected named_conn) (demo_sworld 1)"
  have told: "call_user (\<lambda>f cl w. []) demo_os (tc_connectionCallback named_conn) (OnConnection 7) ?w =
      Inr (?w\<lparr>calls := [OnConnection 7]\<rparr>)"
    by (simp add: call_user_def)
  have C: "conns (demo_sworld 1) 7 = Some named_conn"
    and l: "loops (demo_sworld 1) (ts_loop (server (demo_sworld 1))) = Some small_loop"
      "el_threadId (small_loop :: pending_functor event_loop) = cur_tid (demo_sworld 1)"
      "loops (demo_sworld 1) (tc_loop named_conn) = Some small_loop"
    by simp_all
  from close_outcome [OF demo_server_inv C named_conn_simps(6) told l] obtain w' where
      "handleClose (\<lambda>f cl w. []) (run_close demo_os) demo_os 7 (demo_sworld 1) = Inr w'"
      "calls w' = calls (demo_sworld 1) @ [OnConnection 7]"
      "ts_connections (server w') =
        (ts_connections (server (demo_sworld 1)))(tc_name named_conn := None)"
    by blast
  then show ?thesis by simp
qed

text \<open>
  Destruction. \<open>connectDistroyed\<close> of a connection that is no longer connected, in
  agreement with its poller, succeeds: the poller stops watching its channel and no other, poller
  and kernel stay in agreement, and no callback of the user is called.
\<close>

theorem destroy_outcome:
  fixes w :: "'a sworld_scheme"
  assumes "conns w c = Some C" and "tc_state C \<noteq> kConnected"
    and "chans w (tc_channel C) = Some ch" and "ch_loop ch = tc_loop C"
    and "loop_inv os (tc_loop C) w"
  shows "\<exists>w'. connectDistroyed user os c w = Inr w' \<and> loop_inv os (tc_loop C) w' \<and>
    loop_watched (tc_loop C) w' = (loop_watched (tc_loop C) w)(tc_channel C := None) \<and>
    conns w' = conns w \<and> calls w' = calls w \<and> server w' = server w"
  by (rule connectDistroyed_closed [OF assms])

theorem destroy_outcome_witness:
  "\<exists>w w'. enableReading demo_os 16 (put_conn 7 (setState kDisconnected named_conn) (demo_sworld 1)) = Inr w \<and>
     loop_watched 0 w 16 = Some kReadEvent \<and>
     connectDistroyed (\<lambda>f cl w. []) demo_os 7 w = Inr w' \<and> loop_watched 0 w' 16 = None"
proof -
  let ?w = "put_conn 7 (setState kDisconnected named_conn) (demo_sworld 1)"
  have inv: "loop_inv demo_os 0 ?w" using demo_sworld_loop_inv [OF demo_os_epoll_ctl] by simp
  have "16 \<in> loop_owned 0 ?w" by (simp add: loop_owned_def)
  from reg.change_law [OF inv this, of EnableReading] obtain w where
      w: "enableReading demo_os 16 ?w = Inr w" "loop_inv demo_os 0 w"
        "(loop_mask w, loop_watched 0 w) =
          spec_step (Change EnableReading 16) (loop_mask ?w, loop_watched 0 ?w)"
    by blast
  from w(1) obtain j where
      ch: "chans w 16 = Some (set_index j (set_interest EnableReading demo_channel))"
    and frame: "ctl_frame ?w w"
    by (rule Channel_interest_frame) auto
  have "conns w = conns ?w" using ctl_frame_server [OF frame] by simp
  then have C: "conns w 7 = Some (setState kDisconnected named_conn)" by simp
  have "loop_mask ?w 16 = 0" by (simp add: loop_mask_def demo_channel_def Channel_ctor_def)
  then have "loop_watched 0 w 16 = Some kReadEvent"
    using w(3) by (simp add: kReadEvent_def kNoneEvent_def epoll_masks)
  with w(1,2) C ch destroy_outcome [of w 7 "setState kDisconnected named_conn" _ demo_os "\<lambda>f cl w. []"]
  show ?thesis by auto
qed

text \<open>What the invariant says of the map.\<close>

lemma map_of_good:
  fixes w :: "'a sworld_scheme"
  assumes inv: "server_inv w"
  shows "let S = server w in
    (\<forall>nm c. ts_connections S nm = Some c \<longrightarrow> (\<exists>C k. conns w c = Some C \<and> tc_name C = nm \<and>
       nm = conn_name S k \<and> 1 \<le> k \<and> k < ts_nextConnId S)) \<and>
    (\<forall>a b c. ts_connections S a = Some c \<longrightarrow> ts_connections S b = Some c \<longrightarrow> a = b) \<and>
    ts_connections S (conn_name S (ts_nextConnId S)) = None"
proof -
  from inv have entry: "\<exists>C k. conns w c = Some C \<and> tc_name C = nm \<and> nm = conn_name (server w) k \<and>
      1 \<le> k \<and> k < ts_nextConnId (server w)" if "ts_connections (server w) nm = Some c" for nm c
    using that unfolding server_inv_def by blast
  then have "a = b" if "ts_connections (server w) a = Some c" "ts_connections (server w) b = Some c"
    for a b c
    using that by (metis option.inject)
  with entry next_name_free [OF inv] show ?thesis unfolding Let_def by blast
qed

text \<open>The same after whole rounds: nothing but the special case of schedules that end each round.\<close>

theorem server_map_sound:
  fixes w :: "'a sworld_scheme"
  assumes "gives_fresh fresh" and "init_keeps init" and "finite (dom (conns w))"
    and "TcpServer_ctor os (Some l) addr name reuseport p w = Inr v"
    and "run (TcpServer_start init use_poll os supply # map (take_turn user os fresh len) ls)
      (setMessageCalback mc (setConnectionCallback cc (setThreadNum n v))) = Inr w'"
  shows "let S = server w' in
    (\<forall>nm c. ts_connections S nm = Some c \<longrightarrow> (\<exists>C k. conns w' c = Some C \<and> tc_name C = nm \<and>
       nm = conn_name S k \<and> 1 \<le> k \<and> k < ts_nextConnId S)) \<and>
    (\<forall>a b c. ts_connections S a = Some c \<longrightarrow> ts_connections S b = Some c \<longrightarrow> a = b) \<and>
    ts_connections S (conn_name S (ts_nextConnId S)) = None"
  using server_runs_good [OF assms] by (intro map_of_good) (simp add: server_good_def)

text \<open>The server starts, one round accepts one connection, and the user is told.\<close>

theorem server_map_sound_witness:
  "\<exists>v w'. TcpServer_ctor (ready_os 5 1) (Some 0) local_8000 ''echo'' False 5 base_sworld = Inr v \<and>
     run (TcpServer_start (\<lambda>l w. Inr w) False (ready_os 5 1) (\<lambda>j. (0, 0, 0)) #
         map (take_turn (\<lambda>f cl w. []) (ready_os 5 1) low_fresh 16) [0])
       (setMessageCalback 1 (setConnectionCallback 0 (setThreadNum 0 v))) = Inr w' \<and>
     calls w' = [OnConnection 8] \<and> conns w' 8 \<noteq> None \<and>
     ts_connections (server w') (conn_name (server w') (ts_nextConnId (server w'))) = None"
proof -
  have keeps: "init_keeps (\<lambda>l w. Inr (w :: sworld))" by (simp add: init_keeps_def)
  have fin: "finite (dom (conns base_sworld))" by (simp add: base_sworld_def)
  obtain v w' where
      v: "TcpServer_ctor (ready_os 5 1) (Some 0) local_8000 ''echo'' False 5 base_sworld = Inr v" and
      w': "run (TcpServer_start (\<lambda>l w. Inr w) False (ready_os 5 1) (\<lambda>j. (0, 0, 0)) #
          map (take_turn (\<lambda>f cl w. []) (ready_os 5 1) low_fresh 16) [0])
        (setMessageCalback 1 (setConnectionCallback 0 (setThreadNum 0 v))) = Inr w'"
        "calls w' = [OnConnection 8]" "conns w' 8 \<noteq> None"
    by (simp add: eval_kernel eval_channel eval_loop eval_start eval_accept Let_def)
  with server_map_sound [OF low_fresh_fresh keeps fin v w'(1)] show ?thesis
    by (auto simp: Let_def)
qed

text \<open>What a close does while another thread runs the server's loop, for a user that only watches.\<close>

lemma handleClose_other_loop:
  fixes w :: "'a sworld_scheme"
  assumes C: "conns w c = Some C" "tc_connectionCallback C = Some f"
      "tc_closeCallback C = Some TcpServer_removeConnection"
    and quiet: "\<forall>cl v. user f cl v = []"
    and L: "loops w (ts_loop (server w)) = Some L" "el_threadId L \<noteq> cur_tid w"
  shows "\<exists>w1. handleClose user (run_close os) os c w = Inr w1 \<and> chans w1 = chans w \<and>
    (\<forall>ep. interest (trace w1) ep = interest (trace w) ep) \<and> server w1 = server w \<and>
    cur_tid w1 = cur_tid w \<and> conns w1 = (conns w)(c \<mapsto> setState kDisconnected C) \<and>
    calls w1 = calls w @ [OnConnection c] \<and> loops w1 = (loops w)(ts_loop (server w) \<mapsto>
      L\<lparr>el_pendingFunctors := el_pendingFunctors L @ [F_removeConnectionInLoop c]\<rparr>)"
proof -
  let ?v = "(put_conn c (setState kDisconnected C) w)\<lparr>calls := calls w @ [OnConnection c]\<rparr>"
  have told: "call_user user os (tc_connectionCallback C) (OnConnection c)
      (put_conn c (setState kDisconnected C) w) = Inr ?v"
    using C(2) quiet by (simp add: call_user_def)
  from handleClose_told [OF C(1,3) told, of "run_close os"]
  have eq: "handleClose user (run_close os) os c w = removeConnection os c ?v" by auto
  have L': "loops ?v (ts_loop (server w)) = Some L" using L by simp
  then obtain w1 where w1: "queueInLoop os (ts_loop (server w)) (F_removeConnectionInLoop c) ?v = Inr w1"
    by (auto intro: queue_total [of ?v "ts_loop (server w)" L os "F_removeConnectionInLoop c" os])
  have "removeConnection os c ?v = Inr w1"
    using w1 L L' by (simp add: removeConnection_def runInLoop_def isInLoopThread_def)
  moreover have "interest (trace w1) ep = interest (trace w) ep" for ep
    using w1 by (rule queueInLoop_frame) (simp add: is_wake_interest)
  ultimately show ?thesis
    using eq queueInLoop_server [OF w1] L' by (intro exI [of _ w1]) auto
qed

text \<open>
  C30 (a connection can close twice). When another thread runs the server's loop, closing leaves
  the channel and the kernel's interest list as they are, so that the hang-up is reported again
  before the removal has run; the second report closes once more: the user's connection callback is
  called twice for one closed connection, and two removals are queued.
\<close>

theorem close_repeats:
  fixes w :: "'a sworld_scheme"
  assumes "conns w c = Some C" and "tc_connectionCallback C = Some f"
    and "tc_closeCallback C = Some TcpServer_removeConnection"
    and "\<forall>cl v. user f cl v = []"
    and "loops w (ts_loop (server w)) = Some L" and "el_threadId L \<noteq> cur_tid w"
  shows "\<exists>w1 w2. handleClose user (run_close os) os c w = Inr w1 \<and> chans w1 = chans w \<and>
    (\<forall>ep. interest (trace w1) ep = interest (trace w) ep) \<and>
    handleClose user (run_close os) os c w1 = Inr w2 \<and>
    calls w2 = calls w @ [OnConnection c, OnConnection c] \<and>
    loops w2 (ts_loop (server w)) = Some (L\<lparr>el_pendingFunctors := el_pendingFunctors L @
      [F_removeConnectionInLoop c, F_removeConnectionInLoop c]\<rparr>)"
proof -
  from handleClose_other_loop [where user = user and os = os, OF assms] obtain w1 where
      w1: "handleClose user (run_close os) os c w = Inr w1" "chans w1 = chans w"
        "\<forall>ep. interest (trace w1) ep = interest (trace w) ep" "server w1 = server w"
        "cur_tid w1 = cur_tid w" "conns w1 c = Some (setState kDisconnected C)"
        "calls w1 = calls w @ [OnConnection c]" "loops w1 (ts_loop (server w)) =
          Some (L\<lparr>el_pendingFunctors := el_pendingFunctors L @ [F_removeConnectionInLoop c]\<rparr>)"
    by auto
  from handleClose_other_loop [where user = user and os = os and f = f, OF w1(6), of
      "L\<lparr>el_pendingFunctors := el_pendingFunctors L @ [F_removeConnectionInLoop c]\<rparr>"] w1 assms
  obtain w2 where "handleClose user (run_close os) os c w1 = Inr w2"
      "calls w2 = calls w1 @ [OnConnection c]"
      "loops w2 (ts_loop (server w)) = Some (L\<lparr>el_pendingFunctors := el_pendingFunctors L @
        [F_removeConnectionInLoop c, F_removeConnectionInLoop c]\<rparr>)"
    by auto
  with w1 show ?thesis by (intro exI [of _ w1] exI [of _ w2]) simp
qed

theorem close_repeats_witness:
  "\<exists>w1 w2. handleClose (\<lambda>f cl w. []) (run_close demo_os) demo_os 7 (demo_sworld 2) = Inr w1 \<and>
     handleClose (\<lambda>f cl w. []) (run_close demo_os) demo_os 7 w1 = Inr w2 \<and>
     calls w2 = [OnConnection 7, OnConnection 7]"
  using close_repeats [of "demo_sworld 2" 7 named_conn 0 "\<lambda>f cl w. []" small_loop demo_os]
  by auto

text \<open>
  Starting again does nothing. After a successful first \<open>start\<close>, further calls only count,
  as long as the 32-bit counter does not wrap to zero: no thread is made, no system call.
\<close>

theorem start_once:
  fixes w :: "'a sworld_scheme"
  assumes "init_keeps init" and "TcpServer_start init use_poll os supply w = Inr w'"
    and "ts_started (server w) = 0" and "n < 2 ^ 32 - 1"
  shows "run (replicate n (TcpServer_start init use_poll os supply)) w' =
    Inr (upd_server (\<lambda>S. S\<lparr>ts_started := of_nat (Suc n)\<rparr>) w')"
proof -
  have "run (replicate n (TcpServer_start init use_poll os supply)) v =
      Inr (upd_server (\<lambda>S. S\<lparr>ts_started := of_nat (k + n)\<rparr>) v)"
    if "ts_started (server v) = of_nat k" "0 < k" "k + n < 2 ^ 32" for v :: "'a sworld_scheme" and k n
    using that
  proof (induction n arbitrary: v k)
    case 0
    then show ?case by (simp add: upd_server_def)
  next
    case (Suc n)
    have "unat (of_nat k :: 32 word) = k" using Suc.prems(3) by (simp add: unat_of_nat)
    with Suc.prems have "ts_started (server v) \<noteq> 0" by (metis unat_0 less_irrefl)
    moreover have "run (replicate n (TcpServer_start init use_poll os supply))
        (upd_server (\<lambda>S. S\<lparr>ts_started := ts_started S + 1\<rparr>) v) =
        Inr (upd_server (\<lambda>S. S\<lparr>ts_started := of_nat (Suc k + n)\<rparr>)
          (upd_server (\<lambda>S. S\<lparr>ts_started := ts_started S + 1\<rparr>) v))"
      by (rule Suc.IH) (use Suc.prems in simp_all)
    ultimately show ?case by (simp add: start_again upd_server_def)
  qed
  from this [of w' 1 n] start_counts [OF assms(1-3)] assms(4) show ?thesis by simp
qed

theorem start_once_witness:
  "\<exists>v w'. TcpServer_ctor demo_os (Some 0) local_8000 ''echo'' False 5 base_sworld = Inr v \<and>
     TcpServer_start (\<lambda>l w. Inr w) False demo_os (\<lambda>j. (0, 0, 0)) v = Inr w' \<and>
     run (replicate 3 (TcpServer_start (\<lambda>l w. Inr w) False demo_os (\<lambda>j. (0, 0, 0)))) w' =
       Inr (upd_server (\<lambda>S. S\<lparr>ts_started := 4\<rparr>) w')"
proof -
  have keeps: "init_keeps (\<lambda>l w. Inr (w :: sworld))" by (simp add: init_keeps_def)
  obtain v w' where v: "TcpServer_ctor demo_os (Some 0) local_8000 ''echo'' False 5 base_sworld = Inr v"
      "ts_started (server v) = 0" and
      w': "TcpServer_start (\<lambda>l w. Inr w) False demo_os (\<lambda>j. (0, 0, 0)) v = Inr w'"
    by (simp add: eval_kernel eval_channel eval_loop eval_start Let_def)
  with start_once [OF keeps w' v(2), of 3] show ?thesis by simp
qed

end
