(* ===== verification/ConnectionLifetime.thy ===== *)
theory ConnectionLifetime
  imports ServerLifecycle
begin

text \<open>
  The end of a connection across components: the close in the handler of one round and the
  destruction by the functors of that round (\<open>TcpConnection.cc\<close> \<open>handleClose\<close> and
  \<open>connectDistroyed\<close>, \<open>TcpServer.cc\<close> \<open>removeConnection\<close>, \<open>EventLoop.cc\<close>
  \<open>doPendingFunctors\<close>), on a server whose connections live in its own loop.
\<close>

section \<open>What does not touch the registry\<close>

definition same_registry :: "loop_id \<Rightarrow> 'a sworld_scheme \<Rightarrow> 'a sworld_scheme \<Rightarrow> bool" where
  "same_registry l w w' \<longleftrightarrow> chans w' = chans w \<and> loop_poller l w' = loop_poller l w \<and>
     (\<forall>ep. interest (trace w') ep = interest (trace w) ep)"

lemma same_registry_keeps:
  assumes "same_registry l w w'"
  shows "loop_inv os l w' = loop_inv os l w" and "loop_watched l w' = loop_watched l w"
proof -
  from assms have same: "chans w' = chans w" "loop_poller l w' = loop_poller l w"
      "\<And>ep. interest (trace w') ep = interest (trace w) ep"
    by (simp_all add: same_registry_def)
  show "loop_inv os l w' = loop_inv os l w" by (rule loop_inv_cong [OF same])
  show "loop_watched l w' = loop_watched l w"
    by (rule ext) (simp add: loop_watched_def same split: option.split)
qed

lemma same_registry_trans: "same_registry l w v \<Longrightarrow> same_registry l v u \<Longrightarrow> same_registry l w u"
  by (simp add: same_registry_def)

lemma same_registry_queue:
  assumes "queueInLoop os k f (w :: 'a sworld_scheme) = Inr w'"
  shows "same_registry l w w'"
  using assms
  by (rule queueInLoop_frame)
    (auto simp: same_registry_def is_wake_interest loop_poller_def put_loop_def)

lemma same_registry_put_loop:
  "loops w l = Some L \<Longrightarrow> el_poller L' = el_poller L \<Longrightarrow> same_registry l w (put_loop l L' w)"
  by (simp add: same_registry_def loop_poller_def)

section \<open>Closing in one's own loop\<close>

lemma quiet_close:
  fixes w :: "'a sworld_scheme"
  assumes C: "conns w c = Some C" "tc_connectionCallback C = Some f"
      "tc_closeCallback C = Some TcpServer_removeConnection" "tc_loop C = ts_loop (server w)"
    and quiet: "\<forall>cl v. user f cl v = []"
    and L: "loops w (tc_loop C) = Some L" "el_threadId L = cur_tid w"
  shows "\<exists>w1. handleClose user (run_close os) os c w = Inr w1 \<and> same_registry (tc_loop C) w w1 \<and>
    conns w1 = (conns w)(c \<mapsto> setState kDisconnected C) \<and> calls w1 = calls w @ [OnConnection c] \<and>
    server w1 = (server w)\<lparr>ts_connections := (ts_connections (server w))(tc_name C := None)\<rparr> \<and>
    loops w1 = (loops w)(tc_loop C \<mapsto>
      L\<lparr>el_pendingFunctors := el_pendingFunctors L @ [F_connectDistroyed c]\<rparr>)"
proof -
  let ?v = "(put_conn c (setState kDisconnected C) w)\<lparr>calls := calls w @ [OnConnection c]\<rparr>"
  let ?u = "upd_server (\<lambda>S. S\<lparr>ts_connections := (ts_connections S)(tc_name C := None)\<rparr>) ?v"
  have told: "call_user user os (tc_connectionCallback C) (OnConnection c)
      (put_conn c (setState kDisconnected C) w) = Inr ?v"
    using C(2) quiet by (simp add: call_user_def)
  from handleClose_told [OF C(1,3) told, of "run_close os"]
  have eq: "handleClose user (run_close os) os c w = removeConnection os c ?v" by auto
  obtain w1 where w1: "queueInLoop os (tc_loop C) (F_connectDistroyed c) ?u = Inr w1"
    using L by (auto intro: queue_total [of ?u "tc_loop C" L os "F_connectDistroyed c" os])
  then have "removeConnection os c ?v = Inr w1"
    using C L by (simp add: removeConnection_def runInLoop_def isInLoopThread_def
        removeConnectionInLoop_def Let_def)
  moreover have "same_registry (tc_loop C) w ?u"
    by (simp add: same_registry_def loop_poller_def)
  then have "same_registry (tc_loop C) w w1"
    by (rule same_registry_trans [OF _ same_registry_queue [OF w1]])
  moreover note queueInLoop_server [OF w1]
  ultimately show ?thesis using eq L by (intro exI [of _ w1]) (auto simp: put_conn_def)
qed

text \<open>A round of functors with one functor queued is that functor, with the calling flag set.\<close>

lemma round_of_one:
  assumes "loops w l = Some L" and "el_pendingFunctors L = [f]"
    and "exec f (put_loop l (L\<lparr>el_callingPendingFunctors := True, el_pendingFunctors := []\<rparr>) w) = Inr v"
    and "loops v l = Some K"
  shows "doPendingFunctors exec l w = Inr (put_loop l (K\<lparr>el_callingPendingFunctors := False\<rparr>) v)"
  using assms by (simp add: doPendingFunctors_def Let_def put_loop_def)

text \<open>The functors of a round that destroy one closed connection.\<close>

lemma destroy_round:
  fixes w :: "'a sworld_scheme"
  assumes C: "conns w c = Some C" "tc_state C \<noteq> kConnected"
    and ch: "chans w (tc_channel C) = Some ch" "ch_loop ch = tc_loop C"
    and inv: "loop_inv os (tc_loop C) w"
    and L: "loops w (tc_loop C) = Some L" "el_pendingFunctors L = [F_connectDistroyed c]"
  shows "\<exists>w'. doPendingFunctors (exec_functor user os) (tc_loop C) w = Inr w' \<and>
    loop_inv os (tc_loop C) w' \<and>
    loop_watched (tc_loop C) w' = (loop_watched (tc_loop C) w)(tc_channel C := None) \<and>
    conns w' = conns w \<and> calls w' = calls w \<and> server w' = server w"
proof -
  let ?L = "L\<lparr>el_callingPendingFunctors := True, el_pendingFunctors := []\<rparr>"
  let ?w = "put_loop (tc_loop C) ?L w"
  have same: "same_registry (tc_loop C) w ?w" by (rule same_registry_put_loop [OF L(1)]) simp
  have "conns ?w c = Some C" "chans ?w (tc_channel C) = Some ch" "loop_inv os (tc_loop C) ?w"
    using C ch inv same_registry_keeps(1) [OF same] by (simp_all add: put_loop_def)
  from connectDistroyed_closed [OF this(1) C(2) this(2) ch(2) this(3), of user] obtain v where
      v: "connectDistroyed user os c ?w = Inr v" "loop_inv os (tc_loop C) v"
        "loop_watched (tc_loop C) v = (loop_watched (tc_loop C) ?w)(tc_channel C := None)"
        "conns v = conns ?w" "calls v = calls ?w" "server v = server ?w"
    by blast
  from v(2) obtain K where K: "loops v (tc_loop C) = Some K"
    by (auto simp: loop_inv_def loop_poller_Some)
  let ?w' = "put_loop (tc_loop C) (K\<lparr>el_callingPendingFunctors := False\<rparr>) v"
  have "doPendingFunctors (exec_functor user os) (tc_loop C) w = Inr ?w'"
    by (rule round_of_one [OF L _ K]) (use v(1) in simp)
  moreover have "same_registry (tc_loop C) v ?w'" by (rule same_registry_put_loop [OF K]) simp
  ultimately show ?thesis
    using v same_registry_keeps [OF same] same_registry_keeps [of "tc_loop C" v ?w']
    by (intro exI [of _ ?w']) (simp add: put_loop_def)
qed

section \<open>Properties\<close>

text \<open>
  C26 (a closed connection leaves). For a connection that lives in the loop of its server, in that
  loop's own thread, with nothing else queued and a
  user that only watches, the close of a connection and the next round of functors leave: the user
  told exactly once, the connection disconnected, its name free, its channel out of the poller and
  the kernel's list and no other channel touched, poller and kernel in agreement, and the server's
  invariant.
\<close>

theorem closed_connection_leaves:
  fixes w :: "'a sworld_scheme"
  assumes "server_inv w" and "conns w c = Some C" and "tc_connectionCallback C = Some f"
    and "tc_closeCallback C = Some TcpServer_removeConnection" and "tc_loop C = ts_loop (server w)"
    and "\<forall>cl v. user f cl v = []" and "loops w (tc_loop C) = Some L" and "el_threadId L = cur_tid w"
    and "el_pendingFunctors L = []" and "chans w (tc_channel C) = Some ch" and "ch_loop ch = tc_loop C"
    and "loop_inv os (tc_loop C) w"
  shows "\<exists>w1 w2. handleClose user (run_close os) os c w = Inr w1 \<and>
    doPendingFunctors (exec_functor user os) (tc_loop C) w1 = Inr w2 \<and>
    calls w2 = calls w @ [OnConnection c] \<and> conns w2 = (conns w)(c \<mapsto> setState kDisconnected C) \<and>
    ts_connections (server w2) = (ts_connections (server w))(tc_name C := None) \<and>
    loop_watched (tc_loop C) w2 = (loop_watched (tc_loop C) w)(tc_channel C := None) \<and>
    loop_inv os (tc_loop C) w2 \<and> server_inv w2"
proof -
  from quiet_close [where user = user and os = os, OF assms(2-8)] obtain w1 where
      w1: "handleClose user (run_close os) os c w = Inr w1" "same_registry (tc_loop C) w w1"
        "conns w1 = (conns w)(c \<mapsto> setState kDisconnected C)" "calls w1 = calls w @ [OnConnection c]"
        "server w1 = (server w)\<lparr>ts_connections := (ts_connections (server w))(tc_name C := None)\<rparr>"
        "loops w1 = (loops w)(tc_loop C \<mapsto>
          L\<lparr>el_pendingFunctors := el_pendingFunctors L @ [F_connectDistroyed c]\<rparr>)"
    by blast
  note registry = same_registry_keeps [OF w1(2)]
  let ?C = "setState kDisconnected C"
  have "conns w1 c = Some ?C" "tc_state ?C \<noteq> kConnected" "chans w1 (tc_channel ?C) = Some ch"
      "ch_loop ch = tc_loop ?C" "loop_inv os (tc_loop ?C) w1"
    using w1(2,3) assms(10-12) registry(1) by (simp_all add: same_registry_def)
  from destroy_round [OF this, of _ user] w1(6) assms(9) obtain w2 where
      w2: "doPendingFunctors (exec_functor user os) (tc_loop C) w1 = Inr w2"
        "loop_inv os (tc_loop C) w2" "conns w2 = conns w1" "calls w2 = calls w1" "server w2 = server w1"
        "loop_watched (tc_loop C) w2 = (loop_watched (tc_loop C) w1)(tc_channel C := None)"
    by auto
  have "server_inv (put_conn c ?C w)"
    by (rule server_inv_frame [OF assms(1)]) (use assms(2) in \<open>auto simp: setState_def\<close>)
  then have "server_inv w2"
    by (rule server_inv_erase [where name = "tc_name C"]) (simp_all add: w1 w2 put_conn_def)
  with w1 w2 registry show ?thesis by auto
qed

theorem closed_connection_leaves_witness:
  "\<exists>w1 w2. handleClose (\<lambda>f cl w. []) (run_close demo_os) demo_os 7 (demo_sworld 1) = Inr w1 \<and>
     doPendingFunctors (exec_functor (\<lambda>f cl w. []) demo_os) 0 w1 = Inr w2 \<and>
     calls w2 = [OnConnection 7] \<and> ts_connections (server w2) = Map.empty \<and> loop_watched 0 w2 16 = None"
  using closed_connection_leaves [OF demo_server_inv [of 1], of 7 named_conn 0 "\<lambda>f cl w. []"
      small_loop demo_channel demo_os] demo_sworld_loop_inv [OF demo_os_epoll_ctl, of 1]
  by auto

end
