(* ===== verification/ServerTeardown.thy ===== *)
theory ServerTeardown
  imports ConnectionLifetime
begin

text \<open>
  The end of a server (\<open>TcpServer.cc\<close>, \<open>~TcpServer\<close>, with \<open>connectDistroyed\<close> and
  \<open>~Acceptor\<close>) in the thread of its loop, when all its connections live in that loop: what each
  step of the destructor does, and what the whole of it leaves.
\<close>

section \<open>One connection\<close>

definition in_own_thread :: "loop_id \<Rightarrow> ('f, 'a) lworld_scheme \<Rightarrow> bool" where
  "in_own_thread l w \<longleftrightarrow> (\<exists>L. loops w l = Some L \<and> el_threadId L = cur_tid w)"

lemma in_own_thread_ctl:
  fixes w :: "'a cworld_scheme"
  assumes "ctl_frame w v" and "in_own_thread l w"
  shows "in_own_thread l v"
proof -
  from frame_ctl [OF assms(1)] assms(2) show ?thesis
    by (auto simp: in_own_thread_def same_loop_def user_frame_def dest!: user_frame_loop [OF frame_ctl [OF assms(1)]])
qed

text \<open>A connection after its destruction: only one that was connected changes its state.\<close>

definition ended :: "tcp_connection \<Rightarrow> tcp_connection" where
  "ended C = (if tc_state C = kConnected then setState kDisconnected C else C)"

definition farewell :: "conn_id \<Rightarrow> tcp_connection \<Rightarrow> call list" where
  "farewell c C = (if tc_state C = kConnected then [OnConnection c] else [])"

lemma drop_watched:
  fixes w :: "'a sworld_scheme"
  assumes inv: "loop_inv os l w" and own: "p \<in> loop_owned l w" "in_own_thread l w"
  obtains v where "Channel_remove os p w = Inr v" and "loop_inv os l v" and "loop_owned l v = loop_owned l w"
    and "loop_watched l v = (loop_watched l w)(p := None)" and "in_own_thread l v"
    and "conns v = conns w" and "calls v = calls w" and "server v = server w"
proof -
  from reg.remove_law [OF inv own(1)] obtain v where v: "Channel_remove os p w = Inr v" "loop_inv os l v"
      "loop_owned l v = loop_owned l w"
      "(loop_mask v, loop_watched l v) = spec_step (Drop p) (loop_mask w, loop_watched l w)"
    by blast
  from v(1) have "ctl_frame w v" by (rule Channel_remove_frame)
  with ctl_frame_server [OF this] in_own_thread_ctl [OF this own(2)] v show ?thesis by (intro that [of v]) simp_all
qed

lemma hush_watched:
  fixes w :: "'a sworld_scheme"
  assumes inv: "loop_inv os l w" and own: "p \<in> loop_owned l w" "in_own_thread l w"
  obtains v k where "disableAll os p w = Inr v" and "loop_inv os l v" and "loop_owned l v = loop_owned l w"
    and "loop_watched l v = (loop_watched l w)(p := k)" and "in_own_thread l v"
    and "conns v = conns w" and "calls v = calls w" and "server v = server w"
proof -
  from reg.change_law [OF inv own(1), of DisableAll] obtain v where
      v: "disableAll os p w = Inr v" "loop_inv os l v" "loop_owned l v = loop_owned l w"
        "(loop_mask v, loop_watched l v) = spec_step (Change DisableAll p) (loop_mask w, loop_watched l w)"
    by blast
  from v(4) obtain k where "loop_watched l v = (loop_watched l w)(p := k)" by (auto simp: Let_def)
  moreover from v(1) have "ctl_frame w v" by (rule Channel_interest_frame)
  with ctl_frame_server [OF this] in_own_thread_ctl [OF this own(2)] v(1-3) calculation show ?thesis
    by (intro that [of v k]) simp_all
qed

lemma connectDistroyed_ends:
  fixes w :: "'a sworld_scheme"
  assumes C: "conns w c = Some C" "tc_loop C = l" "tc_connectionCallback C = Some f"
    and quiet: "\<forall>g cl v. user g cl v = []" and inv: "loop_inv os l w"
    and own: "tc_channel C \<in> loop_owned l w" "in_own_thread l w"
  shows "\<exists>w'. connectDistroyed user os c w = Inr w' \<and> loop_inv os l w' \<and> loop_owned l w' = loop_owned l w \<and>
    loop_watched l w' = (loop_watched l w)(tc_channel C := None) \<and> in_own_thread l w' \<and>
    conns w' = (conns w)(c \<mapsto> ended C) \<and> calls w' = calls w @ farewell c C \<and> server w' = server w"
proof (cases "tc_state C = kConnected")
  case False
  from drop_watched [OF inv own] obtain v where "Channel_remove os (tc_channel C) w = Inr v"
    and "loop_inv os l v" and "loop_owned l v = loop_owned l w"
    and "loop_watched l v = (loop_watched l w)(tc_channel C := None)" and "in_own_thread l v"
    and "conns v = conns w" and "calls v = calls w" and "server v = server w" .
  with False C show ?thesis
    by (auto simp: connectDistroyed_def ended_def farewell_def)
next
  case True
  let ?w = "put_conn c (setState kDisconnected C) w"
  have same: "same_registry l w ?w" by (simp add: same_registry_def loop_poller_def)
  have w: "loop_inv os l ?w" "tc_channel C \<in> loop_owned l ?w" "in_own_thread l ?w"
    using inv own same_registry_keeps(1) [OF same] by (simp_all add: loop_owned_def in_own_thread_def)
  from hush_watched [OF w] obtain v k where v: "disableAll os (tc_channel C) ?w = Inr v" "loop_inv os l v"
    "loop_owned l v = loop_owned l ?w" "loop_watched l v = (loop_watched l ?w)(tc_channel C := k)"
    "in_own_thread l v" "conns v = conns ?w" "calls v = calls ?w" "server v = server ?w" .
  let ?v = "v\<lparr>calls := calls v @ [OnConnection c]\<rparr>"
  have same': "same_registry l v ?v" by (simp add: same_registry_def loop_poller_def)
  have u: "loop_inv os l ?v" "tc_channel C \<in> loop_owned l ?v" "in_own_thread l ?v"
    using v w(2) same_registry_keeps(1) [OF same'] by (simp_all add: loop_owned_def in_own_thread_def)
  from drop_watched [OF u] obtain x where x: "Channel_remove os (tc_channel C) ?v = Inr x" "loop_inv os l x"
    "loop_owned l x = loop_owned l ?v" "loop_watched l x = (loop_watched l ?v)(tc_channel C := None)"
    "in_own_thread l x" "conns x = conns ?v" "calls x = calls ?v" "server x = server ?v" .
  have "connectDistroyed user os c w = Inr x"
    using C True v(1) x(1) quiet by (simp add: connectDistroyed_def call_user_def)
  moreover have "loop_owned l x = loop_owned l w" using x(3) v(3) by (simp add: loop_owned_def)
  ultimately show ?thesis
    using x v True same_registry_keeps(2) [OF same] same_registry_keeps(2) [OF same']
    by (intro exI [of _ x]) (simp add: ended_def farewell_def)
qed

section \<open>All connections\<close>

text \<open>Objects the destructor finds: a connection of the loop with a live channel and a callback.\<close>

definition dismissable :: "loop_id \<Rightarrow> 'a sworld_scheme \<Rightarrow> conn_id \<Rightarrow> bool" where
  "dismissable l w c \<longleftrightarrow> (\<exists>C. conns w c = Some C \<and> tc_loop C = l \<and> tc_channel C \<in> loop_owned l w \<and>
     tc_connectionCallback C \<noteq> None)"

definition up :: "'a sworld_scheme \<Rightarrow> conn_id \<Rightarrow> bool" where
  "up w c \<longleftrightarrow> (case conns w c of None \<Rightarrow> False | Some C \<Rightarrow> tc_state C = kConnected)"

definition farewells :: "'a sworld_scheme \<Rightarrow> conn_id list \<Rightarrow> call list" where
  "farewells w cs = map OnConnection (filter (up w) cs)"

definition channels_of :: "'a sworld_scheme \<Rightarrow> conn_id list \<Rightarrow> ptr set" where
  "channels_of w cs = {p. \<exists>c C. c \<in> set cs \<and> conns w c = Some C \<and> tc_channel C = p}"

definition names_of :: "'a sworld_scheme \<Rightarrow> conn_id list \<Rightarrow> string set" where
  "names_of w cs = {n. \<exists>c C. c \<in> set cs \<and> conns w c = Some C \<and> tc_name C = n}"

lemma ended_simps [simp]:
  "tc_loop (ended C) = tc_loop C" "tc_channel (ended C) = tc_channel C"
  "tc_connectionCallback (ended C) = tc_connectionCallback C" "tc_state (ended C) \<noteq> kConnected"
  by (simp_all add: ended_def setState_def)

lemma dismiss_ok:
  fixes w :: "'a sworld_scheme"
  assumes c: "dismissable l w c" and quiet: "\<forall>g cl v. user g cl v = []"
    and inv: "loop_inv os l w" and own: "in_own_thread l w"
  obtains w' C where "dismiss user os c w = Inr w'" and "loop_inv os l w'" and "loop_owned l w' = loop_owned l w"
    and "conns w c = Some C" and "loop_watched l w' = (loop_watched l w)(tc_channel C := None)"
    and "in_own_thread l w'" and "conns w' = (conns w)(c \<mapsto> ended C)" and "calls w' = calls w @ farewell c C"
    and "server w' = (server w)\<lparr>ts_connections := (ts_connections (server w))(tc_name C := None)\<rparr>"
proof -
  from c obtain C f where C: "conns w c = Some C" "tc_loop C = l" "tc_channel C \<in> loop_owned l w"
      "tc_connectionCallback C = Some f"
    by (auto simp: dismissable_def)
  let ?w = "upd_server (\<lambda>S. S\<lparr>ts_connections := (ts_connections S)(tc_name C := None)\<rparr>) w"
  have same: "same_registry l w ?w" by (simp add: same_registry_def loop_poller_def)
  have w: "loop_inv os l ?w" "tc_channel C \<in> loop_owned l ?w" "in_own_thread l ?w"
    using inv own C(3) same_registry_keeps(1) [OF same] by (simp_all add: loop_owned_def in_own_thread_def)
  from connectDistroyed_ends [of ?w c C l f user os] C w quiet obtain x where
      x: "connectDistroyed user os c ?w = Inr x" "loop_inv os l x" "loop_owned l x = loop_owned l ?w"
        "loop_watched l x = (loop_watched l ?w)(tc_channel C := None)" "in_own_thread l x"
        "conns x = (conns ?w)(c \<mapsto> ended C)" "calls x = calls ?w @ farewell c C" "server x = server ?w"
    by auto
  have "dismiss user os c w = Inr x"
    using C(1,2) x(1) own
    by (auto simp: dismiss_def runInLoop_def in_own_thread_def isInLoopThread_def)
  moreover have "loop_owned l x = loop_owned l w" using x(3) by (simp add: loop_owned_def)
  ultimately show ?thesis
    using x C(1) same_registry_keeps(2) [OF same] by (intro that [of x C]) simp_all
qed

lemma dismiss_all:
  fixes w :: "'a sworld_scheme"
  assumes quiet: "\<forall>g cl v. user g cl v = []"
  shows "distinct cs \<Longrightarrow> \<forall>c \<in> set cs. dismissable l w c \<Longrightarrow> loop_inv os l w \<Longrightarrow> in_own_thread l w \<Longrightarrow>
    \<exists>w'. run (map (dismiss user os) cs) w = Inr w' \<and> loop_inv os l w' \<and> loop_owned l w' = loop_owned l w \<and>
      in_own_thread l w' \<and> calls w' = calls w @ farewells w cs \<and>
      conns w' = (\<lambda>c. if c \<in> set cs then map_option ended (conns w c) else conns w c) \<and>
      loop_watched l w' = (\<lambda>p. if p \<in> channels_of w cs then None else loop_watched l w p) \<and>
      ts_threadPool (server w') = ts_threadPool (server w) \<and> ts_acceptor (server w') = ts_acceptor (server w) \<and>
      ts_connections (server w') = ts_connections (server w) |` (- names_of w cs)"
proof (induction cs arbitrary: w)
  case Nil
  then show ?case by (simp add: farewells_def channels_of_def names_of_def)
next
  case (Cons c cs)
  have c: "dismissable l w c" using Cons.prems(2) by simp
  from dismiss_ok [OF c quiet Cons.prems(3,4)] obtain v C where
      v: "dismiss user os c w = Inr v" "loop_inv os l v" "loop_owned l v = loop_owned l w"
        "conns w c = Some C" "loop_watched l v = (loop_watched l w)(tc_channel C := None)"
        "in_own_thread l v" "conns v = (conns w)(c \<mapsto> ended C)" "calls v = calls w @ farewell c C"
        "server v = (server w)\<lparr>ts_connections := (ts_connections (server w))(tc_name C := None)\<rparr>" .
  have "\<forall>d \<in> set cs. dismissable l v d"
    using Cons.prems(1,2) v(3,7) by (auto simp: dismissable_def)
  from Cons.IH [OF _ this v(2,6)] Cons.prems(1) obtain x where
      x: "run (map (dismiss user os) cs) v = Inr x" "loop_inv os l x" "loop_owned l x = loop_owned l v"
        "in_own_thread l x" "calls x = calls v @ farewells v cs"
        "conns x = (\<lambda>d. if d \<in> set cs then map_option ended (conns v d) else conns v d)"
        "loop_watched l x = (\<lambda>p. if p \<in> channels_of v cs then None else loop_watched l v p)"
        "ts_threadPool (server x) = ts_threadPool (server v)" "ts_acceptor (server x) = ts_acceptor (server v)"
        "ts_connections (server x) = ts_connections (server v) |` (- names_of v cs)"
    by auto
  have rest: "conns v d = conns w d" if "d \<in> set cs" for d
    using that Cons.prems(1) v(7) by auto
  have "farewells v cs = farewells w cs"
    unfolding farewells_def by (rule arg_cong [of _ _ "map OnConnection"]) (simp add: up_def rest cong: filter_cong)
  then have "calls x = calls w @ farewells w (c # cs)"
    using x(5) v(4,8) by (simp add: farewells_def farewell_def up_def)
  moreover have "channels_of w (c # cs) = insert (tc_channel C) (channels_of v cs)"
    using v(4) rest by (auto simp: channels_of_def)
  then have "loop_watched l x = (\<lambda>p. if p \<in> channels_of w (c # cs) then None else loop_watched l w p)"
    using x(7) v(5) by auto
  moreover have "names_of w (c # cs) = insert (tc_name C) (names_of v cs)"
    using v(4) rest by (auto simp: names_of_def)
  then have "ts_connections (server x) = ts_connections (server w) |` (- names_of w (c # cs))"
    using x(10) v(9) by (auto simp: fun_eq_iff restrict_map_def)
  moreover have "conns x = (\<lambda>d. if d \<in> set (c # cs) then map_option ended (conns w d) else conns w d)"
    using x(6) v(4,7) Cons.prems(1) by (auto simp: fun_eq_iff)
  ultimately show ?case using v x by simp
qed

section \<open>The whole destructor\<close>

lemma watched_after_close:
  fixes w :: "'a sworld_scheme"
  shows "loop_watched l (Socket_dtor fd (w\<lparr>chans := (chans w)(p := None)\<rparr>)) q \<in> {None, loop_watched l w q}"
  by (auto simp: loop_watched_def Socket_dtor_def sys_close_def loop_poller_def interest_snoc
      split: option.split)

lemma Acceptor_dtor_ok:
  fixes w :: "'a sworld_scheme"
  assumes inv: "loop_inv os l w" and own: "ac_channel A \<in> loop_owned l w" "in_own_thread l w"
  obtains w' where "Acceptor_dtor os A w = Inr w'" and "conns w' = conns w" and "calls w' = calls w"
    and "server w' = server w"
    and "chans w' (ac_channel A) = None" and "last (trace w') = EvClose (ac_socket A)"
    and "\<And>q. loop_watched l w' q \<in> {None, loop_watched l w q}" and "loop_watched l w' (ac_channel A) = None"
proof -
  let ?p = "ac_channel A"
  from hush_watched [OF inv own] obtain v k where v: "disableAll os ?p w = Inr v" "loop_inv os l v"
    "loop_owned l v = loop_owned l w" "loop_watched l v = (loop_watched l w)(?p := k)"
    "in_own_thread l v" "conns v = conns w" "calls v = calls w" "server v = server w" .
  have "?p \<in> loop_owned l v" using v(3) own(1) by simp
  from drop_watched [OF v(2) this v(5)] obtain x where x: "Channel_remove os ?p v = Inr x" "loop_inv os l x"
    "loop_owned l x = loop_owned l v" "loop_watched l x = (loop_watched l v)(?p := None)"
    "in_own_thread l x" "conns x = conns v" "calls x = calls v" "server x = server v" .
  let ?x = "Socket_dtor (ac_socket A) (x\<lparr>chans := (chans x)(?p := None)\<rparr>)"
  have "Acceptor_dtor os A w = Inr ?x" using v(1) x(1) by (simp add: Acceptor_dtor_def)
  moreover have "loop_watched l ?x q \<in> {None, loop_watched l w q}" "loop_watched l ?x ?p = None" for q
    using watched_after_close [of l "ac_socket A" x ?p q] watched_after_close [of l "ac_socket A" x ?p ?p]
      v(4) x(4)
    by (auto split: if_split_asm)
  ultimately show ?thesis
    using v x by (intro that [of ?x]) (simp_all add: Socket_dtor_def sys_close_def)
qed

lemma map_items_all:
  assumes inv: "server_inv w" and keys: "lists_keys (order m) m" and m: "m = ts_connections (server w)"
  shows "distinct (map_items order m)" and "set (map_items order m) = ran m"
    and "names_of w (map_items order m) = dom m"
proof -
  have entry: "\<exists>C. conns w c = Some C \<and> tc_name C = n" if "m n = Some c" for n c
    using inv that unfolding server_inv_def m by blast
  have "inj_on m (dom m)"
  proof (rule inj_onI)
    fix n k
    assume "n \<in> dom m" "k \<in> dom m" "m n = m k"
    then obtain c where "m n = Some c" "m k = Some c" by auto
    from entry [OF this(1)] entry [OF this(2)] show "n = k" by auto
  qed
  moreover have items: "map Some (map_items order m) = map m (order m)"
  proof -
    have "map Some (List.map_filter m ns) = map m ns" if "set ns \<subseteq> dom m" for ns
      using that by (induction ns) (auto simp: map_filter_simps)
    with keys show ?thesis by (simp add: map_items_def lists_keys_def)
  qed
  ultimately have "distinct (map Some (map_items order m))"
    using keys by (simp add: lists_keys_def distinct_map)
  then show "distinct (map_items order m)" by (simp add: distinct_map)
  have "Some ` set (map_items order m) = m ` dom m"
    using arg_cong [OF items, of set] keys by (simp add: lists_keys_def)
  then show ran: "set (map_items order m) = ran m" by (auto simp: ran_def image_iff set_eq_iff dom_def) (metis option.inject)+
  show "names_of w (map_items order m) = dom m"
    using entry by (fastforce simp: names_of_def ran ran_def dom_def)
qed

text \<open>
  C11 (the end of a server). In the thread of its loop, with every connection of its map living in
  that loop, no threads of its own and a user that makes no calls when told, the destructor succeeds,
  in whatever order the hash map lists its keys: of the connections in the map exactly those that
  were connected are disconnected and told to the user, once each and in that order; the map is
  empty; neither they nor the acceptor are watched any more, nothing else is watched that was not
  before; and the last thing done is to close the listening socket.
\<close>

theorem server_teardown:
  fixes w :: "'a sworld_scheme"
  defines "m \<equiv> ts_connections (server w)" and "A \<equiv> ts_acceptor (server w)"
  assumes "\<forall>g cl v. user g cl v = []" and "lists_keys (order m) m" and "server_inv w"
    and "\<forall>c \<in> ran m. dismissable l w c"
    and "loop_inv os l w" and "in_own_thread l w" and "tp_threads (ts_threadPool (server w)) = []"
    and "ac_channel A \<in> loop_owned l w"
  shows "\<exists>w' told. TcpServer_dtor user os order w = Inr w' \<and> calls w' = calls w @ map OnConnection told \<and>
    distinct told \<and> set told = {c \<in> ran m. up w c} \<and> told = filter (up w) (map_items order m) \<and>
    conns w' = (\<lambda>c. if c \<in> ran m then map_option ended (conns w c) else conns w c) \<and>
    ts_connections (server w') = Map.empty \<and>
    (\<forall>p \<in> insert (ac_channel A) {tc_channel C | c C. c \<in> ran m \<and> conns w c = Some C}. loop_watched l w' p = None) \<and>
    (\<forall>p. loop_watched l w' p \<in> {None, loop_watched l w p}) \<and>
    last (trace w') = EvClose (ac_socket A)"
proof -
  let ?cs = "map_items order m"
  note items = map_items_all [of w order m, OF assms(5,4) m_def [THEN meta_eq_to_obj_eq]]
  from assms(6) items(2) have "\<forall>c \<in> set ?cs. dismissable l w c" by simp
  from dismiss_all [OF assms(3) items(1) this assms(7,8)] obtain v where
      v: "run (map (dismiss user os) ?cs) w = Inr v" "loop_inv os l v" "loop_owned l v = loop_owned l w"
        "in_own_thread l v" "calls v = calls w @ farewells w ?cs"
        "conns v = (\<lambda>c. if c \<in> set ?cs then map_option ended (conns w c) else conns w c)"
        "loop_watched l v = (\<lambda>p. if p \<in> channels_of w ?cs then None else loop_watched l w p)"
        "ts_threadPool (server v) = ts_threadPool (server w)" "ts_acceptor (server v) = A"
        "ts_connections (server v) = ts_connections (server w) |` (- names_of w ?cs)"
    unfolding A_def by blast
  have "ac_channel A \<in> loop_owned l v" using v(3) assms(10) by simp
  from Acceptor_dtor_ok [OF v(2) this v(4)] obtain w' where
      w': "Acceptor_dtor os A v = Inr w'" "conns w' = conns v" "calls w' = calls v" "server w' = server v"
        "chans w' (ac_channel A) = None" "last (trace w') = EvClose (ac_socket A)"
        "\<And>q. loop_watched l w' q \<in> {None, loop_watched l v q}" "loop_watched l w' (ac_channel A) = None"
    by blast
  have "TcpServer_dtor user os order w = Inr w'"
    using v(1,8,9) w'(1) assms(9) by (simp add: TcpServer_dtor_def m_def)
  moreover have "loop_watched l w' p = None" if "p \<in> channels_of w ?cs" for p
    using w'(7) [of p] v(7) that by auto
  then have "\<forall>p \<in> insert (ac_channel A) {tc_channel C | c C. c \<in> ran m \<and> conns w c = Some C}. loop_watched l w' p = None"
    using w'(8) items(2) by (auto simp: channels_of_def)
  moreover have "loop_watched l w' p \<in> {None, loop_watched l w p}" for p
    using w'(7) [of p] v(7) by (auto split: if_split_asm)
  moreover have "ts_connections (server w') = Map.empty"
    using w'(4) v(10) items(3) by (auto simp: m_def fun_eq_iff restrict_map_def)
  ultimately show ?thesis
    using v(5,6) w'(2,3,6) items(1,2) by (auto simp: farewells_def)
qed

text \<open>The demonstration server, with a listening channel, ends with its one connection.\<close>

definition listening_sworld :: sworld where
  "listening_sworld = put_channel 24 (setReadCallback Acceptor_handleRead (Channel_ctor 0 5)) (demo_sworld 1)"

theorem server_teardown_witness:
  "\<exists>w'. TcpServer_dtor (\<lambda>g cl v. []) demo_os (\<lambda>m. [conn_name demo_server 1]) listening_sworld = Inr w' \<and> calls w' = [OnConnection 7] \<and>
     last (trace w') = EvClose 5"
proof -
  have inv: "loop_inv demo_os 0 listening_sworld"
    unfolding listening_sworld_def
    by (rule loop_inv_new_channel [OF demo_sworld_loop_inv [OF demo_os_epoll_ctl]])
      (simp_all add: Channel_ctor_def demo_channel_def kNew_def)
  have w: "conns listening_sworld = [7 \<mapsto> named_conn]" "loops listening_sworld = [0 \<mapsto> small_loop]"
      "cur_tid listening_sworld = 1" "server listening_sworld = demo_server" "calls listening_sworld = []"
      "chans listening_sworld = [16 \<mapsto> demo_channel,
        24 \<mapsto> setReadCallback Acceptor_handleRead (Channel_ctor 0 5)]"
    by (simp_all add: listening_sworld_def)
  have own: "16 \<in> loop_owned 0 listening_sworld" "24 \<in> loop_owned 0 listening_sworld"
    by (simp_all add: loop_owned_def w) (simp add: Channel_ctor_def)
  have A: "ts_acceptor demo_server = \<lparr>ac_loop = 0, ac_socket = 5, ac_channel = 24,
      ac_newConnectionCallback = True, ac_listening = True\<rparr>"
    by (simp add: demo_server_def)
  have "\<forall>c \<in> ran [conn_name demo_server 1 \<mapsto> 7]. dismissable 0 listening_sworld c"
      "in_own_thread 0 listening_sworld"
    using own by (simp_all add: dismissable_def in_own_thread_def w small_loop_def)
  moreover have "server_inv listening_sworld"
    by (rule server_inv_frame [OF demo_server_inv [of 1]]) (simp_all add: listening_sworld_def)
  moreover have "lists_keys [conn_name demo_server 1] [conn_name demo_server 1 \<mapsto> 7]" by (simp add: lists_keys_def)
  ultimately show ?thesis
    using server_teardown [of "\<lambda>g cl v. []" "\<lambda>m. [conn_name demo_server 1]" listening_sworld 0 demo_os] inv own
    by (simp add: w A EventLoopThreadPool_ctor_def map_items_def map_filter_simps up_def cong: conj_cong) blast
qed

end
