(* ===== verification/WellTyped.thy ===== *)
theory WellTyped
  imports ServerLifecycle
begin

text \<open>
  What holds of every object of the library at every moment, and one walk through all operations
  that shows it. A channel's index is one of the poller's three and its mask holds known events; a
  connection's buffers are in bounds, its channel is there, has its descriptor and loop, and calls
  back that connection. \<open>store_frame\<close> says what all operations but the making of objects do to
  the stores; the locale \<open>turn_invariant\<close> lifts any property that respects it, and the making
  of a connection, to whole rounds; \<open>round_invariant\<close>, which respects the making of loops and of
  the listening channel too, to runs of a server from its constructor on.
\<close>

unbundle bit_operations_syntax

section \<open>Well-typed stores\<close>

definition chan_typed :: "channel \<Rightarrow> bool" where
  "chan_typed ch \<longleftrightarrow>
     ch_index ch \<in> {kNew, kAdded, kDeleted} \<and> ch_events ch AND NOT (kReadEvent OR kWriteEvent) = 0"

definition calls_back :: "conn_id \<Rightarrow> channel \<Rightarrow> bool" where
  "calls_back c ch \<longleftrightarrow>
     ch_readCallback ch = Some (TcpConnection_handleRead c) \<and>
     ch_writeCallback ch = Some (TcpConnection_handleWrite c) \<and>
     ch_closeCallback ch = Some (TcpConnection_handleClose c) \<and>
     ch_errorCallback ch = Some (TcpConnection_handleError c)"

definition conn_typed :: "'a chworld_scheme \<Rightarrow> conn_id \<Rightarrow> tcp_connection \<Rightarrow> bool" where
  "conn_typed w c C \<longleftrightarrow>
     buffer_inv (tc_inputBuffer C) \<and> buffer_inv (tc_outputBuffer C) \<and>
     (\<exists>ch. chans w (tc_channel C) = Some ch \<and> ch_fd ch = tc_socket C \<and> ch_loop ch = tc_loop C \<and>
        calls_back c ch)"

definition store_typed :: "'a cworld_scheme \<Rightarrow> bool" where
  "store_typed w \<longleftrightarrow>
     (\<forall>p ch. chans w p = Some ch \<longrightarrow> chan_typed ch) \<and>
     (\<forall>c C. conns w c = Some C \<longrightarrow> conn_typed w c C)"

lemma chan_typed_ctor [simp]: "chan_typed (Channel_ctor l fd)"
  by (simp add: chan_typed_def Channel_ctor_def kNew_def)

lemma chan_typed_callbacks [simp]:
  "chan_typed (ch\<lparr>ch_readCallback := f\<rparr>) = chan_typed ch"
  "chan_typed (ch\<lparr>ch_writeCallback := f\<rparr>) = chan_typed ch"
  "chan_typed (ch\<lparr>ch_closeCallback := f\<rparr>) = chan_typed ch"
  "chan_typed (ch\<lparr>ch_errorCallback := f\<rparr>) = chan_typed ch"
  "chan_typed (set_revents r ch) = chan_typed ch" "chan_typed (tie c ch) = chan_typed ch"
  by (simp_all add: chan_typed_def set_revents_def tie_def)

lemma chan_typed_interest: "chan_typed ch \<Longrightarrow> chan_typed (set_interest i ch)"
  by (cases i) (simp_all add: chan_typed_def set_interest.simps kNoneEvent_def bit_eq_iff bit_and_iff
      bit_or_iff bit_not_iff, blast+)

section \<open>What the operations do to the stores\<close>

definition conn_step :: "tcp_connection \<Rightarrow> tcp_connection \<Rightarrow> bool" where
  "conn_step C C' \<longleftrightarrow>
     tc_loop C' = tc_loop C \<and> tc_socket C' = tc_socket C \<and> tc_channel C' = tc_channel C \<and>
     (buffer_inv (tc_inputBuffer C) \<longrightarrow> buffer_inv (tc_inputBuffer C')) \<and>
     (buffer_inv (tc_outputBuffer C) \<longrightarrow> buffer_inv (tc_outputBuffer C'))"

definition chan_step :: "channel \<Rightarrow> channel \<Rightarrow> bool" where
  "chan_step ch ch' \<longleftrightarrow>
     ch_fd ch' = ch_fd ch \<and> ch_loop ch' = ch_loop ch \<and>
     (\<forall>c. calls_back c ch \<longrightarrow> calls_back c ch') \<and>
     (chan_typed ch \<longrightarrow> chan_typed ch')"

definition loop_step :: "'f event_loop \<Rightarrow> 'f event_loop \<Rightarrow> bool" where
  "loop_step L L' \<longleftrightarrow>
     el_quit L' = el_quit L \<and> el_threadId L' = el_threadId L \<and> el_wakeupFd L' = el_wakeupFd L"

definition store_frame :: "'a cworld_scheme \<Rightarrow> 'a cworld_scheme \<Rightarrow> bool" where
  "store_frame w v \<longleftrightarrow>
     (\<forall>c. rel_option conn_step (conns w c) (conns v c)) \<and>
     (\<forall>p. rel_option chan_step (chans w p) (chans v p)) \<and>
     (\<forall>l. rel_option loop_step (loops w l) (loops v l))"

lemma step_refl [simp]: "conn_step C C" "chan_step ch ch" "loop_step L L"
  by (simp_all add: conn_step_def chan_step_def loop_step_def)

lemma step_trans:
  "conn_step A B \<Longrightarrow> conn_step B C \<Longrightarrow> conn_step A C"
  "chan_step a b \<Longrightarrow> chan_step b c \<Longrightarrow> chan_step a c"
  "loop_step K L \<Longrightarrow> loop_step L M \<Longrightarrow> loop_step K M"
  by (simp_all add: conn_step_def chan_step_def loop_step_def)

lemma store_frame_refl [simp]: "store_frame w w"
  by (simp add: store_frame_def option.rel_refl)

lemma store_frame_trans: "store_frame w v \<Longrightarrow> store_frame v u \<Longrightarrow> store_frame w u"
  unfolding store_frame_def
  by (auto intro: rel_option_trans_with [where R = conn_step] rel_option_trans_with [where R = chan_step]
      rel_option_trans_with [where R = loop_step] step_trans)

lemma store_frame_same:
  "conns v = conns w \<Longrightarrow> chans v = chans w \<Longrightarrow> loops v = loops w \<Longrightarrow> store_frame w v"
  by (simp add: store_frame_def option.rel_refl)

lemma store_frame_shift:
  "conns x = conns w \<Longrightarrow> chans x = chans w \<Longrightarrow> loops x = loops w \<Longrightarrow> store_frame x v = store_frame w v"
  "conns x = conns v \<Longrightarrow> chans x = chans v \<Longrightarrow> loops x = loops v \<Longrightarrow> store_frame w x = store_frame w v"
  by (simp_all add: store_frame_def)

lemma store_frame_conn: "conns w c = Some C \<Longrightarrow> conn_step C C' \<Longrightarrow> store_frame w (put_conn c C' w)"
  by (simp add: store_frame_def option.rel_refl)

lemma store_frame_chan: "chans w p = Some ch \<Longrightarrow> chan_step ch ch' \<Longrightarrow> store_frame w (put_channel p ch' w)"
  by (simp add: store_frame_def option.rel_refl put_channel_def)

lemma store_frame_loop: "loops w l = Some L \<Longrightarrow> loop_step L L' \<Longrightarrow> store_frame w (put_loop l L' w)"
  by (simp add: store_frame_def option.rel_refl put_loop_def)

lemma step_updates [simp]:
  "conn_step C (setState s C)" "chan_step ch (tie c ch)" "chan_step ch (set_revents r ch)"
  "loop_step L (L\<lparr>el_pendingFunctors := fs\<rparr>)" "loop_step L (L\<lparr>el_callingPendingFunctors := b\<rparr>)"
  "loop_step L (L\<lparr>el_activeChannels := ps\<rparr>)" "loop_step L (L\<lparr>el_looping := b\<rparr>)"
  "loop_step L (L\<lparr>el_poller := P, el_pollReturnTime := t, el_activeChannels := ps\<rparr>)"
  by (simp_all add: conn_step_def chan_step_def loop_step_def setState_def calls_back_def)
    (simp_all add: tie_def set_revents_def)

lemma step_buffers:
  "(buffer_inv (tc_inputBuffer C) \<Longrightarrow> buffer_inv b) \<Longrightarrow> conn_step C (C\<lparr>tc_inputBuffer := b\<rparr>)"
  "(buffer_inv (tc_outputBuffer C) \<Longrightarrow> buffer_inv b) \<Longrightarrow> conn_step C (C\<lparr>tc_outputBuffer := b\<rparr>)"
  by (simp_all add: conn_step_def)

text \<open>Changing interests gives a channel an index of the poller's, or leaves it the one it had.\<close>

lemma index_kept: "\<exists>i. ch = set_index i ch \<and> i \<in> {kNew, kAdded, kDeleted, ch_index ch}"
  by (rule exI [of _ "ch_index ch"]) (simp add: set_index_def)

lemma updateChannel_index:
  "EPollPoller_updateChannel os p P ch w = Inr (P', ch', w') \<Longrightarrow>
     \<exists>i. ch' = set_index i ch \<and> i \<in> {kNew, kAdded, kDeleted, ch_index ch}"
  using index_kept [of ch]
  by (auto simp: EPollPoller_updateChannel_def Let_def step_simps split: if_splits)

lemma removeChannel_index:
  "EPollPoller_removeChannel os p P ch w = Inr (P', ch', w') \<Longrightarrow>
     \<exists>i. ch' = set_index i ch \<and> i \<in> {kNew, kAdded, kDeleted, ch_index ch}"
  by (auto simp: EPollPoller_removeChannel_def Let_def step_simps split: if_splits)

lemma step_index:
  "i \<in> {kNew, kAdded, kDeleted, ch_index ch} \<Longrightarrow> chan_step ch (set_index i (set_interest j ch))"
  "i \<in> {kNew, kAdded, kDeleted, ch_index ch} \<Longrightarrow> chan_step ch (set_index i ch)"
  using chan_typed_interest [of ch j]
  by (auto simp: chan_step_def calls_back_def chan_typed_def set_index_def)

lemma updateChannel_store:
  assumes "EventLoop_updateChannel os l p w = Inr w'" and ch: "chans w p = Some ch"
  shows "\<exists>i \<in> {kNew, kAdded, kDeleted, ch_index ch}. chans w' = (chans w)(p \<mapsto> set_index i ch)"
proof -
  from assms obtain L P P' ch' v where "EPollPoller_updateChannel os p P ch w = Inr (P', ch', v)"
      and w': "w' = put_channel p ch' (put_loop l (L\<lparr>el_poller := Some P'\<rparr>) v)"
    by (auto simp: EventLoop_updateChannel_def step_simps split: option.splits)
  from updateChannel_frame [OF this(1)] updateChannel_index [OF this(1)] w' show ?thesis
    by (auto simp: put_channel_def put_loop_def)
qed

lemma removeChannel_store:
  assumes "EventLoop_removeChannel os l p w = Inr w'" and ch: "chans w p = Some ch"
  shows "\<exists>i \<in> {kNew, kAdded, kDeleted, ch_index ch}. chans w' = (chans w)(p \<mapsto> set_index i ch)"
proof -
  from assms obtain L P P' ch' v where "EPollPoller_removeChannel os p P ch w = Inr (P', ch', v)"
      and w': "w' = put_channel p ch' (put_loop l (L\<lparr>el_poller := Some P'\<rparr>) v)"
    by (auto simp: EventLoop_removeChannel_def step_simps split: option.splits)
  from removeChannel_frame [OF this(1)] removeChannel_index [OF this(1)] w' show ?thesis
    by (auto simp: put_channel_def put_loop_def)
qed

lemma loop_step_poller: "el_poller_update (\<lambda>_. None) L' = el_poller_update (\<lambda>_. None) L \<Longrightarrow> loop_step L L'"
  by (drule same_loop_poller) (simp add: same_loop_def loop_step_def)

lemma ctl_store_frame:
  fixes w :: "'a cworld_scheme"
  assumes frame: "ctl_frame w w'" and ch: "chans w p = Some ch" "chan_step ch ch'"
    and chans: "chans w' = (chans w)(p \<mapsto> ch')"
  shows "store_frame w w'"
proof -
  have "conns w' = conns w" using frame by (auto simp: ctl_frame_def intro: more_fields)
  moreover have "rel_option loop_step (loops w l) (loops w' l)" for l
  proof -
    have "map_option (el_poller_update (\<lambda>_. None)) (loops w' l) =
        map_option (el_poller_update (\<lambda>_. None)) (loops w l)"
      using frame by (simp add: ctl_frame_def)
    then show ?thesis
      by (cases "loops w l"; cases "loops w' l") (auto intro: loop_step_poller)
  qed
  ultimately show ?thesis using ch by (simp add: store_frame_def option.rel_refl chans)
qed

lemma store_frame_interest:
  fixes w :: "'a cworld_scheme"
  assumes run: "Channel_interest os i p w = Inr w'"
  shows "store_frame w w'"
proof -
  from run obtain ch where ch: "chans w p = Some ch"
    and upd: "EventLoop_updateChannel os (ch_loop ch) p (put_channel p (set_interest i ch) w) = Inr w'"
    by (auto simp: Channel_interest_def Channel_update_def step_simps)
  from updateChannel_store [OF upd, of "set_interest i ch"] obtain j where
      j: "j \<in> {kNew, kAdded, kDeleted, ch_index ch}"
        "chans w' = (chans w)(p \<mapsto> set_index j (set_interest i ch))"
    by auto
  from run have "ctl_frame w w'" by (rule Channel_interest_frame)
  then show ?thesis by (rule ctl_store_frame [OF _ ch step_index(1) [OF j(1)] j(2)])
qed

lemma store_frame_remove:
  fixes w :: "'a cworld_scheme"
  assumes run: "Channel_remove os p w = Inr w'"
  shows "store_frame w w'"
proof -
  from run obtain ch where ch: "chans w p = Some ch"
    and rem: "EventLoop_removeChannel os (ch_loop ch) p w = Inr w'"
    by (auto simp: Channel_remove_def step_simps)
  from removeChannel_store [OF rem ch] obtain j where
      j: "j \<in> {kNew, kAdded, kDeleted, ch_index ch}" "chans w' = (chans w)(p \<mapsto> set_index j ch)"
    by auto
  from run have "ctl_frame w w'" by (rule Channel_remove_frame)
  then show ?thesis by (rule ctl_store_frame [OF _ ch step_index(2) [OF j(1)] j(2)])
qed

lemma store_frame_queue:
  fixes w :: "'a cworld_scheme"
  assumes "queueInLoop os l f w = Inr w'"
  shows "store_frame w w'"
proof -
  from assms obtain L es where
      L: "loops w l = Some L"
        "w' = (put_loop l (L\<lparr>el_pendingFunctors := el_pendingFunctors L @ [f]\<rparr>) w)
          \<lparr>trace := trace w @ es\<rparr>"
    by (rule queueInLoop_frame)
  show ?thesis
    unfolding L(2)
    by (rule store_frame_shift(2) [THEN iffD2, OF _ _ _ store_frame_loop [OF L(1) step_updates(4)]]) simp_all
qed

lemma store_frame_runInLoop:
  fixes w :: "'a cworld_scheme"
  assumes "runInLoop exec os l f w = Inr w'" and "\<And>v. exec f w = Inr v \<Longrightarrow> store_frame w v"
  shows "store_frame w w'"
  using assms by (auto simp: runInLoop_def dest: store_frame_queue split: if_splits)

section \<open>Sending, shutting down and the handlers\<close>

lemma store_frame_plain [simp]:
  "store_frame w (emit e w)" "store_frame w (log_msg v w)" "store_frame w (w\<lparr>strings := s\<rparr>)"
  "store_frame w (w\<lparr>calls := k\<rparr>)" "store_frame w (w\<lparr>cur_tid := t\<rparr>)"
  "store_frame w (log_msg v (emit e w))" "store_frame w (shutdownWrite os fd w)"
  by (simp_all add: store_frame_same shutdownWrite_def sys_shutdown_def Let_def)

lemma store_frame_after [simp]:
  "store_frame (emit e w) v = store_frame w v" "store_frame (log_msg l w) v = store_frame w v"
  "store_frame (w\<lparr>strings := s\<rparr>) v = store_frame w v" "store_frame (w\<lparr>calls := k\<rparr>) v = store_frame w v"
  "store_frame (w\<lparr>cur_tid := t\<rparr>) v = store_frame w v"
  "store_frame w (emit e v) = store_frame w v" "store_frame w (log_msg l v) = store_frame w v"
  "store_frame w (v\<lparr>strings := s\<rparr>) = store_frame w v" "store_frame w (v\<lparr>cur_tid := t\<rparr>) = store_frame w v"
  by (simp_all add: store_frame_def)

lemma store_frame_notify: "notify_complete os c C w = Inr w' \<Longrightarrow> store_frame w w'"
  by (auto simp: notify_complete_def dest: store_frame_queue split: option.splits)

lemma store_frame_send_direct: "send_direct os c C fd d len w = Inr (n, r, f, w') \<Longrightarrow> store_frame w w'"
  by (auto simp: send_direct_def sys_write_def Let_def dest!: store_frame_notify
      split: sum.splits if_splits)

lemma store_frame_store_rest:
  assumes "store_rest os c C rest n w = Inr w'" and C: "conns w c = Some C"
  shows "store_frame w w'"
proof -
  from assms(1) obtain b where b: "append_buf rest n (tc_outputBuffer C) = Inr b"
    by (auto simp: store_rest_def)
  let ?w = "put_conn c (C\<lparr>tc_outputBuffer := b\<rparr>) w"
  have "store_frame w ?w"
    by (rule store_frame_conn [OF C step_buffers(2)]) (rule append_Inr(1) [OF _ b])
  moreover from assms(1) b have "w' = ?w \<or> enableWriting os (tc_channel C) ?w = Inr w'"
    by (auto simp: store_rest_def Let_def split: if_splits)
  ultimately show ?thesis by (auto intro: store_frame_trans store_frame_interest)
qed

lemma store_frame_high_water: "queue_high_water os c C n w = Inr w' \<Longrightarrow> store_frame w w'"
  by (auto simp: queue_high_water_def Let_def dest: store_frame_queue split: if_splits)

lemma store_frame_send_rest:
  assumes "send_rest os c rest n w = Inr w'"
  shows "store_frame w w'"
proof -
  from assms obtain C v where v: "conns w c = Some C" "queue_high_water os c C n w = Inr v"
      "store_rest os c C rest n v = Inr w'"
    by (auto simp: send_rest_def)
  have "conns v c = Some C" using frame_high_water [OF v(2)] v(1) by simp
  with store_frame_high_water [OF v(2)] store_frame_store_rest [OF v(3)] show ?thesis
    by (blast intro: store_frame_trans)
qed

lemma store_frame_sendInLoop:
  assumes "sendInLoop os c a n w = Inr w'"
  shows "store_frame w w'"
proof -
  have "store_frame w v" if "(if b then send_direct os c C fd d n w else Inr (0, n, False, w)) =
      Inr (k, r, f, v)" for b C fd d k r f v
    using that by (auto dest: store_frame_send_direct split: if_splits)
  moreover have "store_frame v w'" if "(if b then send_rest os c d r v else Inr v) = Inr w'" for b d r v
    using that by (auto dest: store_frame_send_rest split: if_splits)
  ultimately show ?thesis
    using assms by (fastforce simp: sendInLoop_def intro: store_frame_trans split: if_split_asm)
qed

lemma store_frame_shutdownInLoop: "shutdownInLoop os c w = Inr w' \<Longrightarrow> store_frame w w'"
  by (auto simp: shutdownInLoop_def split: if_splits)

lemma store_frame_send:
  assumes "send os c a w = Inr w'"
  shows "store_frame w w'"
proof -
  from assms obtain C where C: "conns w c = Some C"
    by (auto simp: send_def)
  show ?thesis
  proof (cases "tc_state C = kConnected")
    case False
    with assms C show ?thesis by (simp add: send_def)
  next
    case True
    with assms C obtain s L where sL: "strings w a = Some s" "loops w (tc_loop C) = Some L"
      by (auto simp: send_def split: option.splits)
    let ?n = "of_nat (length s)"
    from assms C True sL have "(if isInLoopThread L w then sendInLoop os c a ?n w
        else runInLoop (\<lambda>f. sendInLoop os c a ?n) os (tc_loop C) (F_sendInLoop c a ?n) w) = Inr w'"
      by (simp add: send_def)
    then show ?thesis
      by (split if_split_asm) (erule store_frame_sendInLoop,
          erule store_frame_runInLoop, erule store_frame_sendInLoop)
  qed
qed

lemma store_frame_state: "conns w c = Some C \<Longrightarrow> store_frame w (put_conn c (setState s C) w)"
  by (erule store_frame_conn) simp

lemma store_frame_shutdown:
  assumes "shutdown_conn os c w = Inr w'"
  shows "store_frame w w'"
proof -
  have rest: "store_frame v w'" if "runInLoop (\<lambda>f. shutdownInLoop os c) os l g v = Inr w'" for l g v
    using that by (rule store_frame_runInLoop) (rule store_frame_shutdownInLoop)
  from assms obtain C where "conns w c = Some C" "w' = w \<or> runInLoop (\<lambda>f. shutdownInLoop os c) os
      (tc_loop C) (F_shutdownInLoop c) (put_conn c (setState kDisconnecting C) w) = Inr w'"
    by (auto simp: shutdown_conn_def split: if_split_asm)
  then show ?thesis by (auto intro: store_frame_trans store_frame_state dest: rest)
qed

lemma retrieveAsString_inv:
  "retrieveAsString n b = Inr (s, b') \<Longrightarrow> buffer_inv b \<Longrightarrow> buffer_inv b'"
  "retrieveAllAsString b = Inr (s, b') \<Longrightarrow> buffer_inv b \<Longrightarrow> buffer_inv b'"
  by (auto simp: retrieveAsString_def retrieveAllAsString_def intro: retrieve_inv)

lemma store_frame_api:
  assumes "exec_api os a w = Inr w'"
  shows "store_frame w w'"
  using assms
  by (cases a)
    (auto simp: upd_conn_def conn_step_def dest!: store_frame_send store_frame_shutdown
      intro!: store_frame_conn step_buffers intro: retrieveAsString_inv)

lemma store_frame_call:
  assumes "call_user user os f cl w = Inr w'"
  shows "store_frame w w'"
proof -
  from assms obtain g where
      "run (map (exec_api os) (user g cl w)) (w\<lparr>calls := calls w @ [cl]\<rparr>) = Inr w'"
    by (auto simp: call_user_def split: option.splits)
  then have "store_frame (w\<lparr>calls := calls w @ [cl]\<rparr>) w'"
    by (rule run_invariant) (auto intro: store_frame_trans dest: store_frame_api)
  then show ?thesis by simp
qed

lemma store_frame_finish: "finish_shutdown os c w = Inr w' \<Longrightarrow> store_frame w w'"
  by (auto simp: finish_shutdown_def dest: store_frame_shutdownInLoop split: if_splits)

lemma store_frame_after_write:
  assumes "after_write os c C n w = Inr w'" and C: "conns w c = Some C"
  shows "store_frame w w'"
proof -
  let ?out = "retrieve (of_nat n) (tc_outputBuffer C)"
  let ?w = "put_conn c (C\<lparr>tc_outputBuffer := ?out\<rparr>) w"
  have first: "store_frame w ?w"
    by (rule store_frame_conn [OF C step_buffers(2)]) (rule retrieve_inv)
  have "store_frame ?w w'" if "disableWriting os (tc_channel C) ?w = Inr v"
      "notify_complete os c C v = Inr u" "finish_shutdown os c u = Inr w'" for v u
    using that by (blast intro: store_frame_trans store_frame_interest store_frame_notify
        store_frame_finish)
  with assms(1) first show ?thesis
    by (auto simp: after_write_def Let_def split: if_split_asm intro: store_frame_trans)
qed

lemma store_frame_handleWrite:
  assumes "handleWrite os c w = Inr w'"
  shows "store_frame w w'"
proof -
  have out: "\<exists>e. v = emit e w" if "writeFd os fd b w = Inr (n, v)" for fd b n v
    using that by (auto simp: writeFd_def sys_write_def Let_def)
  have "store_frame w w'" if "writeFd os fd (tc_outputBuffer C) w = Inr (n, v)" "conns w c = Some C"
      "(case n of Inl e \<Rightarrow> Inr (log_msg ERROR v)
        | Inr n \<Rightarrow> if 0 < n then after_write os c C n v else Inr (log_msg ERROR v)) = Inr w'"
    for fd C n v
  proof -
    from out [OF that(1)] obtain e where v: "v = emit e w" by blast
    then have C: "conns v c = Some C" using that(2) by simp
    from that(3) have "store_frame v w'"
      by (auto split: sum.split_asm if_split_asm intro: store_frame_after_write [OF _ C])
    with v show ?thesis by simp
  qed
  with assms show ?thesis by (auto simp: handleWrite_def split: if_split_asm)
qed

lemma store_frame_handleError: "handleError os c w = Inr w' \<Longrightarrow> store_frame w w'"
  by (auto simp: handleError_def sys_getsockopt_def Let_def)

lemma readFd_emits: "readFd os fd b w = Inr (n, b', v) \<Longrightarrow> \<exists>e. v = emit e w"
  by (auto simp: readFd_def sys_readv_def Let_def split: sum.splits if_splits)

lemma store_frame_input:
  assumes os: "readv_contract os" and C: "conns w c = Some C"
    and read: "readFd os fd (tc_inputBuffer C) w = Inr (n, b, v)"
  shows "store_frame w (put_conn c (C\<lparr>tc_inputBuffer := b\<rparr>) v)"
proof -
  from readFd_emits [OF read] obtain e where v: "v = emit e w" by blast
  have "store_frame v (put_conn c (C\<lparr>tc_inputBuffer := b\<rparr>) v)"
    by (rule store_frame_conn [OF _ step_buffers(1)]) (use C v readFd_Inr(1) [OF os _ read] in simp_all)
  with v show ?thesis by simp
qed

lemma store_frame_upd_loop:
  fixes w :: "'a cworld_scheme"
  shows "upd_loop l f w = Inr w' \<Longrightarrow> (\<And>L. loop_step L (f L)) \<Longrightarrow> store_frame w w'"
  by (auto simp: upd_loop_Inr intro: store_frame_loop)

lemma store_frame_poll:
  fixes w :: "'a cworld_scheme"
  assumes "poll_step os l w = Inr w'"
  shows "store_frame w w'"
proof -
  have fill: "store_frame u v" if "fill_entries es u = Inr (ps, v)" for es ps and u v :: "'a cworld_scheme"
    using that
  proof (induction es arbitrary: u ps)
    case Nil
    then show ?case by simp
  next
    case (Cons e es)
    then obtain ch qs where ch: "chans u (ee_data e) = Some ch"
        and rest: "fill_entries es (put_channel (ee_data e) (set_revents (ee_events e) ch) u) = Inr (qs, v)"
      by (auto simp: step_simps)
    show ?case
      by (rule store_frame_trans [OF store_frame_chan [OF ch step_updates(3)] Cons.IH [OF rest]])
  qed
  have wait: "store_frame w v" if "EPollPoller_poll os P w = Inr (now, P', ps, v)" for P now P' ps v
    using that by (auto simp: EPollPoller_poll_def sys_epoll_wait_def fillActiveChannels_def Let_def
        split: sum.splits if_split_asm dest!: fill)
  from assms show ?thesis
    by (auto simp: poll_step_def split: option.split_asm
        dest!: wait store_frame_upd_loop [OF _ step_updates(8)] intro: store_frame_trans)
qed

section \<open>The server's operations on the stores\<close>

lemma store_frame_server [simp]:
  fixes w :: "'a sworld_scheme"
  shows "store_frame w (upd_server f v) = store_frame w v" "store_frame (upd_server f w) v = store_frame w v"
  by (simp_all add: store_frame_def upd_server_def)

lemma store_frame_removeInLoop:
  fixes w :: "'a sworld_scheme"
  shows "removeConnectionInLoop os c w = Inr w' \<Longrightarrow> store_frame w w'"
  by (auto simp: removeConnectionInLoop_def Let_def dest!: store_frame_queue)

lemma store_frame_removeConnection:
  fixes w :: "'a sworld_scheme"
  assumes "removeConnection os c w = Inr w'"
  shows "store_frame w w'"
  using assms unfolding removeConnection_def
  by (rule store_frame_runInLoop) (rule store_frame_removeInLoop)

lemma store_frame_handleClose:
  assumes "handleClose user (run_close os) os c w = Inr w'"
  shows "store_frame w w'"
proof -
  from assms obtain C v D g where C: "conns w c = Some C"
      "call_user user os (tc_connectionCallback C) (OnConnection c)
        (put_conn c (setState kDisconnected C) w) = Inr v"
      "conns v c = Some D" "run_close os g c v = Inr w'"
    by (auto simp: handleClose_def upd_conn_def split: option.splits)
  have "store_frame v w'" using C(4) by (cases g) (auto intro: store_frame_removeConnection)
  with store_frame_state [OF C(1)] store_frame_call [OF C(2)] show ?thesis
    by (blast intro: store_frame_trans)
qed

lemma store_frame_handleRead:
  assumes os: "readv_contract os" and run: "handleRead user (run_close os) os c t w = Inr w'"
  shows "store_frame w w'"
proof -
  from run obtain C n b v and ch :: channel where C: "conns w c = Some C"
      "readFd os (ch_fd ch) (tc_inputBuffer C) w = Inr (n, b, v)" and
      rest: "(case n of Inl e \<Rightarrow> handleError os c (log_msg ERROR (put_conn c (C\<lparr>tc_inputBuffer := b\<rparr>) v))
        | Inr n \<Rightarrow> if n = 0 then handleClose user (run_close os) os c (put_conn c (C\<lparr>tc_inputBuffer := b\<rparr>) v)
          else call_user user os (tc_messageCallback C) (OnMessage c t)
            (put_conn c (C\<lparr>tc_inputBuffer := b\<rparr>) v)) = Inr w'"
    by (auto simp: handleRead_def Let_def)
  let ?v = "put_conn c (C\<lparr>tc_inputBuffer := b\<rparr>) v"
  have "store_frame ?v w'"
    using rest by (auto split: sum.split_asm if_split_asm
        dest: store_frame_handleError store_frame_handleClose store_frame_call)
  with store_frame_input [OF os C] show ?thesis by (rule store_frame_trans)
qed

lemma store_frame_established:
  assumes "connectEstablished user os c w = Inr w'"
  shows "store_frame w w'"
proof -
  from assms obtain C ch v where C: "conns w c = Some C" and ch: "chans w (tc_channel C) = Some ch" and
      read: "enableReading os (tc_channel C) (put_channel (tc_channel C) (tie c ch)
        (put_conn c (setState kConnected C) w)) = Inr v" and
      told: "call_user user os (tc_connectionCallback C) (OnConnection c) v = Inr w'"
    by (auto simp: connectEstablished_def upd_conn_def)
  have "store_frame (put_conn c (setState kConnected C) w)
      (put_channel (tc_channel C) (tie c ch) (put_conn c (setState kConnected C) w))"
    by (rule store_frame_chan [OF _ step_updates(2)]) (simp add: ch)
  with store_frame_state [OF C] store_frame_interest [OF read] store_frame_call [OF told] show ?thesis
    by (blast intro: store_frame_trans)
qed

lemma store_frame_destroyed:
  assumes "connectDistroyed user os c w = Inr w'"
  shows "store_frame w w'"
proof -
  from assms obtain C u where C: "conns w c = Some C" and
      first: "(if tc_state C = kConnected then
          bnd (disableAll os (tc_channel C) (put_conn c (setState kDisconnected C) w)) (\<lambda>w.
          call_user user os (tc_connectionCallback C) (OnConnection c) w)
        else Inr w) = Inr u" and
      rem: "Channel_remove os (tc_channel C) u = Inr w'"
    by (auto simp: connectDistroyed_def)
  have "store_frame w u"
  proof (cases "tc_state C = kConnected")
    case False
    with first show ?thesis by simp
  next
    case True
    with first obtain v where "disableAll os (tc_channel C) (put_conn c (setState kDisconnected C) w) = Inr v"
        "call_user user os (tc_connectionCallback C) (OnConnection c) v = Inr u"
      by auto
    from store_frame_state [OF C] store_frame_interest [OF this(1)] store_frame_call [OF this(2)]
    show ?thesis by (blast intro: store_frame_trans)
  qed
  with store_frame_remove [OF rem] show ?thesis by (blast intro: store_frame_trans)
qed

lemma store_frame_listen:
  fixes w :: "'a sworld_scheme"
  assumes "server_listen os w = Inr w'"
  shows "store_frame w w'"
proof -
  from assms obtain p u v where u: "Socket_listen os p w = Inr u"
      and read: "enableReading os (ac_channel (ts_acceptor (server w))) u = Inr v"
      and w': "store_frame w w' = store_frame w v"
    by (auto simp: server_listen_def Acceptor_listen_def Let_def)
  from u have "store_frame w u"
    by (auto simp: Socket_listen_def sys_listen_def Let_def split: option.splits)
  with store_frame_interest [OF read] show ?thesis unfolding w' by (blast intro: store_frame_trans)
qed

lemma store_frame_functor:
  fixes w :: "'a sworld_scheme"
  shows "exec_functor user os f w = Inr w' \<Longrightarrow> store_frame w w'"
  by (cases f) (auto intro: store_frame_established store_frame_destroyed store_frame_sendInLoop
      store_frame_shutdownInLoop store_frame_call store_frame_removeInLoop store_frame_listen)

section \<open>Rounds of a server\<close>

text \<open>An allocator hands out unused connection numbers, and unused addresses while there are any.\<close>

definition gives_new :: "('a sworld_scheme \<Rightarrow> conn_id \<times> ptr) \<Rightarrow> bool" where
  "gives_new fresh \<longleftrightarrow>
     (\<forall>w. (finite (dom (conns w)) \<longrightarrow> conns w (fst (fresh w)) = None) \<and>
          (dom (chans w) \<noteq> UNIV \<longrightarrow> chans w (snd (fresh w)) = None))"

definition init_typed :: "(loop_id \<Rightarrow> 'a sworld_scheme \<Rightarrow> failure + 'a sworld_scheme) \<Rightarrow> bool" where
  "init_typed init \<longleftrightarrow> (\<forall>l v v'. init l v = Inr v' \<longrightarrow> store_frame v v')"

lemma store_frame_no_conns: "store_frame w v \<Longrightarrow> conns w = Map.empty \<Longrightarrow> conns v = Map.empty"
  by (auto simp: store_frame_def)

text \<open>The constructor of a loop makes the loop and its channel, and then only changes interests.\<close>

lemma loop_ctor_stages:
  fixes w :: "'a cworld_scheme"
  assumes run: "EventLoop_ctor use_poll os l p w = Inr w'"
  obtains v fd and L :: "pending_functor event_loop" and ts where
    "chans v = chans w" and "conns v = conns w" and "loops v = loops w" and "\<not> el_quit L"
    and "store_frame (put_channel p ((Channel_ctor l fd)\<lparr>ch_readCallback := Some (EventLoop_handleRead l)\<rparr>)
      ((put_channel p (Channel_ctor l fd) (put_loop l L v))\<lparr>t_loopInThisThread := ts\<rparr>)) w'"
proof -
  from run obtain Po u fd v where
      poller: "newDefaultPoller use_poll os l w = Inr (Po, u)" and efd: "createEventfd os u = Inr (fd, v)"
      and read: "enableReading os p
        (put_channel p ((Channel_ctor l fd)\<lparr>ch_readCallback := Some (EventLoop_handleRead l)\<rparr>)
          ((put_channel p (Channel_ctor l fd) (put_loop l
            \<lparr>el_looping = False, el_quit = False, el_threadId = cur_tid v, el_pollReturnTime = 0,
             el_poller = Po, el_wakeupFd = fd, el_wakeupChannel = p, el_activeChannels = [],
             el_callingPendingFunctors = False, el_pendingFunctors = []\<rparr> v))
          \<lparr>t_loopInThisThread := (t_loopInThisThread v)(cur_tid v \<mapsto> l)\<rparr>)) = Inr w'"
    by (auto simp: EventLoop_ctor_def Let_def split: if_split_asm)
  define L :: "pending_functor event_loop" where "L = \<lparr>el_looping = False, el_quit = False,
    el_threadId = cur_tid v, el_pollReturnTime = 0, el_poller = Po, el_wakeupFd = fd,
    el_wakeupChannel = p, el_activeChannels = [], el_callingPendingFunctors = False,
    el_pendingFunctors = []\<rparr>"
  define ts where "ts = (t_loopInThisThread v)(cur_tid v \<mapsto> l)"
  have L: "\<not> el_quit L" by (simp add: L_def)
  note read = read [folded L_def ts_def]
  have v: "chans v = chans w" "conns v = conns w" "loops v = loops w"
    using poller efd
    by (auto simp: newDefaultPoller_def EPollPoller_ctor_def createEventfd_def
        sys_epoll_create_def sys_eventfd_def Let_def split: sum.splits if_split_asm)
  show ?thesis by (rule that [OF v L store_frame_interest [OF read]])
qed

lemma loop_ctor_running:
  fixes w :: "'a cworld_scheme"
  assumes "EventLoop_ctor use_poll os l p w = Inr w'" and "conns w = Map.empty"
  shows "running l w'" and "conns w' = Map.empty"
proof -
  from assms(1) obtain v fd and L :: "pending_functor event_loop" and ts where
      v: "conns v = conns w" and L: "\<not> el_quit L"
      and x: "store_frame (put_channel p ((Channel_ctor l fd)\<lparr>ch_readCallback := Some (EventLoop_handleRead l)\<rparr>)
        ((put_channel p (Channel_ctor l fd) (put_loop l L v))\<lparr>t_loopInThisThread := ts\<rparr>)) w'"
      (is "store_frame ?x w'")
    by (rule loop_ctor_stages)
  have "\<forall>k. rel_option loop_step (loops ?x k) (loops w' k)" using x by (simp add: store_frame_def)
  from spec [OF this, of l] show "running l w'"
    using L by (auto simp: running_def option_rel_Some1 loop_step_def)
  show "conns w' = Map.empty"
    by (rule store_frame_no_conns [OF x]) (simp add: v assms(2) put_channel_def put_loop_def)
qed

text \<open>
  A property that respects what the operations do to the stores, and the making of a connection
  with its channel at a free address.
\<close>

locale turn_invariant =
  fixes P :: "'a sworld_scheme \<Rightarrow> bool"
  assumes frame_law: "P w \<Longrightarrow> store_frame w v \<Longrightarrow> P v"
    and connection_law: "P w \<Longrightarrow> (finite (dom (conns w)) \<Longrightarrow> conns w c = None) \<Longrightarrow>
      (dom (chans w) \<noteq> UNIV \<Longrightarrow> chans w (tc_channel C) = None) \<Longrightarrow> chan_typed ch \<Longrightarrow>
      conn_typed (put_channel (tc_channel C) ch w) c C \<Longrightarrow> P (put_channel (tc_channel C) ch (put_conn c C w))"
begin

lemma keeps_ctor:
  assumes "TcpConnection_ctor (Some l) nm fd la pa c p w = Inr v" and "P w"
    and "finite (dom (conns w)) \<Longrightarrow> conns w c = None" and "dom (chans w) \<noteq> UNIV \<Longrightarrow> chans w p = None"
  shows "P v"
proof -
  define C where "C = \<lparr>tc_loop = l, tc_name = nm, tc_state = kConnecting, tc_reading = True, tc_socket = fd,
    tc_channel = p, tc_localAddr = la, tc_peerAddr = pa, tc_connectionCallback = None,
    tc_messageCallback = None, tc_writeCompleteCallback = None, tc_highWaterMarkCallback = None,
    tc_closeCallback = None, tc_highWaterMark = kHighWaterMark,
    tc_inputBuffer = Buffer_ctor kInitialSize, tc_outputBuffer = Buffer_ctor kInitialSize\<rparr>"
  define ch where "ch = (Channel_ctor l fd)
    \<lparr>ch_readCallback := Some (TcpConnection_handleRead c), ch_writeCallback := Some (TcpConnection_handleWrite c),
     ch_closeCallback := Some (TcpConnection_handleClose c), ch_errorCallback := Some (TcpConnection_handleError c)\<rparr>"
  have v: "v = setKeepAlive True fd (put_channel p ch (put_conn c C w))"
    using assms(1) by (simp add: TcpConnection_ctor_def Let_def C_def ch_def)
  have C: "tc_channel C = p" "chan_typed ch" "conn_typed (put_channel p ch w) c C"
    by (simp_all add: ch_def conn_typed_def calls_back_def)
      (simp_all add: C_def Channel_ctor_def put_channel_def)
  have "P (put_channel p ch (put_conn c C w))"
    using connection_law [of w c C ch] assms(2-4) C by blast
  then show ?thesis
    unfolding v by (rule frame_law) (rule store_frame_same, simp_all add: setKeepAlive_def sys_setsockopt_def Let_def)
qed

lemma keeps_new:
  assumes "newConnection user os c p fd peer w = Inr w'" and P: "P w"
    and "finite (dom (conns w)) \<Longrightarrow> conns w c = None" and "dom (chans w) \<noteq> UNIV \<Longrightarrow> chans w p = None"
  shows "P w'"
proof -
  from assms(1) obtain l nm la u v x S f where
      u: "local_addr os fd (upd_server f w) = (la, u)"
      and v: "TcpConnection_ctor (Some l) nm fd la peer c p u = Inr v"
      and x: "upd_conn c (set_callbacks S) (upd_server (\<lambda>S. S\<lparr>ts_connections := (ts_connections S)(nm \<mapsto> c)\<rparr>) v) =
        Inr x"
      and rest: "runInLoop (\<lambda>f. connectEstablished user os c) os l (F_connectEstablished c) x = Inr w'"
    by (auto simp: newConnection_def Let_def split: if_split_asm prod.split_asm)
  have "conns u = conns w" "chans u = chans w" "loops u = loops w"
    using u by (auto simp: local_addr_def sys_getsockname_def upd_server_def Let_def split: sum.split_asm)
  then have "P u" and "P v"
    using frame_law [OF P store_frame_same, of u] keeps_ctor [OF v] assms(3,4) by simp_all
  moreover have "store_frame v x"
    using x by (auto simp: upd_conn_def intro!: store_frame_trans [OF _ store_frame_conn])
      (auto simp: conn_step_def set_callbacks_def)
  moreover have "store_frame x w'"
    using rest by (rule store_frame_runInLoop) (rule store_frame_established)
  ultimately show ?thesis by (blast intro: frame_law)
qed

lemma keeps_accept:
  assumes fresh: "gives_new fresh"
    and run: "accept_handleRead (\<lambda>fd a w. let (c, p) = fresh w in newConnection user os c p fd a w)
       os len A w = Inr w'"
    and P: "P w"
  shows "P w'"
proof -
  have plain: "P (emit e v)" "P (log_msg lv v)" if "P v" for e lv v
    by (rule frame_law [OF that], simp)+
  have new: "P w'" if v: "(let (c, p) = fresh v in newConnection user os c p fd a v) = Inr w'" "P v"
      for fd a v
  proof -
    obtain c p where cp: "fresh v = (c, p)" by (cases "fresh v")
    then have "finite (dom (conns v)) \<Longrightarrow> conns v c = None" "dom (chans v) \<noteq> UNIV \<Longrightarrow> chans v p = None"
      using fresh unfolding gives_new_def by (metis fst_conv snd_conv)+
    with v cp show ?thesis by (auto intro: keeps_new)
  qed
  from run P show ?thesis
    by (auto simp: accept_handleRead_def Socket_accept_def sys_accept_def sys_close_def Let_def
        split: sum.splits if_split_asm intro!: plain
        elim!: new [unfolded Let_def, OF _ plain(1)])
qed

lemma keeps_invoke:
  assumes fresh: "gives_new fresh" and os: "readv_contract os"
    and run: "invoke user os fresh len t cb w = Inr w'" and P: "P w"
  shows "P w'"
proof (cases cb)
  case (EventLoop_handleRead l)
  with run have "store_frame w w'"
    by (auto simp: EventLoop_handleRead_body_def sys_read_def Let_def)
  then show ?thesis by (rule frame_law [OF P])
next
  case Acceptor_handleRead
  with run keeps_accept [OF fresh _ P] show ?thesis by simp
qed (use run P in \<open>auto intro: frame_law [OF _ store_frame_handleRead [OF os]]
      frame_law [OF _ store_frame_handleClose] frame_law [OF _ store_frame_handleWrite]
      frame_law [OF _ store_frame_handleError]\<close>)

lemma keeps_dispatch:
  assumes "gives_new fresh" and "readv_contract os"
    and "handleEvent (invoke user os fresh len) alive t p w = Inr w'" and "P w"
  shows "P w'"
proof -
  have one: "P u" if "dispatch_if (invoke user os fresh len) t p cond cb v = Inr u" "P v"
    for cond v u and cb :: "channel \<Rightarrow> callback option"
    using that by (auto simp: dispatch_if_def split: if_split_asm option.splits
        intro: keeps_invoke [OF assms(1,2)])
  have "P w'" if "handleEventWithGuard (invoke user os fresh len) t p w = Inr w'"
    using that [unfolded handleEventWithGuard_def] assms(4)
    by (rule run_invariant) (auto intro: one)
  with assms(3,4) show ?thesis
    by (auto simp: handleEvent_def split: if_split_asm option.splits)
qed

lemma keeps_round:
  assumes fresh: "gives_new fresh" and os: "readv_contract os"
    and run: "server_round user os fresh len l w = Inr w'" and P: "P w"
  shows "P w'"
proof -
  have handlers: "P u" if "handle_active (invoke user os fresh len) alive l v = Inr u" "P v" for u v
  proof -
    from that(1) obtain L :: "pending_functor event_loop" where "run (map (handleEvent (invoke user os fresh len) alive
        (el_pollReturnTime L)) (el_activeChannels L)) v = Inr u"
      by (auto simp: handle_active_def)
    then show ?thesis using that(2)
      by (rule run_invariant) (auto intro: keeps_dispatch [OF fresh os])
  qed
  have functors: "store_frame v u" if "doPendingFunctors (exec_functor user os) l v = Inr u"
      for u v :: "'a sworld_scheme"
  proof -
    from that obtain v1 fs v2 v3 where u: "upd_loop l (\<lambda>L. L\<lparr>el_callingPendingFunctors := True\<rparr>) v = Inr v1"
        "upd_loop l (\<lambda>L. L\<lparr>el_pendingFunctors := []\<rparr>) v1 = Inr v2"
        "run (map (exec_functor user os) fs) v2 = Inr v3"
        "upd_loop l (\<lambda>L. L\<lparr>el_callingPendingFunctors := False\<rparr>) v3 = Inr u"
      by (auto simp: doPendingFunctors_def Let_def)
    have "store_frame v2 v3"
      using u(3) by (rule run_invariant) (auto intro: store_frame_trans dest: store_frame_functor)
    with u(1,2,4) show ?thesis
      by (blast intro: store_frame_trans store_frame_upd_loop step_updates)
  qed
  from run have "run [upd_loop l (\<lambda>L. L\<lparr>el_activeChannels := []\<rparr>), poll_step os l,
      handle_active (invoke user os fresh len) alive l,
      doPendingFunctors (exec_functor user os) l] w = Inr w'"
    by (simp add: server_round_def loop_body_def)
  then show ?thesis using P
  proof (rule run_invariant)
    fix f v v'
    assume "f \<in> set [upd_loop l (\<lambda>L. L\<lparr>el_activeChannels := []\<rparr>), poll_step os l,
      handle_active (invoke user os fresh len) alive l, doPendingFunctors (exec_functor user os) l]"
      and "P v" and "f v = Inr v'"
    then consider "store_frame v v'" | "handle_active (invoke user os fresh len) alive l v = Inr v'"
      by (auto dest: store_frame_upd_loop [OF _ step_updates(6)] store_frame_poll functors)
    then show "P v'" using \<open>P v\<close> by cases (auto intro: frame_law handlers)
  qed
qed

lemma keeps_turn:
  assumes "gives_new fresh" and "readv_contract os" and "take_turn user os fresh len l w = Inr w'" and "P w"
  shows "P w'"
proof -
  from assms(3) obtain L :: "pending_functor event_loop"
    where run: "server_round user os fresh len l (w\<lparr>cur_tid := el_threadId L\<rparr>) = Inr w'"
    by (auto simp: take_turn_def)
  have "P (w\<lparr>cur_tid := el_threadId L\<rparr>)" by (rule frame_law [OF assms(4)]) simp
  then show ?thesis by (rule keeps_round [OF assms(1,2) run])
qed

end

text \<open>Making loops and the listening channel, before there is a connection.\<close>

locale round_invariant = turn_invariant P for P :: "'a sworld_scheme \<Rightarrow> bool" +
  assumes loop_law: "P w \<Longrightarrow> \<not> el_quit L \<Longrightarrow> P (put_loop l L w)"
    and channel_law: "P w \<Longrightarrow> conns w = Map.empty \<Longrightarrow> chan_typed ch \<Longrightarrow> P (put_channel p ch w)"
begin

lemma keeps_loop_ctor:
  assumes run: "EventLoop_ctor use_poll os l p w = Inr w'" and P: "P w" and none: "conns w = Map.empty"
  shows "P w'" and "conns w' = Map.empty"
proof -
  from run obtain v fd and L :: "pending_functor event_loop" and ts where
      v: "chans v = chans w" "conns v = conns w" "loops v = loops w" and L: "\<not> el_quit L"
      and x: "store_frame (put_channel p ((Channel_ctor l fd)\<lparr>ch_readCallback := Some (EventLoop_handleRead l)\<rparr>)
        ((put_channel p (Channel_ctor l fd) (put_loop l L v))\<lparr>t_loopInThisThread := ts\<rparr>)) w'"
    by (rule loop_ctor_stages)
  let ?u = "put_channel p (Channel_ctor l fd) (put_loop l L v)"
  let ?x = "put_channel p ((Channel_ctor l fd)\<lparr>ch_readCallback := Some (EventLoop_handleRead l)\<rparr>)
    (?u\<lparr>t_loopInThisThread := ts\<rparr>)"
  have "P v" by (rule frame_law [OF P]) (rule store_frame_same, simp_all add: v)
  then have "P ?u" by (intro channel_law loop_law) (simp_all add: L v none put_loop_def)
  then have "P (?u\<lparr>t_loopInThisThread := ts\<rparr>)"
    by (rule frame_law) (rule store_frame_same, simp_all)
  then have "P ?x" by (rule channel_law) (simp_all add: v none put_loop_def)
  moreover note x
  moreover have "conns ?x = Map.empty" by (simp add: v none put_loop_def)
  ultimately show "P w'" and "conns w' = Map.empty"
    by (auto intro: frame_law dest: store_frame_no_conns)
qed

lemma keeps_threads:
  assumes init: "init_typed init"
  shows "start_threads init cb use_poll os supply i n T w = Inr (T', w') \<Longrightarrow> P w \<Longrightarrow>
    conns w = Map.empty \<Longrightarrow> P w' \<and> conns w' = Map.empty"
proof (induction n arbitrary: i T w)
  case 0
  then show ?case by simp
next
  case (Suc n)
  obtain t l p where sup: "supply i = (t, l, p)" by (cases "supply i")
  let ?w = "w\<lparr>numCreated := numCreated w + 1, cur_tid := t\<rparr>"
  from Suc.prems(1) sup obtain u v T1 where
      ctor: "EventLoop_ctor use_poll os l p ?w = Inr u"
      and first: "(if cb then init l u else Inr u) = Inr v"
      and rest: "start_threads init cb use_poll os supply (Suc i) n T1 (v\<lparr>cur_tid := cur_tid w\<rparr>) =
        Inr (T', w')"
    by (auto simp: startLoop_def threadFunc_begin_def EventLoopThread_ctor_def Thread_ctor_def
        setDefaultname_def Thread_start_def Let_def split: if_split_asm)
  have "P ?w" by (rule frame_law [OF Suc.prems(2)]) (rule store_frame_same, simp_all)
  with keeps_loop_ctor [OF ctor] Suc.prems(3) have u: "P u" "conns u = Map.empty" by simp_all
  have v: "store_frame u (v\<lparr>cur_tid := cur_tid w\<rparr>)"
    using first init by (auto simp: init_typed_def split: if_split_asm)
  show ?case
    by (rule Suc.IH [OF rest frame_law [OF u(1) v]]) (rule store_frame_no_conns [OF v u(2)])
qed

lemma keeps_start:
  assumes init: "init_typed init" and start: "TcpServer_start init use_poll os supply w = Inr w'"
    and P: "P w" and none: "conns w = Map.empty"
  shows "P w'"
proof (cases "ts_started (server w) = 0")
  case False
  with start have "w' = upd_server (\<lambda>S. S\<lparr>ts_started := ts_started S + 1\<rparr>) w"
    by (simp add: start_again)
  then have "store_frame w w'" by simp
  then show ?thesis by (rule frame_law [OF P])
next
  case True
  let ?w = "upd_server (\<lambda>S. S\<lparr>ts_started := 1\<rparr>) w"
  from start True obtain T v where
      pool: "pool_start init (ts_threadInitCallback (server w)) use_poll os supply
        (ts_threadPool (server w)) ?w = Inr (T, v)" and
      listen: "runInLoop (\<lambda>f. server_listen os) os (ts_loop (server v)) F_Acceptor_listen
        (upd_server (\<lambda>S. S\<lparr>ts_threadPool := T\<rparr>) v) = Inr w'"
    by (auto simp: TcpServer_start_def Let_def)
  from pool obtain u where u: "start_threads init (ts_threadInitCallback (server w)) use_poll os supply 0
      (nat (tp_numThreads (ts_threadPool (server w))))
      ((ts_threadPool (server w))\<lparr>tp_started := True\<rparr>) ?w = Inr (T, u)"
      "v = u \<or> init (tp_baseLoop T) u = Inr v"
    by (auto simp: pool_start_def split: if_split_asm)
  have "P ?w" by (rule frame_law [OF P]) simp
  then have "P u" using keeps_threads [OF init u(1)] none by simp
  moreover have "store_frame u v" using u(2) init by (auto simp: init_typed_def)
  moreover have "store_frame (upd_server (\<lambda>S. S\<lparr>ts_threadPool := T\<rparr>) v) w'"
    using listen by (rule store_frame_runInLoop) (rule store_frame_listen)
  ultimately show ?thesis by (auto intro: frame_law store_frame_trans)
qed

lemma keeps_server_ctor:
  assumes ctor: "TcpServer_ctor os (Some l) addr name reuseport p w = Inr w'"
    and P: "P w" and none: "conns w = Map.empty"
  shows "P w'" and "conns w' = Map.empty"
proof -
  from ctor obtain A v where A: "Acceptor_ctor os l addr reuseport p w = Inr (A, v)"
      and w': "chans w' = chans v" "conns w' = conns v" "loops w' = loops v"
    by (auto simp: TcpServer_ctor_def)
  from A obtain fd u x ch where sock: "createNonblocking os w = Inr (fd, u)"
      and bound: "bindAddress os fd addr (setReusePort True fd (setReuseAddr True fd
        (put_channel p (Channel_ctor l fd) u))) = Inr x"
      and v: "chans x p = Some ch" "v = put_channel p (ch\<lparr>ch_readCallback := Some Acceptor_handleRead\<rparr>) x"
    by (auto simp: Acceptor_ctor_def Let_def)
  from sock have u: "chans u = chans w" "conns u = conns w" "loops u = loops w"
    by (auto simp: createNonblocking_def sys_socket_def Let_def split: sum.splits)
  from bound have x: "chans x = chans (put_channel p (Channel_ctor l fd) u)" "conns x = conns u"
      "loops x = loops u"
    by (auto simp: bindAddress_def sys_bind_def setReusePort_def setReuseAddr_def sys_setsockopt_def
        Let_def split: option.splits if_split_asm)
  from v(1) have ch: "chan_typed ch" by (auto simp: x)
  have "P u" by (rule frame_law [OF P]) (rule store_frame_same, simp_all add: u)
  then have "P (put_channel p (Channel_ctor l fd) u)" by (rule channel_law) (simp_all add: u none)
  then have "P x" by (rule frame_law) (rule store_frame_same, simp_all add: x)
  then have "P v" unfolding v(2) by (rule channel_law) (simp_all add: x u none ch)
  then show "P w'" by (rule frame_law) (rule store_frame_same, simp_all add: w')
  show "conns w' = Map.empty" by (simp add: w' v(2) x u none)
qed

text \<open>From the constructor through the start and any turns of any loops.\<close>

lemma keeps_run:
  assumes fresh: "gives_new fresh" and os: "readv_contract os" and init: "init_typed init"
    and P: "P w" and none: "conns w = Map.empty"
    and ctor: "TcpServer_ctor os (Some l) addr name reuseport p w = Inr v"
    and set: "conns (f v) = conns v" "chans (f v) = chans v" "loops (f v) = loops v"
    and run: "run (TcpServer_start init use_poll os supply # map (take_turn user os fresh len) ls) (f v) = Inr w'"
  shows "P w'"
proof -
  note v = keeps_server_ctor [OF ctor P none]
  have "P (f v)" by (rule frame_law [OF v(1)]) (rule store_frame_same, simp_all add: set)
  moreover from run obtain u where u: "TcpServer_start init use_poll os supply (f v) = Inr u"
      and turns: "run (map (take_turn user os fresh len) ls) u = Inr w'"
    by auto
  ultimately have "P u" using keeps_start [OF init u] v(2) set(1) by simp
  with turns show ?thesis
    by (rule run_invariant) (auto intro: keeps_turn [OF fresh os])
qed

end

section \<open>Two invariants\<close>

text \<open>Well-typed stores, as long as some address is free.\<close>

definition typed_world :: "'a sworld_scheme \<Rightarrow> bool" where
  "typed_world w \<longleftrightarrow> finite (dom (conns w)) \<and> (dom (chans w) = UNIV \<or> store_typed w)"

lemma conn_typed_step:
  assumes "conn_typed w c C" and "conn_step C C'" and "\<And>p. rel_option chan_step (chans w p) (chans v p)"
  shows "conn_typed v c C'"
proof -
  from assms(1) obtain ch where ch: "chans w (tc_channel C) = Some ch" "ch_fd ch = tc_socket C"
      "ch_loop ch = tc_loop C" "calls_back c ch"
    by (auto simp: conn_typed_def)
  from assms(3) [of "tc_channel C"] ch(1) obtain ch' where
      "chans v (tc_channel C) = Some ch'" "chan_step ch ch'"
    by (auto simp: option_rel_Some1)
  with assms(1,2) ch show ?thesis by (simp add: conn_typed_def conn_step_def chan_step_def)
qed

lemma store_typed_frame:
  assumes "store_frame w v" and "store_typed w"
  shows "store_typed v"
proof -
  have conn: "rel_option conn_step (conns w c) (conns v c)" for c
    using assms(1) by (simp add: store_frame_def)
  have chan: "rel_option chan_step (chans w p) (chans v p)" for p
    using assms(1) by (simp add: store_frame_def)
  have "chan_typed ch'" if "chans v p = Some ch'" for p ch'
    using chan [of p] that assms(2) by (auto simp: option_rel_Some2 store_typed_def chan_step_def)
  moreover have "conn_typed v c C'" if "conns v c = Some C'" for c C'
  proof -
    from conn [of c] that obtain C where "conns w c = Some C" "conn_step C C'"
      by (auto simp: option_rel_Some2)
    moreover from this(1) assms(2) have "conn_typed w c C" by (simp add: store_typed_def)
    ultimately show ?thesis using chan by (blast intro: conn_typed_step)
  qed
  ultimately show ?thesis by (simp add: store_typed_def)
qed

lemma store_frame_dom: "store_frame w v \<Longrightarrow> dom (conns v) = dom (conns w) \<and> dom (chans v) = dom (chans w)"
proof -
  assume frame: "store_frame w v"
  have "conns v c = None \<longleftrightarrow> conns w c = None" for c
    using frame by (cases "conns w c"; cases "conns v c") (auto simp: store_frame_def dest!: spec [of _ c])
  moreover have "chans v p = None \<longleftrightarrow> chans w p = None" for p
    using frame by (cases "chans w p"; cases "chans v p") (auto simp: store_frame_def dest!: spec [of _ p])
  ultimately show ?thesis by (auto simp: dom_def)
qed

lemma store_typed_made:
  fixes w :: "'a cworld_scheme"
  assumes typed: "store_typed w" and free: "chans w (tc_channel C) = None"
    and ch: "chan_typed ch" and C: "conn_typed (put_channel (tc_channel C) ch w) c C"
  shows "store_typed (put_channel (tc_channel C) ch (put_conn c C w))"
proof -
  have keep: "conn_typed (put_channel (tc_channel C) ch (put_conn c C w)) d D" if "conn_typed w d D" for d D
    using that free by (auto simp: conn_typed_def put_channel_def)
  have "conn_typed (put_channel (tc_channel C) ch (put_conn c C w)) c C"
    using C by (simp add: conn_typed_def put_channel_def)
  with typed ch keep show ?thesis by (simp add: store_typed_def put_channel_def)
qed

interpretation typed: round_invariant typed_world
proof unfold_locales
  fix w v :: "'a sworld_scheme"
  assume "typed_world w" and "store_frame w v"
  then show "typed_world v"
    using store_frame_dom [of w v] store_typed_frame [of w v] by (auto simp: typed_world_def)
next
  fix w :: "'a sworld_scheme" and c C ch
  assume w: "typed_world w" and c: "finite (dom (conns w)) \<Longrightarrow> conns w c = None"
    and p: "dom (chans w) \<noteq> UNIV \<Longrightarrow> chans w (tc_channel C) = None" and ch: "chan_typed ch"
    and C: "conn_typed (put_channel (tc_channel C) ch w) c C"
  show "typed_world (put_channel (tc_channel C) ch (put_conn c C w))"
  proof (cases "dom (chans w) = UNIV")
    case True
    with w show ?thesis by (simp add: typed_world_def put_channel_def)
  next
    case False
    with w have "store_typed w" by (simp add: typed_world_def)
    from store_typed_made [OF this p [OF False] ch C] w show ?thesis by (simp add: typed_world_def)
  qed
next
  fix w :: "'a sworld_scheme" and l L
  assume "typed_world w"
  then show "typed_world (put_loop l L w)"
    by (simp add: typed_world_def store_typed_def conn_typed_def)
next
  fix w :: "'a sworld_scheme" and ch p
  assume "typed_world w" and "conns w = Map.empty" and "chan_typed ch"
  then show "typed_world (put_channel p ch w)"
    by (auto simp: typed_world_def store_typed_def put_channel_def)
qed

text \<open>Nothing a server does ends a loop: the flag of a loop that runs stays clear.\<close>

interpretation runs: round_invariant "running l" for l
proof unfold_locales
  fix w v :: "'a sworld_scheme"
  assume "running l w" and "store_frame w v"
  then obtain L where "loops w l = Some L" "\<not> el_quit L" and step: "\<forall>l. rel_option loop_step (loops w l) (loops v l)"
    by (auto simp: running_def store_frame_def)
  with spec [OF step, of l] show "running l v" by (auto simp: running_def option_rel_Some1 loop_step_def)
qed (simp_all add: running_def put_channel_def)

section \<open>Properties\<close>

definition new_fresh :: "'a sworld_scheme \<Rightarrow> conn_id \<times> ptr" where
  "new_fresh w =
     (if conns w 8 = None then 8 else (LEAST c. conns w c = None),
      if chans w 32 = None then 32 else of_nat (LEAST n. chans w (of_nat n) = None))"

lemma new_fresh_new: "gives_new new_fresh"
  unfolding gives_new_def
proof (intro allI conjI impI)
  fix w :: "'a sworld_scheme"
  show "conns w (fst (new_fresh w)) = None" if "finite (dom (conns w))"
  proof -
    from that have "\<exists>c. c \<notin> dom (conns w)" by (rule ex_new_if_finite [rotated]) simp
    then have "conns w (LEAST c. conns w c = None) = None"
      by (metis (mono_tags, lifting) LeastI domIff)
    then show ?thesis by (simp add: new_fresh_def)
  qed
  show "chans w (snd (new_fresh w)) = None" if full: "dom (chans w) \<noteq> UNIV"
  proof -
    from full obtain p where "chans w p = None" by (auto simp: dom_def)
    then have "chans w (of_nat (unat p)) = None" by simp
    then have "chans w (of_nat (LEAST n. chans w (of_nat n) = None)) = None" by (rule LeastI)
    then show ?thesis by (simp add: new_fresh_def)
  qed
qed

text \<open>
  Every object stays well-typed over whole rounds. From the constructor of a server on, through the user's
  settings, \<open>start\<close> and any turns of any loops, whatever the callbacks, the kernel's errors and the
  peers do: as long as some address is free, every channel's index is one the poller gives and its
  mask holds no event but those the class knows; every connection's two buffers are in bounds; and
  its channel is there, with its descriptor and its loop, and calls back that connection.
\<close>

theorem server_well_typed:
  fixes w :: "'a sworld_scheme"
  assumes "gives_new fresh" and "init_typed init" and "readv_contract os"
    and "conns w = Map.empty" and "\<forall>p ch. chans w p = Some ch \<longrightarrow> chan_typed ch"
    and "TcpServer_ctor os (Some l) addr name reuseport p w = Inr v"
    and "run (TcpServer_start init use_poll os supply # map (take_turn user os fresh len) ls)
      (setMessageCalback mc (setConnectionCallback cc (setThreadNum n v))) = Inr w'"
    and "dom (chans w') \<noteq> UNIV"
  shows "(\<forall>p ch. chans w' p = Some ch \<longrightarrow> chan_typed ch) \<and>
    (\<forall>c C. conns w' c = Some C \<longrightarrow> conn_typed w' c C)"
proof -
  have "typed_world w" using assms(4,5) by (simp add: typed_world_def store_typed_def)
  then have "typed_world w'"
    by (rule typed.keeps_run [where f = "\<lambda>v. setMessageCalback mc (setConnectionCallback cc (setThreadNum n v))",
        OF assms(1,3,2) _ assms(4,6) _ _ _ assms(7)])
      (simp_all add: setMessageCalback_def setConnectionCallback_def setThreadNum_def)
  with assms(8) show ?thesis by (simp add: typed_world_def store_typed_def)
qed

text \<open>A server starts, accepts a connection, and the connection is one.\<close>

theorem server_well_typed_witness:
  "\<exists>v w' C. TcpServer_ctor (ready_os 5 1) (Some 0) local_8000 ''echo'' False 5 base_sworld = Inr v \<and>
     run (TcpServer_start (\<lambda>l w. Inr w) False (ready_os 5 1) (\<lambda>j. (0, 0, 0)) #
         map (take_turn (\<lambda>f cl w. []) (ready_os 5 1) new_fresh 16) [0])
       (setMessageCalback 1 (setConnectionCallback 0 (setThreadNum 0 v))) = Inr w' \<and>
     conns w' 8 = Some C \<and> conn_typed w' 8 C"
proof -
  have init: "init_typed (\<lambda>l w. Inr (w :: sworld))" by (simp add: init_typed_def)
  have os: "readv_contract (ready_os 5 1)" using demo_os_readv by (simp add: readv_contract_def)
  have none: "conns base_sworld = Map.empty" "\<forall>p ch. chans base_sworld p = Some ch \<longrightarrow> chan_typed ch"
    by (simp_all add: base_sworld_def)
  obtain v w' C where
      v: "TcpServer_ctor (ready_os 5 1) (Some 0) local_8000 ''echo'' False 5 base_sworld = Inr v" and
      w': "run (TcpServer_start (\<lambda>l w. Inr w) False (ready_os 5 1) (\<lambda>j. (0, 0, 0)) #
          map (take_turn (\<lambda>f cl w. []) (ready_os 5 1) new_fresh 16) [0])
        (setMessageCalback 1 (setConnectionCallback 0 (setThreadNum 0 v))) = Inr w'"
        "chans w' 99 = None" "conns w' 8 = Some C"
    by (simp add: eval_kernel eval_channel eval_loop eval_start eval_accept new_fresh_def Let_def)
  have "dom (chans w') \<noteq> UNIV" using w'(2) by auto
  from server_well_typed [OF new_fresh_new init os none v w'(1) this] v w' show ?thesis
    by blast
qed

end
