(* ===== verification/Draining.thy ===== *)
theory Draining
  imports TcpConnection
begin

text \<open>
  The end of a connection's output (\<open>src/src/TcpConnection.cc\<close>, \<open>handleWrite\<close> and
  \<open>shutdown\<close>): over a kernel that takes at least one byte of every write, enough writable
  reports empty the output buffer, and a shutdown that was asked for is carried out exactly when
  the buffer is empty, neither earlier nor never.
\<close>

section \<open>A shutdown is carried out once the output is empty\<close>

definition closing :: "conn_id \<Rightarrow> c_int \<Rightarrow> 'a cworld_scheme \<Rightarrow> bool" where
  "closing c fd w \<longleftrightarrow> (\<forall>C. conns w c = Some C \<longrightarrow> tc_state C = kDisconnecting \<longrightarrow>
     readable (tc_outputBuffer C) = [] \<longrightarrow> shut_on (trace w) fd)"

lemma closing_same:
  "closing c fd w \<Longrightarrow> conns v c = conns w c \<Longrightarrow> trace v = trace w \<Longrightarrow> closing c fd v"
  by (simp add: closing_def)

lemma closing_connected: "conn_good c l fd kConnected w \<Longrightarrow> closing c fd w"
  by (auto simp: conn_good_def conn_ok_def shows_conn_def closing_def)

lemma handleWrite_closing:
  assumes os: "write_contract os" and good: "conn_good c l fd s w" and cl: "closing c fd w"
    and run: "handleWrite os c w = Inr w'"
  shows "closing c fd w'"
proof -
  from good obtain C ch where C: "conn_ok c C ch w" "fin_ok C w" "tc_socket C = fd"
    by (auto simp: conn_good_def)
  from handleWrite_Inr [OF run C(1,2) os] obtain C' ch' where
      C': "stream_step c C [] w C' ch' w'" "tc_state C' = tc_state C"
        "tc_state C = kDisconnecting \<Longrightarrow> readable (tc_outputBuffer C') = [] \<Longrightarrow>
          readable (tc_outputBuffer C) \<noteq> [] \<or> shut_on (trace w) (tc_socket C) \<Longrightarrow>
          shut_on (trace w') (tc_socket C)"
    by metis
  have "conns w c = Some C" "conns w' c = Some C'"
    using C(1) C'(1) by (simp_all add: conn_ok_def shows_conn_def stream_step_def)
  then show ?thesis using C C' cl unfolding closing_def by auto
qed

lemma closing_step:
  assumes os: "write_contract os" and small: "small_op op"
    and good: "conn_good c l fd s w" and s: "s \<in> {kConnected, kDisconnecting}"
    and cl: "closing c fd w" and run: "conn_exec os c op w = Inr w'"
  shows "closing c fd w'"
proof (cases "next_state s op = kConnected")
  case True
  with conn_exec_step [OF os small good s run] have "conn_good c l fd kConnected w'" by simp
  then show ?thesis by (rule closing_connected)
next
  case False
  from good obtain C ch where ok: "conn_ok c C ch w" and C: "tc_state C = s" "tc_socket C = fd"
    by (auto simp: conn_good_def)
  then have c: "shows_conn c C ch w" and inb: "buffer_inv (tc_inputBuffer C)"
    by (simp_all add: conn_ok_def)
  then have conn: "conns w c = Some C" by (simp add: shows_conn_def)
  show ?thesis
  proof (cases op)
    case (DoSend a d)
    have c1: "shows_conn c C ch (w\<lparr>strings := (strings w)(a \<mapsto> d)\<rparr>)" using c by simp
    from DoSend False C run have
      "w' = w\<lparr>strings := ((strings w)(a \<mapsto> d))(a := None)\<rparr>"
      by (auto simp: send_own_thread [OF c1])
    with cl show ?thesis by (auto intro: closing_same)
  next
    case DoShutdown
    show ?thesis
    proof (cases "s = kConnected")
      case True
      let ?C = "setState kDisconnecting C"
      have c1: "shows_conn c ?C ch (put_conn c ?C w)"
        by (rule put_conn_shows [OF c]) (simp_all add: setState_def)
      from DoShutdown True run C have
        run1: "shutdownInLoop os c (put_conn c ?C w) = Inr w'"
        by (simp add: shutdown_own_thread [OF c])
      show ?thesis
        using shutdownInLoop_Inr [OF run1 c1] ok C by (auto simp: closing_def conn_ok_def setState_def)
    next
      case False
      with DoShutdown run C have "w' = w" by (simp add: shutdown_own_thread [OF c])
      with cl show ?thesis by simp
    qed
  next
    case DoWritable
    with run show ?thesis by (simp add: handleWrite_closing [OF os good cl])
  next
    case DoTake
    with run conn have "w' = put_conn c (C\<lparr>tc_inputBuffer := retrieveAll (tc_inputBuffer C)\<rparr>) w"
      by (simp add: retrieveAllAsString_eq [OF inb])
    with cl conn show ?thesis by (simp add: closing_def)
  qed
qed

lemma script_closing:
  assumes os: "write_contract os"
  shows "run (map (conn_exec os c) ops) w = Inr w' \<Longrightarrow> conn_good c l fd s w \<Longrightarrow>
    s \<in> {kConnected, kDisconnecting} \<Longrightarrow> list_all small_op ops \<Longrightarrow> closing c fd w \<Longrightarrow> closing c fd w'"
proof (induction ops arbitrary: s w)
  case Nil
  then show ?case by simp
next
  case (Cons op ops)
  then obtain v where v: "conn_exec os c op w = Inr v" "run (map (conn_exec os c) ops) v = Inr w'"
    by auto
  have small: "small_op op" using Cons.prems by simp
  note step = conn_exec_step [OF os small Cons.prems(2,3) v(1)]
  show ?case
    by (rule Cons.IH [OF v(2) conjunct1 [OF step] next_state_open [OF Cons.prems(3)] _
          closing_step [OF os small Cons.prems(2,3,5) v(1)]]) (use Cons.prems in simp)
qed

section \<open>The output drains\<close>

text \<open>
  A kernel that takes some byte of every write; and one that does so on one descriptor from some
  moment on, as it does when its send buffer has room whenever it reports the socket writable.
\<close>

definition write_progress :: "os \<Rightarrow> bool" where
  "write_progress os \<longleftrightarrow> (\<forall>h fd d. d \<noteq> [] \<longrightarrow> (\<exists>n>0. os_write os h fd d = Inr n))"

definition takes_bytes :: "os \<Rightarrow> c_int \<Rightarrow> event list \<Rightarrow> bool" where
  "takes_bytes os fd h \<longleftrightarrow> (\<forall>es d. d \<noteq> [] \<longrightarrow> (\<exists>n>0. os_write os (h @ es) fd d = Inr n))"

lemma takes_bytes_later: "takes_bytes os fd h \<Longrightarrow> takes_bytes os fd (h @ es)"
  by (simp add: takes_bytes_def)

lemma progress_takes: "write_progress os \<Longrightarrow> takes_bytes os fd h"
  by (simp add: takes_bytes_def write_progress_def)

lemma progress_heard:
  fixes w :: "'a cworld_scheme"
  assumes "write_progress os"
  shows "run (map (conn_exec os c) ops) w = Inr w' \<Longrightarrow> spec_out s (heard os c fd ops w) = spec_out s ops"
proof (induction ops arbitrary: s w)
  case (Cons op ops)
  then obtain v where v: "conn_exec os c op w = Inr v" "run (map (conn_exec os c) ops) v = Inr w'"
    by auto
  have "added s op = []" if "lost os c fd op w"
  proof (cases op)
    case (DoSend a d)
    with that have "\<forall>n. os_write os (trace w) fd d \<noteq> Inr n" by (auto simp: peer_gone_def)
    with assms have "d = []" unfolding write_progress_def by metis
    with DoSend show ?thesis by simp
  qed (use that in simp_all)
  with Cons.IH [OF v(2)] show ?case by (simp add: spec_out_heard [OF v(1)] spec_out_Cons del: heard.simps)
qed simp

text \<open>A writable report only adds to the history.\<close>

lemma handleWrite_grows:
  fixes w :: "'a cworld_scheme"
  assumes "handleWrite os c w = Inr w'"
  shows "\<exists>es. trace w' = trace w @ es"
proof -
  have queue: "\<exists>es. trace u = trace v @ es" if "queueInLoop os l f v = Inr u" for l f and u v :: "'a cworld_scheme"
    using that by (rule queueInLoop_frame) auto
  have notify: "\<exists>es. trace u = trace v @ es" if "notify_complete os c C v = Inr u" for C and u v :: "'a cworld_scheme"
    using that by (auto simp: notify_complete_def dest: queue split: option.splits)
  have shut: "\<exists>es. trace u = trace v @ es" if "finish_shutdown os c v = Inr u" for u v :: "'a cworld_scheme"
    using that by (auto simp: finish_shutdown_def shutdownInLoop_def shutdownWrite_def sys_shutdown_def
        Let_def emit_def log_msg_def split: if_split_asm)
  have hush: "\<exists>es. trace u = trace v @ es" if "disableWriting os p v = Inr u" for p and u v :: "'a cworld_scheme"
    using that by (rule Channel_interest_frame) (auto simp: ctl_frame_def)
  have step: "\<exists>es. trace u = trace v @ es" if "after_write os c C n v = Inr u" for C n and u v :: "'a cworld_scheme"
    using that
    by (auto simp: after_write_def Let_def dest!: hush notify shut split: if_split_asm)
  from assms show ?thesis
    by (auto simp: handleWrite_def writeFd_def sys_write_def emit_def log_msg_def Let_def dest!: step
        split: if_split_asm sum.splits)
qed

lemma out_stream_waiting:
  "conn_good c l fd s w \<Longrightarrow> out_stream c w = sent_on (trace w) fd @ waiting c w"
  by (auto simp: conn_good_def conn_ok_def shows_conn_def out_stream_def waiting_def)

lemma handleWrite_drains:
  assumes os: "write_contract os" "takes_bytes os fd (trace w)" and good: "conn_good c l fd s w"
    and s: "s \<in> {kConnected, kDisconnecting}" and inv: "loop_inv os l w"
  shows "\<exists>w'. handleWrite os c w = Inr w' \<and> conn_good c l fd s w' \<and> loop_inv os l w' \<and>
    out_stream c w' = out_stream c w \<and> length (waiting c w') \<le> length (waiting c w) - 1 \<and>
    takes_bytes os fd (trace w')"
proof -
  from good obtain C ch where C: "conn_ok c C ch w" "fin_ok C w" "tc_socket C = fd" "tc_state C = s"
      "tc_loop C = l"
    by (auto simp: conn_good_def)
  with inv have "loop_inv os (tc_loop C) w" by simp
  with C(1) obtain w' where w': "handleWrite os c w = Inr w'" "loop_inv os (tc_loop C) w'"
    by (rule handleWrite_total)
  from handleWrite_Inr [OF w'(1) C(1,2) os(1)] obtain C' ch' where
      C': "stream_step c C [] w C' ch' w'" "tc_state C' = tc_state C" "fin_ok C' w'" and
      less: "\<And>n. isWriting ch \<Longrightarrow>
        os_write os (trace w) (tc_socket C) (readable (tc_outputBuffer C)) = Inr n \<Longrightarrow>
        readable (tc_outputBuffer C') = drop n (readable (tc_outputBuffer C))"
    by metis
  have c: "conns w c = Some C" and c': "conns w' c = Some C'"
    using C(1) C'(1) by (simp_all add: conn_ok_def shows_conn_def stream_step_def)
  have stays: "out_stream c w' = out_stream c w" using C'(1) by (simp add: stream_step_def)
  obtain x where "sent_on (trace w') fd = sent_on (trace w) fd @ x"
    using C'(1) C(3) by (auto simp: stream_step_def)
  moreover have good': "conn_good c l fd s w'"
    using C C' same_setup_simps [of C C'] by (force simp: conn_good_def stream_step_def)
  ultimately have "x @ waiting c w' = waiting c w"
    using stays out_stream_waiting [OF good] out_stream_waiting [OF good'] by simp
  then have le: "length (waiting c w') \<le> length (waiting c w)" by (metis length_append le_add2)
  have "length (waiting c w') < length (waiting c w)" if "waiting c w \<noteq> []"
  proof -
    from that c have out: "readable (tc_outputBuffer C) \<noteq> []" by (simp add: waiting_def)
    then obtain n where "0 < n"
        "os_write os (trace w) (tc_socket C) (readable (tc_outputBuffer C)) = Inr n"
      using os(2) C(3) unfolding takes_bytes_def by (metis append_Nil2)
    moreover have "isWriting ch" using C(1,4) s out by (auto simp: conn_ok_def)
    ultimately show ?thesis using less [of n] out c c' by (simp add: waiting_def)
  qed
  with le have "length (waiting c w') \<le> length (waiting c w) - 1"
    by (cases "waiting c w = []") auto
  moreover have "takes_bytes os fd (trace w')"
    using handleWrite_grows [OF w'(1)] takes_bytes_later [OF os(2)] by auto
  ultimately show ?thesis using w' C(5) good' stays by auto
qed

lemma output_drains_ok:
  assumes os: "write_contract os"
  shows "takes_bytes os fd (trace w) \<Longrightarrow> conn_good c l fd s w \<Longrightarrow> s \<in> {kConnected, kDisconnecting} \<Longrightarrow>
    loop_inv os l w \<Longrightarrow> closing c fd w \<Longrightarrow> length (waiting c w) \<le> n \<Longrightarrow>
    \<exists>w'. run (replicate n (handleWrite os c)) w = Inr w' \<and> conn_good c l fd s w' \<and>
      waiting c w' = [] \<and> sent_on (trace w') fd = out_stream c w \<and> closing c fd w'"
proof (induction n arbitrary: w)
  case 0
  then show ?case by (simp add: out_stream_waiting)
next
  case (Suc n)
  from handleWrite_drains [OF os Suc.prems(1-4)] obtain v where
      v: "handleWrite os c w = Inr v" "conn_good c l fd s v" "loop_inv os l v"
        "out_stream c v = out_stream c w" "length (waiting c v) \<le> length (waiting c w) - 1"
        "takes_bytes os fd (trace v)"
    by blast
  have "closing c fd v" by (rule handleWrite_closing [OF os Suc.prems(2,5) v(1)])
  moreover have "length (waiting c v) \<le> n" using v(5) Suc.prems(6) by simp
  ultimately show ?case using Suc.IH [OF v(6,2) Suc.prems(3) v(3)] v(1,4) by auto
qed

section \<open>Properties\<close>

lemma fold_next_state:
  "fold (\<lambda>op s. next_state s op) ops kConnected =
     (if DoShutdown \<in> set ops then kDisconnecting else kConnected)"
proof -
  have stays: "fold (\<lambda>op s. next_state s op) ops kDisconnecting = kDisconnecting" for ops
  proof (induction ops)
    case (Cons op ops)
    then show ?case by (cases op) simp_all
  qed simp
  show ?thesis
  proof (induction ops)
    case (Cons op ops)
    then show ?case by (cases op) (simp_all add: stays)
  qed simp
qed

lemma script_connected:
  assumes os: "write_contract os"
    and good: "conn_good c l fd kConnected w" and inv: "loop_inv os l w"
    and room: "out_size c w + total_bytes ops < 2 ^ 63"
  obtains w' where "run (map (conn_exec os c) ops) w = Inr w'" and "loop_inv os l w'"
    and "conn_good c l fd (if DoShutdown \<in> set ops then kDisconnecting else kConnected) w'"
    and "out_stream c w' = out_stream c w @ spec_out kConnected (heard os c fd ops w)" and "closing c fd w'"
proof -
  have s: "kConnected \<in> {kConnected, kDisconnecting}" by simp
  from script_runs [OF os good s inv room] obtain w' where
      w': "run (map (conn_exec os c) ops) w = Inr w'" "loop_inv os l w'"
        "conn_good c l fd (fold (\<lambda>op s. next_state s op) ops kConnected) w'"
        "out_stream c w' = out_stream c w @ spec_out kConnected (heard os c fd ops w)"
    by blast
  have "small_op op" if "op \<in> set ops" for op
  proof -
    have "op_bytes op \<le> total_bytes ops" using that by (induction ops) auto
    with room show ?thesis by (cases op) simp_all
  qed
  then have "list_all small_op ops" by (simp add: list_all_iff)
  from script_closing [OF os w'(1) good s this closing_connected [OF good]]
  have "closing c fd w'" .
  with w' that show ?thesis by (simp add: fold_next_state)
qed

lemma shut_iff:
  assumes "conn_good c l fd s w" and "closing c fd w"
  shows "shut_on (trace w) fd \<longleftrightarrow> s = kDisconnecting \<and> waiting c w = [] \<or>
    s = kDisconnected \<and> shut_on (trace w) fd"
  using assms by (auto simp: conn_good_def conn_ok_def shows_conn_def fin_ok_def closing_def waiting_def)

text \<open>
  A whole script: what it adds to the stream, when the half close comes, and what enough writable
  reports do once the kernel takes bytes.
\<close>

lemma script_drains:
  assumes "write_contract os" and "conn_good c l fd kConnected w" and "loop_inv os l w"
    and "out_size c w + total_bytes ops < 2 ^ 63"
  shows "\<exists>w1. run (map (conn_exec os c) ops) w = Inr w1 \<and>
    out_stream c w1 = out_stream c w @ spec_out kConnected (heard os c fd ops w) \<and>
    (shut_on (trace w1) fd \<longleftrightarrow> DoShutdown \<in> set ops \<and> waiting c w1 = []) \<and>
    (takes_bytes os fd (trace w1) \<longrightarrow> (\<forall>n \<ge> length (waiting c w1).
       \<exists>w2. run (replicate n (handleWrite os c)) w1 = Inr w2 \<and> waiting c w2 = [] \<and>
         sent_on (trace w2) fd = out_stream c w @ spec_out kConnected (heard os c fd ops w) \<and>
         (shut_on (trace w2) fd \<longleftrightarrow> DoShutdown \<in> set ops)))"
proof (rule script_connected [OF assms])
  fix w1
  let ?s = "if DoShutdown \<in> set ops then kDisconnecting else kConnected"
  assume run: "run (map (conn_exec os c) ops) w = Inr w1" and w1: "conn_good c l fd ?s w1"
      "loop_inv os l w1" "closing c fd w1"
      "out_stream c w1 = out_stream c w @ spec_out kConnected (heard os c fd ops w)"
  have s: "?s \<in> {kConnected, kDisconnecting}" by simp
  have "\<exists>w2. run (replicate n (handleWrite os c)) w1 = Inr w2 \<and> waiting c w2 = [] \<and>
      sent_on (trace w2) fd = out_stream c w1 \<and> (shut_on (trace w2) fd \<longleftrightarrow> DoShutdown \<in> set ops)"
    if "takes_bytes os fd (trace w1)" "length (waiting c w1) \<le> n" for n
  proof -
    from output_drains_ok [OF assms(1) that(1) w1(1) s w1(2,3) that(2)] obtain w2 where
        w2: "run (replicate n (handleWrite os c)) w1 = Inr w2" "conn_good c l fd ?s w2"
          "waiting c w2 = []" "sent_on (trace w2) fd = out_stream c w1" "closing c fd w2"
      by blast
    with shut_iff [OF w2(2,5)] show ?thesis by (auto split: if_split_asm)
  qed
  moreover have "shut_on (trace w1) fd \<longleftrightarrow> DoShutdown \<in> set ops \<and> waiting c w1 = []"
    using shut_iff [OF w1(1,3)] by (auto split: if_split_asm)
  ultimately show ?thesis using run w1(4) by auto
qed

text \<open>
  C17 (a half close is neither early nor lost). From a connected connection, after every script of
  sends, shutdowns, writable reports and input reads, whatever the kernel answers, the write side of the socket is shut exactly
  when a shutdown was asked for and the output buffer is empty.
\<close>

theorem half_close_exact:
  assumes "write_contract os"
    and "conn_good c l fd kConnected w" and "loop_inv os l w"
    and "out_size c w + total_bytes ops < 2 ^ 63"
  shows "\<exists>w' C. run (map (conn_exec os c) ops) w = Inr w' \<and> conns w' c = Some C \<and>
    (shut_on (trace w') fd \<longleftrightarrow> DoShutdown \<in> set ops \<and> readable (tc_outputBuffer C) = [])"
proof (rule script_connected [OF assms])
  fix w'
  assume run: "run (map (conn_exec os c) ops) w = Inr w'" and cl: "closing c fd w'"
    and good: "conn_good c l fd (if DoShutdown \<in> set ops then kDisconnecting else kConnected) w'"
  from good obtain C where "conns w' c = Some C" by (auto simp: conn_good_def conn_ok_def shows_conn_def)
  with run shut_iff [OF good cl] show ?thesis by (auto simp: waiting_def split: if_splits)
qed

text \<open>Ten bytes to a kernel that takes four: the close waits for two writable reports.\<close>

theorem half_close_exact_witness:
  "\<exists>w' C. run (map (conn_exec demo_os 7) [DoSend 100 [1, 2, 3, 4, 5, 6, 7, 8, 9, 10], DoShutdown,
        DoWritable, DoWritable]) (demo_world 1) = Inr w' \<and> conns w' 7 = Some C \<and>
     (shut_on (trace w') 9 \<longleftrightarrow> readable (tc_outputBuffer C) = [])"
  using half_close_exact [OF demo_os_write demo_conn_good
      demo_loop_inv [OF demo_os_epoll_ctl], of "[DoSend 100 [1, 2, 3, 4, 5, 6, 7, 8, 9, 10], DoShutdown,
        DoWritable, DoWritable]"]
  by auto

text \<open>
  C5 (the output drains). Over a kernel that takes at least one byte of every write, after any script from a
  connected connection, as many writable reports as there are bytes waiting (or more) run without
  failure; then every byte of every accepted send has been handed to the kernel, in order, and the
  write side is shut if and only if the script asked for it.
\<close>

theorem output_drains:
  assumes "write_contract os" and "write_progress os"
    and "conn_good c l fd kConnected w" and "loop_inv os l w"
    and "out_size c w + total_bytes ops < 2 ^ 63"
  shows "\<exists>w1. run (map (conn_exec os c) ops) w = Inr w1 \<and>
    (\<forall>n \<ge> length (waiting c w1). \<exists>w2. run (replicate n (handleWrite os c)) w1 = Inr w2 \<and>
       waiting c w2 = [] \<and>
       sent_on (trace w2) fd = out_stream c w @ spec_out kConnected ops \<and>
       (shut_on (trace w2) fd \<longleftrightarrow> DoShutdown \<in> set ops))"
  using script_drains [OF assms(1,3-5)] progress_heard [OF assms(2)] progress_takes [OF assms(2)]
  by fastforce

lemma demo_os_progress: "write_progress demo_os"
  unfolding write_progress_def
proof (intro allI impI)
  fix h fd and d :: bytes
  assume "d \<noteq> []"
  then show "\<exists>n>0. os_write demo_os h fd d = Inr n"
    by (intro exI [of _ "min 4 (length d)"]) (simp add: demo_os_def)
qed

theorem output_drains_witness:
  "\<exists>w1 w2. run (map (conn_exec demo_os 7) [DoSend 100 [1, 2, 3, 4, 5, 6], DoShutdown]) (demo_world 1)
       = Inr w1 \<and>
     run (replicate (length (waiting 7 w1)) (handleWrite demo_os 7)) w1 = Inr w2 \<and>
     sent_on (trace w2) 9 = [1, 2, 3, 4, 5, 6] \<and> shut_on (trace w2) 9"
  using output_drains [OF demo_os_write demo_os_progress demo_conn_good
      demo_loop_inv [OF demo_os_epoll_ctl], of "[DoSend 100 [1, 2, 3, 4, 5, 6], DoShutdown]"]
  by auto

end
