(* ===== verification/EchoServer.thy ===== *)
theory EchoServer
  imports ServerLifecycle Draining
begin

text \<open>
  The example server (\<open>src/example/testserver.cc\<close>): the callbacks it registers, and what they
  make of the library. The bytes of a first message, and nothing else, come back before the write
  side is shut.
\<close>

section \<open>The server\<close>

text \<open>The two functions the constructor registers, and the address of the local \<open>msg\<close>.\<close>

definition onConnection_fn :: user_fn where
  "onConnection_fn = 0"

definition onMessage_fn :: user_fn where
  "onMessage_fn = 1"

text \<open>Both branches of \<open>onConnection\<close> only write an information line.\<close>

definition EchoServer_onConnection :: "conn_id \<Rightarrow> 'a sworld_scheme \<Rightarrow> api_call list" where
  "EchoServer_onConnection c w = []"

definition EchoServer_onMessage :: "ptr \<Rightarrow> conn_id \<Rightarrow> 'a sworld_scheme \<Rightarrow> api_call list" where
  "EchoServer_onMessage a c w =
     (case conns w c of
        None \<Rightarrow> []
      | Some C \<Rightarrow>
          let msg = readable (tc_inputBuffer C) in [RetrieveAllAsString c, Send c a msg, Shutdown c])"

fun echo_user :: "ptr \<Rightarrow> user_fn \<Rightarrow> call \<Rightarrow> 'a sworld_scheme \<Rightarrow> api_call list" where
  "echo_user a f (OnConnection c) w = (if f = onConnection_fn then EchoServer_onConnection c w else [])"
| "echo_user a f (OnMessage c t) w = (if f = onMessage_fn then EchoServer_onMessage a c w else [])"
| "echo_user a f _ w = []"

definition EchoServer_ctor ::
  "os \<Rightarrow> loop_id option \<Rightarrow> sockaddr_in \<Rightarrow> string \<Rightarrow> ptr \<Rightarrow> 'a sworld_scheme
     \<Rightarrow> failure + 'a sworld_scheme" where
  "EchoServer_ctor os loop addr name p w =
     bnd (TcpServer_ctor os loop addr name False p w) (\<lambda>w.
     Inr (setMessageCalback onMessage_fn (setConnectionCallback onConnection_fn w)))"

section \<open>A message is one script of the connection\<close>

lemma conn_good_calls [simp]: "conn_good c l fd s (w\<lparr>calls := k\<rparr>) = conn_good c l fd s w"
  by (simp add: conn_good_def conn_ok_def shows_conn_def fin_ok_def isInLoopThread_def)

lemma out_calls [simp]:
  "out_size c (w\<lparr>calls := k\<rparr>) = out_size c w" "out_stream c (w\<lparr>calls := k\<rparr>) = out_stream c w"
  by (simp_all add: out_size_def out_stream_def split: option.split)

lemma loop_inv_calls [simp]: "loop_inv os l (w\<lparr>calls := k\<rparr>) = loop_inv os l w"
  by (rule loop_inv_cong) (simp_all add: loop_poller_def)

definition echo_script :: "ptr \<Rightarrow> bytes \<Rightarrow> conn_op list" where
  "echo_script a msg = [DoTake, DoSend a msg, DoShutdown]"

lemma echo_onMessage_script:
  "conns w c = Some C \<Longrightarrow> run (map (exec_api os) (echo_user a onMessage_fn (OnMessage c t) w)) v =
     run (map (conn_exec os c) (echo_script a (readable (tc_inputBuffer C)))) v"
  by (simp add: EchoServer_onMessage_def echo_script_def Let_def fun_eq_iff)

text \<open>Bytes arriving on a good connection leave it good, with the bytes in its input buffer.\<close>

lemma input_arrives:
  fixes w v :: "'a cworld_scheme"
  assumes ok: "conn_ok c C ch w" "fin_ok C w" and b: "buffer_inv b"
    and v_def: "v = put_conn c (C\<lparr>tc_inputBuffer := b\<rparr>) (emit (EvReadv fd iov r) w)"
  shows "conn_good c (tc_loop C) (tc_socket C) (tc_state C) v"
    and "out_stream c v = out_stream c w" and "out_size c v = out_size c w"
    and "loop_inv os l v = loop_inv os l w" and "conns v c = Some (C\<lparr>tc_inputBuffer := b\<rparr>)"
proof -
  have c: "conns w c = Some C" using ok(1) by (simp add: conn_ok_def shows_conn_def)
  have trace: "sent_on (trace v) x = sent_on (trace w) x" "shut_on (trace v) x = shut_on (trace w) x"
    "interest (trace v) ep = interest (trace w) ep" for x ep
    by (simp_all add: v_def put_conn_def emit_def table_append shut_on_def)
  show "conns v c = Some (C\<lparr>tc_inputBuffer := b\<rparr>)" by (simp add: v_def)
  then show "out_stream c v = out_stream c w" "out_size c v = out_size c w"
    using c trace by (simp_all add: out_stream_def out_size_def)
  show "loop_inv os l v = loop_inv os l w"
    by (rule loop_inv_cong) (simp_all add: trace, simp_all add: v_def loop_poller_def put_conn_def)
  have "conn_ok c (C\<lparr>tc_inputBuffer := b\<rparr>) ch v"
    using ok(1) b by (simp add: conn_ok_def shows_conn_def v_def put_conn_def isInLoopThread_def)
  moreover have "fin_ok (C\<lparr>tc_inputBuffer := b\<rparr>) v" using ok(2) trace by (simp add: fin_ok_def)
  ultimately show "conn_good c (tc_loop C) (tc_socket C) (tc_state C) v"
    unfolding conn_good_def by force
qed

text \<open>A report of bytes runs that script, on a connection with the bytes in place.\<close>

lemma echo_message:
  fixes w :: "'a sworld_scheme"
  assumes "readv_contract os" and ok: "conn_ok c C ch w" "fin_ok C w"
    and f: "tc_messageCallback C = Some onMessage_fn" and inv: "loop_inv os l w"
    and inroom: "length (buffer_vec (tc_inputBuffer C)) + extrabuf_size < 2 ^ 63"
    and d: "os_readv os (trace w) (tc_socket C) (read_iov (tc_inputBuffer C)) = Inr d" "d \<noteq> []"
  obtains v where "handleRead (echo_user a) close os c t w =
      run (map (conn_exec os c) (echo_script a (readable (tc_inputBuffer C) @ d))) v"
    and "conn_good c (tc_loop C) (tc_socket C) (tc_state C) v" and "loop_inv os l v"
    and "out_stream c v = out_stream c w" and "out_size c v = out_size c w"
    and "waiting c v = waiting c w"
    and "trace v = trace w @ [EvReadv (tc_socket C) (read_iov (tc_inputBuffer C)) (Inr d)]"
proof -
  from handleRead_ok [OF assms(1) ok(1) inroom, of "echo_user a" close t] d obtain b where
      b: "buffer_inv b" "readable b = readable (tc_inputBuffer C) @ d"
        "handleRead (echo_user a) close os c t w =
          (let v = put_conn c (C\<lparr>tc_inputBuffer := b\<rparr>)
             (emit (EvReadv (tc_socket C) (read_iov (tc_inputBuffer C)) (Inr d)) w)
           in call_user (echo_user a) os (tc_messageCallback C) (OnMessage c t) v)"
    by auto
  define v where "v = put_conn c (C\<lparr>tc_inputBuffer := b\<rparr>)
    (emit (EvReadv (tc_socket C) (read_iov (tc_inputBuffer C)) (Inr d)) w)"
  note arrives = input_arrives [OF ok b(1) v_def]
  let ?v = "v\<lparr>calls := calls v @ [OnMessage c t]\<rparr>"
  have "handleRead (echo_user a) close os c t w =
      run (map (conn_exec os c) (echo_script a (readable b))) ?v"
    using b(3) echo_onMessage_script [OF arrives(5), where os = os and a = a and t = t]
    by (simp add: f call_user_def v_def [symmetric] del: echo_user.simps)
  moreover have "waiting c ?v = waiting c w"
    using arrives(5) ok(1) by (simp add: waiting_def conn_ok_def shows_conn_def)
  moreover have "trace ?v = trace w @ [EvReadv (tc_socket C) (read_iov (tc_inputBuffer C)) (Inr d)]"
    by (simp add: v_def emit_def put_conn_def)
  ultimately show ?thesis
    by (intro that [of ?v, unfolded b(2) [symmetric]]) (use arrives inv in simp_all)
qed

section \<open>Properties\<close>

lemma echo_script_effect [simp]:
  "spec_out kConnected (echo_script a msg) = msg" "spec_out kDisconnecting (echo_script a msg) = []"
  "total_bytes (echo_script a msg) = length msg" "DoShutdown \<in> set (echo_script a msg)"
  "fold (\<lambda>op s. next_state s op) (echo_script a msg) kDisconnecting = kDisconnecting"
  by (simp_all add: echo_script_def)

lemma disconnecting_silent: "spec_out kDisconnecting ops = []"
proof (induction ops)
  case (Cons op ops)
  then show ?case by (cases op) simp_all
qed simp

text \<open>The send of the script is lost exactly if nothing waits and the peer is gone.\<close>

lemma heard_echo:
  fixes v :: "'a cworld_scheme"
  assumes "conn_good c l fd kConnected v" and "run (map (conn_exec os c) (echo_script a msg)) v = Inr w'"
  shows "spec_out kConnected (heard os c fd (echo_script a msg) v) =
    (if waiting c v = [] \<and> peer_gone os fd msg v then [] else msg)"
proof -
  from assms(2) obtain v1 v2 where v1: "conn_exec os c DoTake v = Inr v1"
      and v2: "conn_exec os c (DoSend a msg) v1 = Inr v2" "conn_exec os c DoShutdown v2 = Inr w'"
    by (auto simp: echo_script_def)
  from assms(1) obtain C where C: "conns v c = Some C" "buffer_inv (tc_inputBuffer C)"
    by (auto simp: conn_good_def conn_ok_def shows_conn_def)
  from v1 have "v1 = put_conn c (C\<lparr>tc_inputBuffer := retrieveAll (tc_inputBuffer C)\<rparr>) v"
    by (simp add: C retrieveAllAsString_eq)
  then have "waiting c v1 = waiting c v" "trace v1 = trace v" using C(1) by (simp_all add: waiting_def)
  then have "lost os c fd (DoSend a msg) v1 = (waiting c v = [] \<and> peer_gone os fd msg v)"
    by (simp add: peer_gone_def)
  then show ?thesis
    by (simp add: echo_script_def spec_out_heard [OF v1] spec_out_heard [OF v2(1)] spec_out_heard [OF v2(2)]
        del: heard.simps lost.simps(1)) simp
qed

text \<open>
  C16 (the echo). When bytes arrive on a connected connection of the example server, the handler
  does not fail, whatever the kernel answers to its write. If nothing was waiting to be written and
  the kernel refuses the write because the peer is gone, nothing is added to the output; otherwise
  everything the input buffer held and the bytes that arrived are added to it, sent or buffered,
  after what was on its way before. The write side is shut exactly if nothing is left waiting. And if
  from then on the kernel takes some byte of every write to the socket, as many writable reports as
  there are bytes waiting (or more) hand it all of them and leave the write side shut.
\<close>

theorem echo_comes_back:
  fixes w :: "'a sworld_scheme"
  assumes "readv_contract os" and "write_contract os"
    and "conn_ok c C ch w" and "fin_ok C w" and "tc_state C = kConnected"
    and "tc_messageCallback C = Some onMessage_fn" and "loop_inv os (tc_loop C) w"
    and "os_readv os (trace w) (tc_socket C) (read_iov (tc_inputBuffer C)) = Inr d" and "d \<noteq> []"
    and "length (buffer_vec (tc_inputBuffer C)) + extrabuf_size < 2 ^ 63"
    and "out_size c w + length (readable (tc_inputBuffer C) @ d) < 2 ^ 63"
  shows "let fd = tc_socket C; msg = readable (tc_inputBuffer C) @ d;
      r = os_write os (trace w @ [EvReadv fd (read_iov (tc_inputBuffer C)) (Inr d)]) fd msg;
      echo = (if readable (tc_outputBuffer C) = [] \<and> (r = Inl EPIPE \<or> r = Inl ECONNRESET) then [] else msg)
    in \<exists>w1. handleRead (echo_user a) close os c t w = Inr w1 \<and>
      out_stream c w1 = out_stream c w @ echo \<and> (shut_on (trace w1) fd \<longleftrightarrow> waiting c w1 = []) \<and>
      (takes_bytes os fd (trace w1) \<longrightarrow> (\<forall>n \<ge> length (waiting c w1).
         \<exists>w2. run (replicate n (handleWrite os c)) w1 = Inr w2 \<and>
           sent_on (trace w2) fd = out_stream c w @ echo \<and> shut_on (trace w2) fd))"
proof (rule echo_message [OF assms(1,3,4,6,7,10,8,9)])
  fix v
  let ?msg = "readable (tc_inputBuffer C) @ d" and ?fd = "tc_socket C"
  assume run: "handleRead (echo_user a) close os c t w =
      run (map (conn_exec os c) (echo_script a ?msg)) v"
    and v: "conn_good c (tc_loop C) ?fd (tc_state C) v" "loop_inv os (tc_loop C) v"
      "out_stream c v = out_stream c w" "out_size c v = out_size c w" "waiting c v = waiting c w"
      "trace v = trace w @ [EvReadv ?fd (read_iov (tc_inputBuffer C)) (Inr d)]"
  have good: "conn_good c (tc_loop C) ?fd kConnected v" using v(1) assms(5) by simp
  have room: "out_size c v + total_bytes (echo_script a ?msg) < 2 ^ 63"
    using assms(11) v(4) by simp
  have "waiting c w = readable (tc_outputBuffer C)"
    using assms(3) by (simp add: waiting_def conn_ok_def shows_conn_def)
  then have gone: "(waiting c v = [] \<and> peer_gone os ?fd ?msg v) =
      (readable (tc_outputBuffer C) = [] \<and>
       (let r = os_write os (trace w @ [EvReadv ?fd (read_iov (tc_inputBuffer C)) (Inr d)]) ?fd ?msg
        in r = Inl EPIPE \<or> r = Inl ECONNRESET))"
    by (simp add: v(5,6) peer_gone_def Let_def)
  from script_drains [OF assms(2) good v(2) room] heard_echo [OF good] show ?thesis
    unfolding Let_def run v(3) [symmetric] gone [unfolded Let_def, symmetric] by fastforce
qed

text \<open>Three bytes arrive at the connection of the demonstration server, and come back.\<close>

lemma named_conn_ok: "conn_ok 7 named_conn demo_channel (demo_sworld 1)"
  using demo_conn_ok by (simp add: conn_ok_def shows_conn_def named_conn_def isInLoopThread_def)

lemma demo_arrival: "os_readv demo_os h fd (read_iov (Buffer_ctor kInitialSize)) = Inr [10, 20, 30]"
  by (simp add: demo_os_def read_iov_def wirterableBytes_def buffer_size_def Buffer_ctor_def
      kCheapPrepend_def kInitialSize_def extrabuf_size_def)

lemma named_conn_bufs:
  "tc_inputBuffer named_conn = Buffer_ctor kInitialSize"
  "tc_outputBuffer named_conn = Buffer_ctor kInitialSize" "tc_messageCallback named_conn = Some 1"
  by (simp_all add: named_conn_def)

lemma demo_input: "length (buffer_vec (Buffer_ctor kInitialSize)) + extrabuf_size < 9223372036854775808"
  by (simp add: Buffer_ctor_def kCheapPrepend_def kInitialSize_def extrabuf_size_def)

theorem echo_comes_back_witness:
  "\<exists>w1 w2. handleRead (echo_user 100) (run_close demo_os) demo_os 7 5 (demo_sworld 1) = Inr w1 \<and>
     run (replicate (length (waiting 7 w1)) (handleWrite demo_os 7)) w1 = Inr w2 \<and>
     sent_on (trace w2) 9 = [10, 20, 30] \<and> shut_on (trace w2) 9"
proof -
  have fin: "fin_ok named_conn (demo_sworld 1)" by (simp add: fin_ok_def shut_on_def)
  have out: "out_stream 7 (demo_sworld 1) = []" "out_size 7 (demo_sworld 1) = 1032"
    by (simp_all add: out_stream_def out_size_def named_conn_bufs)
      (simp_all add: Buffer_ctor_def kCheapPrepend_def kInitialSize_def)
  have answer: "os_write demo_os h fd x = Inr (min 4 (length x))" for h fd x
    by (simp add: demo_os_def)
  have takes: "takes_bytes demo_os fd h" for fd h by (rule progress_takes [OF demo_os_progress])
  show ?thesis
    using echo_comes_back [OF demo_os_readv demo_os_write
        named_conn_ok fin, where d = "[10, 20, 30]" and a = 100 and t = 5 and close = "run_close demo_os"]
      demo_sworld_loop_inv [OF demo_os_epoll_ctl] demo_arrival
      answer takes
    by (auto simp: named_conn_bufs onMessage_fn_def out demo_input Let_def simp del: One_nat_def)
qed

text \<open>
  The echo answers once. After its shutdown the example server still reads: bytes that arrive
  then are taken from the connection without failure and nothing is added to the output.
\<close>

theorem echo_answers_once:
  fixes w :: "'a sworld_scheme"
  assumes "readv_contract os" and "write_contract os"
    and "conn_ok c C ch w" and "fin_ok C w" and "tc_state C = kDisconnecting"
    and "tc_messageCallback C = Some onMessage_fn" and "loop_inv os (tc_loop C) w"
    and "os_readv os (trace w) (tc_socket C) (read_iov (tc_inputBuffer C)) = Inr d" and "d \<noteq> []"
    and "length (buffer_vec (tc_inputBuffer C)) + extrabuf_size < 2 ^ 63"
    and "out_size c w + length (readable (tc_inputBuffer C) @ d) < 2 ^ 63"
  shows "\<exists>w1. handleRead (echo_user a) close os c t w = Inr w1 \<and>
    out_stream c w1 = out_stream c w \<and> loop_inv os (tc_loop C) w1 \<and>
    conn_good c (tc_loop C) (tc_socket C) kDisconnecting w1"
proof (rule echo_message [OF assms(1,3,4,6,7,10,8,9)])
  fix v
  let ?msg = "readable (tc_inputBuffer C) @ d" and ?fd = "tc_socket C"
  assume run: "handleRead (echo_user a) close os c t w =
      run (map (conn_exec os c) (echo_script a ?msg)) v"
    and v: "conn_good c (tc_loop C) ?fd (tc_state C) v" "loop_inv os (tc_loop C) v"
      "out_stream c v = out_stream c w" "out_size c v = out_size c w"
  have good: "conn_good c (tc_loop C) ?fd kDisconnecting v" using v(1) assms(5) by simp
  have room: "out_size c v + total_bytes (echo_script a ?msg) < 2 ^ 63"
    using assms(11) v(4) by simp
  have "spec_out kDisconnecting (heard os c ?fd ops u) = []" for ops and u :: "'a sworld_scheme"
    by (rule disconnecting_silent)
  with script_runs [OF assms(2) good _ v(2) room] run v(3) show ?thesis by auto
qed

text \<open>The same bytes when the server has already said its last.\<close>

definition late_conn :: tcp_connection where
  "late_conn = setState kDisconnecting named_conn"

theorem echo_answers_once_witness:
  "\<exists>w1. handleRead (echo_user 100) (run_close demo_os) demo_os 7 5 (put_conn 7 late_conn (demo_sworld 1))
       = Inr w1 \<and> out_stream 7 w1 = []"
proof -
  let ?w = "put_conn 7 late_conn (demo_sworld 1)"
  have C: "tc_inputBuffer late_conn = Buffer_ctor kInitialSize" "tc_socket late_conn = 9"
      "tc_outputBuffer late_conn = Buffer_ctor kInitialSize" "tc_messageCallback late_conn = Some 1"
      "tc_state late_conn = kDisconnecting" "tc_loop late_conn = 0"
    by (simp_all add: late_conn_def named_conn_bufs) (simp_all add: setState_def named_conn_bufs)
  have ok: "conn_ok 7 late_conn demo_channel ?w"
    using named_conn_ok
    by (simp add: conn_ok_def shows_conn_def late_conn_def setState_def put_conn_def isInLoopThread_def)
  have fin: "fin_ok late_conn ?w" by (simp add: fin_ok_def shut_on_def)
  have out: "out_stream 7 ?w = []" "out_size 7 ?w = 1032"
    by (simp_all add: out_stream_def out_size_def C)
      (simp_all add: Buffer_ctor_def kCheapPrepend_def kInitialSize_def)
  show ?thesis
    using echo_answers_once [OF demo_os_readv demo_os_write ok fin,
        where d = "[10, 20, 30]" and a = 100 and t = 5 and close = "run_close demo_os"]
      demo_sworld_loop_inv [OF demo_os_epoll_ctl] demo_arrival
    by (auto simp: C onMessage_fn_def out demo_input simp del: One_nat_def)
qed

end
