(* ===== verification/EchoMain.thy ===== *)
theory EchoMain
  imports EchoServer WellTyped
begin

text \<open>
  The \<open>main\<close> of the example (\<open>src/example/testserver.cc\<close>): a loop, an address, a server on
  it, \<open>start\<close>, \<open>loop()\<close>, and the destructors in reverse order. The program has one thread,
  so the rounds of the one loop are all it does; not returning is \<open>None\<close>.
\<close>

section \<open>The program\<close>

text \<open>\<open>start\<close> forwards to the server; no thread-init callback is set, and no thread is asked for.\<close>

definition EchoServer_start ::
  "bool \<Rightarrow> os \<Rightarrow> (nat \<Rightarrow> tid \<times> loop_id \<times> ptr) \<Rightarrow> 'a sworld_scheme \<Rightarrow> failure + 'a sworld_scheme" where
  "EchoServer_start = TcpServer_start (\<lambda>l w. Inr w)"

definition echo_setup ::
  "(string \<Rightarrow> u32) \<Rightarrow> bool \<Rightarrow> os \<Rightarrow> (nat \<Rightarrow> tid \<times> loop_id \<times> ptr) \<Rightarrow> loop_id \<Rightarrow> ptr \<Rightarrow> ptr
     \<Rightarrow> 'a sworld_scheme \<Rightarrow> failure + 'a sworld_scheme" where
  "echo_setup inet_addr use_poll os supply l p q w =
     bnd (EventLoop_ctor use_poll os l p w) (\<lambda>w.
     let addr = InetAddress_ctor inet_addr 8000 ''127.0.0.1''
     in bnd (EchoServer_ctor os (Some l) addr ''EchoServer-01'' q w)
          (EchoServer_start use_poll os supply))"

text \<open>What follows \<open>loop()\<close>: the destructors of server and loop; \<open>order\<close> is the order of the map.\<close>

definition echo_teardown ::
  "ptr \<Rightarrow> os \<Rightarrow> ((string \<rightharpoonup> conn_id) \<Rightarrow> string list) \<Rightarrow> loop_id \<Rightarrow> 'a sworld_scheme
     \<Rightarrow> failure + 'a sworld_scheme" where
  "echo_teardown a os order l w = bnd (TcpServer_dtor (echo_user a) os order w) (EventLoop_dtor os l)"

definition echo_main ::
  "(string \<Rightarrow> u32) \<Rightarrow> bool \<Rightarrow> os \<Rightarrow> (nat \<Rightarrow> tid \<times> loop_id \<times> ptr) \<Rightarrow> loop_id \<Rightarrow> ptr \<Rightarrow> ptr \<Rightarrow> ptr
     \<Rightarrow> ('a sworld_scheme \<Rightarrow> conn_id \<times> ptr) \<Rightarrow> u32 \<Rightarrow> ((string \<rightharpoonup> conn_id) \<Rightarrow> string list)
     \<Rightarrow> 'a sworld_scheme \<Rightarrow> (failure + 'a sworld_scheme) option" where
  "echo_main inet_addr use_poll os supply l p q a fresh len order w =
     (case echo_setup inet_addr use_poll os supply l p q w of
        Inl e \<Rightarrow> Some (Inl e)
      | Inr w \<Rightarrow>
          map_option (\<lambda>r. bnd r (echo_teardown a os order l))
            (EventLoop_loop (server_round (echo_user a) os fresh len l) l w))"

section \<open>A loop nobody quits\<close>

text \<open>A body that keeps the flag clear: the loop ends exactly by the first round that fails.\<close>

lemma while_fails:
  assumes "while_not_quit body l w = Some r"
  shows "\<forall>e. r = Inl e \<longrightarrow> running l w \<longrightarrow> (\<exists>n. run (replicate n body) w = Inl e) \<or>
    (\<exists>n u. run (replicate n body) w = Inr u \<and> \<not> running l u)"
proof (rule while_not_quit.raw_induct [OF _ assms], intro allI impI)
  fix rec :: "(('a, 'b) lworld_scheme \<Rightarrow> failure + ('a, 'b) lworld_scheme) \<Rightarrow> loop_id
      \<Rightarrow> ('a, 'b) lworld_scheme \<Rightarrow> (failure + ('a, 'b) lworld_scheme) option"
    and body l w r e
  assume IH: "\<And>body l w r. rec body l w = Some r \<Longrightarrow>
        \<forall>e. r = Inl e \<longrightarrow> running l w \<longrightarrow> (\<exists>n. run (replicate n body) w = Inl e) \<or>
          (\<exists>n u. run (replicate n body) w = Inr u \<and> \<not> running l u)"
    and step: "(case get_loop l w of Inl e \<Rightarrow> Some (Inl e)
        | Inr L \<Rightarrow> if el_quit L then Some (Inr w)
            else case body w of Inl e \<Rightarrow> Some (Inl e) | Inr w' \<Rightarrow> rec body l w') = Some r"
    and r: "r = Inl e" and runs: "running l w"
  from runs obtain L where L: "loops w l = Some L" "\<not> el_quit L" by (auto simp: running_def)
  show "(\<exists>n. run (replicate n body) w = Inl e) \<or>
      (\<exists>n u. run (replicate n body) w = Inr u \<and> \<not> running l u)"
  proof (cases "body w")
    case (Inl e')
    with step r L have "run (replicate 1 body) w = Inl e" by simp
    then show ?thesis by blast
  next
    case (Inr v)
    with step L have rec: "rec body l v = Some r" by simp
    have next_n: "run (replicate (Suc n) body) w = run (replicate n body) v" for n
      using Inr by simp
    show ?thesis
    proof (cases "running l v")
      case False
      with next_n [of 0] have "run (replicate 1 body) w = Inr v \<and> \<not> running l v" by simp
      then show ?thesis by blast
    next
      case True
      with IH [OF rec] r next_n show ?thesis by metis
    qed
  qed
qed

lemma replicate_keeps:
  assumes "\<And>v v'. P v \<Longrightarrow> body v = Inr v' \<Longrightarrow> P v'" and "P w" and "run (replicate n body) w = Inr u"
  shows "P u"
  using assms(3,2) by (rule run_invariant) (auto intro: assms(1))

lemma while_forever:
  assumes keeps: "\<And>v v'. P v \<Longrightarrow> body v = Inr v' \<Longrightarrow> P v'" and runs: "\<And>v. P v \<Longrightarrow> running l v"
    and P: "P w"
  shows "while_not_quit body l w \<noteq> Some (Inr w')"
    and "while_not_quit body l w = None \<longleftrightarrow> (\<forall>n. \<exists>u. run (replicate n body) w = Inr u)"
proof -
  have all: "running l u" if "run (replicate n body) w = Inr u" for n u
    by (rule runs) (rule replicate_keeps [where P = P, OF keeps P that])
  show never: "while_not_quit body l w \<noteq> Some (Inr w')" for w'
  proof
    assume "while_not_quit body l w = Some (Inr w')"
    with while_returns obtain n where "after_rounds body l n w w'" by blast
    then have "run (replicate n body) w = Inr w'" "stopped l w'" by (simp_all add: after_rounds_def)
    with all [of n w'] show False by (auto simp: running_def stopped_def)
  qed
  have fails: "\<exists>e'. while_not_quit body l v = Some (Inl e')"
    if "run (replicate n body) v = Inl e" "P v" for n v e
    using that
  proof (induction n arbitrary: v)
    case 0
    then show ?case by simp
  next
    case (Suc n)
    obtain L where L: "loops v l = Some L" "\<not> el_quit L"
      using runs [OF Suc.prems(2)] by (auto simp: running_def)
    show ?case
    proof (cases "body v")
      case (Inl e')
      with L show ?thesis by (subst while_not_quit.simps) simp
    next
      case (Inr x)
      with Suc.IH [of x] Suc.prems keeps [OF Suc.prems(2) Inr] L show ?thesis
        by (subst while_not_quit.simps) simp
    qed
  qed
  show "while_not_quit body l w = None \<longleftrightarrow> (\<forall>n. \<exists>u. run (replicate n body) w = Inr u)"
  proof
    assume none: "while_not_quit body l w = None"
    show "\<forall>n. \<exists>u. run (replicate n body) w = Inr u"
    proof
      fix n
      show "\<exists>u. run (replicate n body) w = Inr u"
        using fails [OF _ P, of n] none by (cases "run (replicate n body) w") auto
    qed
  next
    assume ok: "\<forall>n. \<exists>u. run (replicate n body) w = Inr u"
    show "while_not_quit body l w = None"
    proof (cases "while_not_quit body l w")
      case (Some r)
      then obtain e where "r = Inl e" using never by (cases r) auto
      with while_fails [OF Some] runs [OF P] ok all show ?thesis by (metis Inl_Inr_False)
    qed simp
  qed
qed

text \<open>The same for \<open>loop()\<close>, which clears the flag on entry.\<close>

definition entered :: "loop_id \<Rightarrow> ('f, 'a) lworld_scheme \<Rightarrow> ('f, 'a) lworld_scheme" where
  "entered l w = (case loops w l of None \<Rightarrow> w
     | Some L \<Rightarrow> put_loop l (L\<lparr>el_looping := True, el_quit := False\<rparr>) w)"

lemma loop_forever:
  assumes keeps: "\<And>v v'. P v \<Longrightarrow> body v = Inr v' \<Longrightarrow> P v'" and runs: "\<And>v. P v \<Longrightarrow> running l v"
    and P: "P (entered l w)" and L: "running l w"
  shows "EventLoop_loop body l w \<noteq> Some (Inr w')"
    and "EventLoop_loop body l w = None \<longleftrightarrow> (\<forall>n. \<exists>u. run (replicate n body) (entered l w) = Inr u)"
proof -
  note forever = while_forever [where P = P, OF keeps runs P]
  have loop: "EventLoop_loop body l w =
      map_option (\<lambda>r. bnd r (upd_loop l (\<lambda>L. L\<lparr>el_looping := False\<rparr>))) (while_not_quit body l (entered l w))"
    using L by (auto simp: EventLoop_loop_def entered_def running_def split: option.split)
  show "EventLoop_loop body l w \<noteq> Some (Inr w')"
  proof
    assume "EventLoop_loop body l w = Some (Inr w')"
    then obtain r where "while_not_quit body l (entered l w) = Some r"
        "bnd r (upd_loop l (\<lambda>L. L\<lparr>el_looping := False\<rparr>)) = Inr w'"
      by (auto simp: loop)
    with forever(1) show False by (cases r) auto
  qed
  show "EventLoop_loop body l w = None \<longleftrightarrow> (\<forall>n. \<exists>u. run (replicate n body) (entered l w) = Inr u)"
    using forever(2) by (simp add: loop)
qed

lemma echo_setup_running:
  fixes w :: "'a sworld_scheme"
  assumes "echo_setup inet_addr use_poll os supply l p q w = Inr v" and "conns w = Map.empty"
  shows "running l v"
proof -
  let ?addr = "InetAddress_ctor inet_addr 8000 ''127.0.0.1''"
  from assms(1) obtain u x where u: "EventLoop_ctor use_poll os l p w = Inr u"
      and x: "TcpServer_ctor os (Some l) ?addr ''EchoServer-01'' False q u = Inr x"
      and v: "TcpServer_start (\<lambda>l w. Inr w) use_poll os supply
        (setMessageCalback onMessage_fn (setConnectionCallback onConnection_fn x)) = Inr v"
    by (auto simp: echo_setup_def EchoServer_ctor_def EchoServer_start_def Let_def)
  let ?x = "setMessageCalback onMessage_fn (setConnectionCallback onConnection_fn x)"
  note loop = loop_ctor_running [OF u assms(2)]
  note made = runs.keeps_server_ctor [OF x loop]
  have "store_frame x ?x" by (simp add: setMessageCalback_def setConnectionCallback_def)
  then have "running l ?x" and "conns ?x = Map.empty"
    using made by (auto intro: runs.frame_law store_frame_no_conns)
  moreover have "init_typed (\<lambda>l w. Inr (w :: 'a sworld_scheme))" by (simp add: init_typed_def)
  ultimately show ?thesis using runs.keeps_start [OF _ v] by blast
qed

section \<open>Property\<close>

text \<open>
  C24 (the example serves until something fails). Nothing in the program quits its loop, so \<open>main\<close>
  never reaches its destructors: over whatever kernel, it runs for ever exactly if the set-up
  succeeds and every number of rounds runs without failure, and ends only by a failure otherwise.
\<close>

theorem echo_main_serves:
  fixes w :: "'a sworld_scheme"
  assumes "gives_new fresh" and "readv_contract os" and "conns w = Map.empty"
  shows "echo_main inet_addr use_poll os supply l p q a fresh len order w \<noteq> Some (Inr w') \<and>
    (echo_main inet_addr use_poll os supply l p q a fresh len order w = None \<longleftrightarrow>
      (\<exists>v. echo_setup inet_addr use_poll os supply l p q w = Inr v \<and>
         (\<forall>n. \<exists>u. run (replicate n (server_round (echo_user a) os fresh len l)) (entered l v) = Inr u)))"
proof (cases "echo_setup inet_addr use_poll os supply l p q w")
  case (Inl e)
  then show ?thesis by (simp add: echo_main_def)
next
  case (Inr v)
  let ?body = "server_round (echo_user a) os fresh len l"
  have v: "running l v" by (rule echo_setup_running [OF Inr assms(3)])
  then have entered: "running l (entered l v)" by (auto simp: running_def entered_def)
  have keeps: "running l y" if "running l x" "?body x = Inr y" for x y
    by (rule runs.keeps_round [OF assms(1,2) that(2,1)])
  have never: "EventLoop_loop ?body l v \<noteq> Some (Inr u)" for u
    by (rule loop_forever(1) [where P = "running l", OF _ _ entered v]) (auto intro: keeps)
  have ever: "EventLoop_loop ?body l v = None \<longleftrightarrow> (\<forall>n. \<exists>u. run (replicate n ?body) (entered l v) = Inr u)"
    by (rule loop_forever(2) [where P = "running l", OF _ _ entered v]) (auto intro: keeps)
  have "bnd r (echo_teardown a os order l) \<noteq> Inr w'" if "EventLoop_loop ?body l v = Some r" for r
    using never that by (cases r) auto
  with ever Inr show ?thesis by (auto simp: echo_main_def)
qed

text \<open>From nothing, over a kernel that reports no event: the set-up succeeds, and \<open>main\<close> does not return.\<close>

definition blank_sworld :: sworld where
  "blank_sworld =
     \<lparr>trace = [], chans = Map.empty, cur_tid = 1, loops = Map.empty, t_loopInThisThread = Map.empty,
      numCreated = 0, conns = Map.empty, strings = Map.empty, calls = [], server = demo_server\<rparr>"

definition idle :: "loop_id \<Rightarrow> ('f, 'a) lworld_scheme \<Rightarrow> bool" where
  "idle l w \<longleftrightarrow> (\<exists>L P. loops w l = Some L \<and> el_poller L = Some P \<and> el_pendingFunctors L = [])"

lemma idle_round:
  assumes "idle l w"
  shows "\<exists>w'. server_round user demo_os fresh len l w = Inr w' \<and> idle l w'"
proof -
  from assms obtain L P where "loops w l = Some L" "el_poller L = Some P" "el_pendingFunctors L = []"
    by (auto simp: idle_def)
  then show ?thesis
    by (simp add: server_round_def loop_body_def poll_step_def EPollPoller_poll_def sys_epoll_wait_def
        demo_os_def std_copy_in_def handle_active_def doPendingFunctors_def idle_def Let_def)
qed

theorem echo_main_serves_witness:
  "(\<exists>v. echo_setup (\<lambda>s. 16777343) False demo_os (\<lambda>j. (0, 0, 0)) 0 16 5 blank_sworld = Inr v) \<and>
     echo_main (\<lambda>s. 16777343) False demo_os (\<lambda>j. (0, 0, 0)) 0 16 5 100 new_fresh 16 (\<lambda>m. []) blank_sworld
       = None"
proof -
  have none: "conns blank_sworld = Map.empty" by (simp add: blank_sworld_def)
  obtain v where v: "echo_setup (\<lambda>s. 16777343) False demo_os (\<lambda>j. (0, 0, 0)) 0 16 5 blank_sworld = Inr v"
      "idle 0 v"
    by (simp add: echo_setup_def EchoServer_ctor_def EchoServer_start_def EventLoop_ctor_def
        newDefaultPoller_def EPollPoller_ctor_def createEventfd_def sys_epoll_create_def sys_eventfd_def
        idle_def blank_sworld_def eval_kernel eval_channel eval_loop eval_start Let_def)
  then have "idle 0 (entered 0 v)" by (auto simp: idle_def entered_def)
  then have "\<exists>u. run (replicate n (server_round (echo_user 100) demo_os new_fresh 16 0)) (entered 0 v) = Inr u" for n
    using run_total [where P = "idle 0" and w = "entered 0 v"] idle_round by (metis in_set_replicate)
  with v(1) echo_main_serves [OF new_fresh_new demo_os_readv none] show ?thesis by blast
qed

end
