(* ===== verification/Logging.thy ===== *)
theory Logging
  imports Channel
begin

text \<open>
  Time stamps (\<open>src/src/Timestamp.h\<close>, \<open>Timestamp.cc\<close>) and the logger
  (\<open>src/src/Logger.h\<close>, \<open>Logger.cc\<close>). The C library's \<open>localtime\<close> is the parameter
  \<open>localtime\<close>, \<open>None\<close> where it returns null; the standard output is the string written.
\<close>

section \<open>Time stamps\<close>

record tm =
  tm_year :: int
  tm_mon :: int
  tm_mday :: int
  tm_hour :: int
  tm_min :: int
  tm_sec :: int

definition Timestamp_ctor :: Timestamp where
  "Timestamp_ctor = 0"

text \<open>\<open>time(NULL)\<close> counts seconds.\<close>

definition Timestamp_now :: "os \<Rightarrow> event list \<Rightarrow> Timestamp" where
  "Timestamp_now os h = os_time os h"

text \<open>\<open>%4d\<close> fills with blanks, \<open>%02d\<close> with zeros after the sign.\<close>

definition pad :: "char \<Rightarrow> nat \<Rightarrow> string \<Rightarrow> string" where
  "pad c n s = replicate (n - length s) c @ s"

definition toString :: "(Timestamp \<Rightarrow> tm option) \<Rightarrow> Timestamp \<Rightarrow> failure + string" where
  "toString localtime t =
     (case localtime t of
        None \<Rightarrow> Inl NullPointer
      | Some x \<Rightarrow>
          if 2147483647 < tm_year x + 1900 \<or> 2147483647 < tm_mon x + 1 then Inl IntOverflow
          else Inr (take 127
            (pad CHR '' '' 4 (show_int (tm_year x + 1900)) @ ''/'' @
             pad CHR ''0'' 2 (show_int (tm_mon x + 1)) @ ''/'' @
             pad CHR ''0'' 2 (show_int (tm_mday x)) @ '' '' @
             pad CHR ''0'' 2 (show_int (tm_hour x)) @ '':'' @
             pad CHR ''0'' 2 (show_int (tm_min x)) @ '':'' @
             pad CHR ''0'' 2 (show_int (tm_sec x)))))"

section \<open>The logger\<close>

record logger =
  lg_level :: int
  lg_cout :: string

text \<open>The static object is zero-initialised.\<close>

definition Logger_instance :: logger where
  "Logger_instance = \<lparr>lg_level = 0, lg_cout = []\<rparr>"

fun level_number :: "log_level \<Rightarrow> int" where
  "level_number INFO = 0"
| "level_number ERROR = 1"
| "level_number FATAL = 2"
| "level_number DEBUG = 3"

definition setLogLevel :: "log_level \<Rightarrow> logger \<Rightarrow> logger" where
  "setLogLevel v L = L\<lparr>lg_level := level_number v\<rparr>"

definition level_label :: "int \<Rightarrow> string" where
  "level_label n =
     (if n = level_number INFO then ''[INFO]''
      else if n = level_number ERROR then ''[ERROR]''
      else if n = level_number FATAL then ''[FATAL]''
      else if n = level_number DEBUG then ''[DEBUG]''
      else [])"

definition Logger_log ::
  "(Timestamp \<Rightarrow> tm option) \<Rightarrow> Timestamp \<Rightarrow> string \<Rightarrow> logger \<Rightarrow> failure + logger" where
  "Logger_log localtime now msg L =
     bnd (toString localtime now) (\<lambda>s.
     Inr (L\<lparr>lg_cout := lg_cout L @ level_label (lg_level L) @ s @ '' : '' @ msg @ [CHR 0x0A]\<rparr>))"

text \<open>
  The macros: the level is stored, the message formatted into 1024 bytes and handed over up to its
  first zero, as two calls on the shared object. \<open>LOG_FATAL\<close> exits; \<open>LOG_DEBUG\<close> is empty
  unless \<open>SZDEBUG\<close> is defined.
\<close>

datatype log_call = SetLevel log_level | Log string

fun log_exec ::
  "(Timestamp \<Rightarrow> tm option) \<Rightarrow> Timestamp \<Rightarrow> log_call \<Rightarrow> logger \<Rightarrow> failure + logger" where
  "log_exec localtime now (SetLevel v) L = Inr (setLogLevel v L)"
| "log_exec localtime now (Log msg) L = Logger_log localtime now msg L"

definition c_text :: "string \<Rightarrow> string" where
  "c_text s = takeWhile (\<lambda>c. c \<noteq> CHR 0x00) (take 1023 s)"

definition macro_calls :: "log_level \<Rightarrow> string \<Rightarrow> log_call list" where
  "macro_calls v msg = [SetLevel v, Log (c_text msg)]"

definition LOG_macro ::
  "bool \<Rightarrow> (Timestamp \<Rightarrow> tm option) \<Rightarrow> Timestamp \<Rightarrow> log_level \<times> string \<Rightarrow> logger
     \<Rightarrow> failure + logger" where
  "LOG_macro szdebug localtime now m L =
     (case m of (v, msg) \<Rightarrow>
        if v = DEBUG \<and> \<not> szdebug then Inr L
        else bnd (run (map (log_exec localtime now) (macro_calls v msg)) L)
               (\<lambda>L. if v = FATAL then Inl Fatal else Inr L))"

section \<open>What is printed\<close>

definition shown_time :: "tm \<Rightarrow> string" where
  "shown_time x =
     show_int (tm_year x + 1900) @ ''/'' @ pad CHR ''0'' 2 (show_int (tm_mon x + 1)) @ ''/'' @
     pad CHR ''0'' 2 (show_int (tm_mday x)) @ '' '' @ pad CHR ''0'' 2 (show_int (tm_hour x)) @ '':'' @
     pad CHR ''0'' 2 (show_int (tm_min x)) @ '':'' @ pad CHR ''0'' 2 (show_int (tm_sec x))"

text \<open>What \<open>localtime\<close> gives in the years of four digits.\<close>

definition calendar :: "tm \<Rightarrow> bool" where
  "calendar x \<longleftrightarrow> 1000 \<le> tm_year x + 1900 \<and> tm_year x + 1900 \<le> 9999 \<and>
     0 \<le> tm_mon x \<and> tm_mon x \<le> 11 \<and> 1 \<le> tm_mday x \<and> tm_mday x \<le> 31 \<and>
     0 \<le> tm_hour x \<and> tm_hour x \<le> 23 \<and> 0 \<le> tm_min x \<and> tm_min x \<le> 59 \<and>
     0 \<le> tm_sec x \<and> tm_sec x \<le> 60"

text \<open>The fields read back from their columns.\<close>

definition column :: "nat \<Rightarrow> nat \<Rightarrow> string \<Rightarrow> int" where
  "column i n s = int (read_nat (take n (drop i s)))"

definition read_time :: "string \<Rightarrow> tm" where
  "read_time s =
     \<lparr>tm_year = column 0 4 s - 1900, tm_mon = column 5 2 s - 1, tm_mday = column 8 2 s,
      tm_hour = column 11 2 s, tm_min = column 14 2 s, tm_sec = column 17 2 s\<rparr>"

lemma length_show_nat_exact: "10 ^ k \<le> n \<Longrightarrow> n < 10 ^ Suc k \<Longrightarrow> length (show_nat n) = Suc k"
proof (induction k arbitrary: n)
  case 0
  then show ?case by (subst show_nat.simps) simp
next
  case (Suc k)
  have "10 ^ k \<le> n div 10" "n div 10 < 10 ^ Suc k" using Suc.prems by auto
  then have "length (show_nat (n div 10)) = Suc k" by (rule Suc.IH)
  moreover have "\<not> n < 10" using Suc.prems(1) one_le_power [of "10 :: nat" k] unfolding power_Suc by linarith
  ultimately show ?case by (subst show_nat.simps) simp
qed

lemma two_digits:
  assumes "0 \<le> i" and "i \<le> 99"
  shows "length (pad CHR ''0'' 2 (show_int i)) = 2"
    and "read_nat (pad CHR ''0'' 2 (show_int i)) = nat i"
proof -
  have "length (show_int i) \<le> 2" using assms length_show_nat [of "nat i" 1] by (simp add: show_int_def eval_nat_numeral)
  then show "length (pad CHR ''0'' 2 (show_int i)) = 2" by (simp add: pad_def)
  have zeros: "read_nat (replicate n CHR ''0'' @ s) = read_nat s" for n s
    by (induction n) (simp_all add: read_nat_def)
  show "read_nat (pad CHR ''0'' 2 (show_int i)) = nat i"
    using assms by (simp add: pad_def zeros show_int_def)
qed

lemma four_digits:
  assumes "1000 \<le> i" and "i \<le> 9999"
  shows "length (show_int i) = 4" and "read_nat (show_int i) = nat i"
  using assms length_show_nat_exact [of 3 "nat i"] by (simp_all add: show_int_def)

lemma shown_time_length: "calendar x \<Longrightarrow> length (shown_time x) = 19"
  by (simp add: shown_time_def calendar_def two_digits four_digits)

lemma toString_shown:
  "localtime t = Some x \<Longrightarrow> calendar x \<Longrightarrow> toString localtime t = Inr (shown_time x)"
  using shown_time_length [of x]
  by (simp add: toString_def calendar_def shown_time_def pad_def [of "CHR '' ''"] four_digits)

lemma read_shown_time:
  assumes "calendar x"
  shows "read_time (shown_time x) = x"
proof -
  have r: "0 \<le> tm_mon x + 1" "tm_mon x + 1 \<le> 99" "0 \<le> tm_mday x" "tm_mday x \<le> 99"
    "0 \<le> tm_hour x" "tm_hour x \<le> 99" "0 \<le> tm_min x" "tm_min x \<le> 99" "0 \<le> tm_sec x" "tm_sec x \<le> 99"
    "1000 \<le> tm_year x + 1900" "tm_year x + 1900 \<le> 9999"
    using assms by (simp_all add: calendar_def)
  have "column 0 4 (shown_time x) = tm_year x + 1900" "column 5 2 (shown_time x) = tm_mon x + 1"
    "column 8 2 (shown_time x) = tm_mday x" "column 11 2 (shown_time x) = tm_hour x"
    "column 14 2 (shown_time x) = tm_min x" "column 17 2 (shown_time x) = tm_sec x"
    using r by (simp_all add: column_def shown_time_def two_digits four_digits)
  then show ?thesis by (simp add: read_time_def)
qed

section \<open>Lines\<close>

definition log_line :: "tm \<Rightarrow> log_level \<Rightarrow> string \<Rightarrow> string" where
  "log_line x v msg =
     level_label (level_number v) @ shown_time x @ '' : '' @ c_text msg @ [CHR 0x0A]"

lemma macro_line:
  assumes "localtime now = Some x" and "calendar x"
  shows "LOG_macro szdebug localtime now (v, msg) L =
    (if v = DEBUG \<and> \<not> szdebug then Inr L
     else if v = FATAL then Inl Fatal
     else Inr \<lparr>lg_level = level_number v, lg_cout = lg_cout L @ log_line x v msg\<rparr>)"
  using toString_shown [of localtime now, OF assms]
  by (cases L) (simp add: LOG_macro_def macro_calls_def Logger_log_def setLogLevel_def log_line_def)

lemma log_lines_ok:
  assumes "localtime now = Some x" and "calendar x"
  shows "\<forall>(v, msg) \<in> set ms. v \<noteq> FATAL \<Longrightarrow> \<exists>L'. run (map (LOG_macro szdebug localtime now) ms) L = Inr L' \<and>
    lg_cout L' = lg_cout L @ concat (map (\<lambda>(v, msg). log_line x v msg)
      (filter (\<lambda>(v, msg). v = DEBUG \<longrightarrow> szdebug) ms))"
proof (induction ms arbitrary: L)
  case Nil
  then show ?case by simp
next
  case (Cons m ms)
  obtain v msg where m: "m = (v, msg)" by (cases m)
  from Cons.prems m have rest: "\<forall>(v, msg) \<in> set ms. v \<noteq> FATAL" "v \<noteq> FATAL" by auto
  let ?L = "\<lparr>lg_level = level_number v, lg_cout = lg_cout L @ log_line x v msg\<rparr>"
  show ?case
  proof (cases "v = DEBUG \<and> \<not> szdebug")
    case True
    then show ?thesis using Cons.IH [OF rest(1), of L] by (simp add: m macro_line [of localtime now, OF assms])
  next
    case False
    from Cons.IH [OF rest(1), of ?L] obtain L' where
        "run (map (LOG_macro szdebug localtime now) ms) ?L = Inr L'"
        "lg_cout L' = lg_cout ?L @ concat (map (\<lambda>(v, msg). log_line x v msg)
          (filter (\<lambda>(v, msg). v = DEBUG \<longrightarrow> szdebug) ms))"
      by blast
    with False rest(2) show ?thesis by (auto simp: m macro_line [of localtime now, OF assms])
  qed
qed

section \<open>Properties\<close>

text \<open>
  C40 (time stamps read back). For the years of four digits a time stamp prints in nineteen
  characters, never truncated, and the broken-down time can be read back from their columns.
\<close>

theorem toString_reads_back:
  assumes "localtime t = Some x" and "calendar x"
  shows "\<exists>s. toString localtime t = Inr s \<and> length s = 19 \<and> read_time s = x"
  using toString_shown [of localtime t, OF assms] shown_time_length [OF assms(2)] read_shown_time [OF assms(2)] by auto

definition demo_tm :: tm where
  "demo_tm = \<lparr>tm_year = 124, tm_mon = 1, tm_mday = 29, tm_hour = 7, tm_min = 0, tm_sec = 60\<rparr>"

lemma demo_tm_calendar: "calendar demo_tm"
  by (simp add: calendar_def demo_tm_def)

theorem toString_reads_back_witness:
  "\<exists>s. toString (\<lambda>t. Some demo_tm) 0 = Inr s \<and> length s = 19 \<and> read_time s = demo_tm"
  by (rule toString_reads_back [of "\<lambda>t. Some demo_tm" 0, OF refl demo_tm_calendar])

text \<open>
  Log lines of one thread. The macros of one thread, none of them fatal, run without failure
  and write one line each, in order, under their own levels; the debug lines only with
  \<open>SZDEBUG\<close>.
\<close>

theorem log_lines:
  assumes "localtime now = Some x" and "calendar x" and "\<forall>(v, msg) \<in> set ms. v \<noteq> FATAL"
  shows "\<exists>L'. run (map (LOG_macro szdebug localtime now) ms) L = Inr L' \<and>
    lg_cout L' = lg_cout L @ concat (map (\<lambda>(v, msg). log_line x v msg)
      (filter (\<lambda>(v, msg). v = DEBUG \<longrightarrow> szdebug) ms))"
  by (rule log_lines_ok [of localtime now, OF assms])

theorem log_lines_witness:
  "\<exists>L'. run (map (LOG_macro False (\<lambda>t. Some demo_tm) 0) [(INFO, ''up''), (DEBUG, ''x''), (ERROR, ''down'')])
      Logger_instance = Inr L' \<and> lg_cout L' = log_line demo_tm INFO ''up'' @ log_line demo_tm ERROR ''down''"
  using log_lines [of "\<lambda>t. Some demo_tm" 0, OF refl demo_tm_calendar,
      of "[(INFO, ''up''), (DEBUG, ''x''), (ERROR, ''down'')]" False Logger_instance]
  by (auto simp: Logger_instance_def)

text \<open>
  The level is shared and not part of the call that writes. When an information line of one thread
  meets an error line of another between the two calls of its macro, it is written as an error.
\<close>

lemma logger_race_mislabels:
  assumes "localtime now = Some x" and "calendar x"
  shows "\<exists>calls \<in> shuffles (macro_calls INFO a) (macro_calls ERROR b). \<exists>L'.
    run (map (log_exec localtime now) calls) Logger_instance = Inr L' \<and>
    lg_cout L' = log_line x ERROR a @ log_line x ERROR b"
proof
  let ?calls = "[SetLevel INFO, SetLevel ERROR, Log (c_text a), Log (c_text b)]"
  show "?calls \<in> shuffles (macro_calls INFO a) (macro_calls ERROR b)"
    by (simp add: macro_calls_def)
  show "\<exists>L'. run (map (log_exec localtime now) ?calls) Logger_instance = Inr L' \<and>
      lg_cout L' = log_line x ERROR a @ log_line x ERROR b"
    using toString_shown [of localtime now, OF assms]
    by (simp add: Logger_log_def setLogLevel_def log_line_def Logger_instance_def)
qed

end
