(* ===== verification/CrossLoop.thy ===== *)
theory CrossLoop
  imports ConnectionLifetime
begin

text \<open>
  The life of a connection that lives in another loop than the server's, from \<open>accept\<close> to
  destruction: \<open>newConnection\<close> in the server's thread, \<open>connectEstablished\<close> and
  \<open>handleClose\<close> in the connection's, \<open>removeConnectionInLoop\<close> back in the server's and
  \<open>connectDistroyed\<close> in the connection's again (\<open>TcpServer.cc\<close>, \<open>TcpConnection.cc\<close>), each
  hand-over a functor queued in one loop and run by the other's \<open>doPendingFunctors\<close>.
\<close>

section \<open>Operations in the thread of a loop\<close>

definition as_thread ::
  "loop_id \<Rightarrow> ('a sworld_scheme \<Rightarrow> failure + 'a sworld_scheme) \<Rightarrow> 'a sworld_scheme
     \<Rightarrow> failure + 'a sworld_scheme" where
  "as_thread l f w = bnd (get_loop l w) (\<lambda>L. f (w\<lparr>cur_tid := el_threadId L\<rparr>))"

definition run_functors ::
  "(user_fn \<Rightarrow> call \<Rightarrow> 'a sworld_scheme \<Rightarrow> api_call list) \<Rightarrow> os \<Rightarrow> loop_id \<Rightarrow> 'a sworld_scheme
     \<Rightarrow> failure + 'a sworld_scheme" where
  "run_functors user os l = as_thread l (doPendingFunctors (exec_functor user os) l)"

lemma as_thread_eq: "loops w l = Some L \<Longrightarrow> as_thread l f w = f (w\<lparr>cur_tid := el_threadId L\<rparr>)"
  by (simp add: as_thread_def)

lemma same_registry_tid: "same_registry l w (w\<lparr>cur_tid := t\<rparr>)"
  by (simp add: same_registry_def loop_poller_def)

lemma registry_tid [simp]:
  "loop_inv os l (w\<lparr>cur_tid := t\<rparr>) = loop_inv os l (w :: 'a sworld_scheme)"
  "loop_watched l (w\<lparr>cur_tid := t\<rparr>) = loop_watched l w"
  by (rule same_registry_keeps [OF same_registry_tid])+

lemma server_inv_tid [simp]: "server_inv (w\<lparr>cur_tid := t\<rparr>) = server_inv w"
  by (simp add: server_inv_def)

text \<open>What a change of interest leaves of a loop.\<close>

lemma ctl_loop:
  fixes w :: "'a sworld_scheme"
  assumes "ctl_frame w v" and "loops w k = Some K"
  obtains Q where "loops v k = Some (K\<lparr>el_poller := Q\<rparr>)"
proof -
  from assms have "map_option (el_poller_update (\<lambda>_. None)) (loops v k) =
      Some (el_poller_update (\<lambda>_. None) K)"
    unfolding ctl_frame_def by (metis option.simps(9))
  then obtain K' where K': "loops v k = Some K'" "K'\<lparr>el_poller := None\<rparr> = K\<lparr>el_poller := None\<rparr>" by auto
  then have "K' = K\<lparr>el_poller := el_poller K'\<rparr>" by (cases K, cases K') simp
  with K'(1) that show ?thesis by metis
qed

section \<open>The stages\<close>

text \<open>Accepted in the server's thread, for a loop that another thread runs.\<close>

lemma accepted_for_other:
  fixes w :: "'a sworld_scheme"
  assumes inv: "server_inv w" and free: "conns w c = None" "chans w p = None"
    and max: "ts_nextConnId (server w) \<noteq> int_max"
    and l: "l = turn (ts_threadPool (server w)) 0" "loops w l = Some L" "loop_inv os l w"
    and fd: "\<forall>q d. chans w q = Some d \<longrightarrow> ch_loop d = l \<longrightarrow> ch_fd d \<noteq> fd"
    and other: "el_threadId L \<noteq> cur_tid w"
  obtains v C ch where "newConnection user os c p fd peer w = Inr v"
    and "made_connection (server w) p fd peer C" and "tc_state C = kConnecting"
    and "server v = server_with c (server w)" and "server_inv v"
    and "calls v = calls w" and "conns v = (conns w)(c \<mapsto> C)"
    and "loops v = (loops w)(l \<mapsto> L\<lparr>el_pendingFunctors := el_pendingFunctors L @ [F_connectEstablished c]\<rparr>)"
    and "chans v p = Some ch" and "ch_fd ch = fd" and "ch_loop ch = l" and "ch_events ch = 0"
    and "loop_inv os l v" and "\<forall>q. q \<noteq> p \<longrightarrow> loop_watched l v q = loop_watched l w q"
proof -
  have pool: "pool_inv (ts_threadPool (server w))" using inv by (simp add: server_inv_def)
  obtain u C ch where eq: "newConnection user os c p fd peer w =
        runInLoop (\<lambda>f. connectEstablished user os c) os (tc_loop C) (F_connectEstablished c) u"
      and u: "conns u = (conns w)(c \<mapsto> C)" "made_connection (server w) p fd peer C"
      "tc_state C = kConnecting" "server u = server_with c (server w)" "loops u = loops w"
      "calls u = calls w" "cur_tid u = cur_tid w"
      and ch: "chans u = (chans w)(p \<mapsto> ch)" "ch_fd ch = fd" "ch_loop ch = tc_loop C"
      "ch_index ch = kNew" "ch_events ch = 0" "\<And>ep. interest (trace u) ep = interest (trace w) ep"
    by (rule newConnection_stages [OF max pool, of user os c p fd peer]) blast
  have C: "tc_loop C = l" using made_simps [OF u(2)] l(1) by simp
  have inv_u: "server_inv u" by (rule server_with_inv [OF inv free(1) max u(1,4,2)])
  have loop_u: "loop_inv os l u"
    by (rule loop_inv_new_channel [OF l(3) free(2) _ ch(4,1) _ ch(6)])
      (use fd ch u in \<open>simp_all add: loop_poller_def\<close>)
  have watched_u: "loop_watched l u q = loop_watched l w q" if "q \<noteq> p" for q
    using that ch u by (simp add: loop_watched_def loop_poller_def split: option.split)
  obtain v where v: "queueInLoop os l (F_connectEstablished c) u = Inr v"
    using l u by (auto intro: queue_total [of u l L os "F_connectEstablished c" os])
  note q = queueInLoop_server [OF v] and same = same_registry_keeps [OF same_registry_queue [OF v]]
  have "newConnection user os c p fd peer w = Inr v"
    using eq v C u l other by (simp add: runInLoop_def isInLoopThread_def)
  moreover have "server_inv v" by (rule server_inv_frame [OF inv_u q(1)]) (simp add: q)
  ultimately show ?thesis
    using u ch q l(2) C loop_u watched_u by (intro that [of v C ch]) (auto simp: same)
qed

text \<open>Established by the functors of the connection's loop.\<close>

lemma established_round:
  fixes w :: "'a sworld_scheme"
  assumes C: "conns w c = Some C" "tc_connectionCallback C = Some f" "tc_loop C = l"
    and quiet: "\<forall>cl v. user f cl v = []"
    and ch: "chans w (tc_channel C) = Some ch" "ch_fd ch = tc_socket C" "ch_loop ch = l" "ch_events ch = 0"
    and L: "loops w l = Some L" "el_pendingFunctors L = [F_connectEstablished c]"
      "el_wakeupFd L \<noteq> tc_socket C"
    and inv: "loop_inv os l w"
  obtains w' Q where "run_functors user os l w = Inr w'" and "loop_inv os l w'"
    and "loop_watched l w' (tc_channel C) = Some kReadEvent"
    and "\<forall>q. q \<noteq> tc_channel C \<longrightarrow> loop_watched l w' q = loop_watched l w q"
    and "conns w' = (conns w)(c \<mapsto> setState kConnected C)"
    and "calls w' = calls w @ [OnConnection c]" and "server w' = server w"
    and "loops w' l = Some (L\<lparr>el_pendingFunctors := [], el_callingPendingFunctors := False,
      el_poller := Q\<rparr>)"
    and "\<forall>k K. k \<noteq> l \<longrightarrow> loops w k = Some K \<longrightarrow> (\<exists>Q. loops w' k = Some (K\<lparr>el_poller := Q\<rparr>))"
proof -
  let ?L = "L\<lparr>el_callingPendingFunctors := True, el_pendingFunctors := []\<rparr>"
  let ?t = "w\<lparr>cur_tid := el_threadId L\<rparr>"
  let ?w = "put_loop l ?L ?t"
  have Lt: "loops ?t l = Some L" using L by simp
  have "same_registry l ?t ?w" by (rule same_registry_put_loop [OF Lt]) simp
  note start = same_registry_keeps [OF same_registry_trans [OF same_registry_tid this]]
  have shows_c: "shows_conn c C ch ?w"
    using C ch L by (simp add: shows_conn_def isInLoopThread_def)
  have inv_w: "loop_inv os (tc_loop C) ?w" using start(1) inv C(3) by simp
  obtain v and ch' :: channel where eq: "connectEstablished user os c ?w =
        call_user user os (tc_connectionCallback C) (OnConnection c) v"
      and v: "conns v = (conns ?w)(c \<mapsto> setState kConnected C)"
      "ctl_frame (put_conn c (setState kConnected C) ?w) v" "loop_inv os (tc_loop C) v"
      "ch_events ch' = ch_events ch OR kReadEvent"
      "loop_watched (tc_loop C) v (tc_channel C) = Some (ch_events ch')"
      "\<And>q. q \<noteq> tc_channel C \<Longrightarrow> loop_watched (tc_loop C) v q = loop_watched (tc_loop C) ?w q"
    by (rule connectEstablished_eq [OF shows_c inv_w, of user]) (rule that; assumption)
  note frame = ctl_frame_server [OF v(2)]
  let ?u = "v\<lparr>calls := calls v @ [OnConnection c]\<rparr>"
  have told: "connectEstablished user os c ?w = Inr ?u"
    using eq C(2) quiet by (simp add: call_user_def)
  have "loops (put_conn c (setState kConnected C) ?w) l = Some ?L" by simp
  from ctl_loop [OF v(2) this] obtain Q where Q: "loops v l = Some (?L\<lparr>el_poller := Q\<rparr>)" .
  let ?K = "?L\<lparr>el_poller := Q\<rparr>"
  let ?w' = "put_loop l (?K\<lparr>el_callingPendingFunctors := False\<rparr>) ?u"
  have "doPendingFunctors (exec_functor user os) l ?t = Inr ?w'"
    by (rule round_of_one [OF Lt L(2)]) (use told Q in simp_all)
  then have "run_functors user os l w = Inr ?w'"
    using L(1) by (simp add: run_functors_def as_thread_eq)
  moreover have "same_registry l v ?w'"
    using Q by (simp add: same_registry_def loop_poller_def)
  note same_registry_keeps [OF this]
  moreover have "\<exists>Q. loops ?w' k = Some (K\<lparr>el_poller := Q\<rparr>)" if "k \<noteq> l" "loops w k = Some K" for k K
  proof -
    have "loops (put_conn c (setState kConnected C) ?w) k = Some K" using that by simp
    from ctl_loop [OF v(2) this] that(1) show ?thesis by auto
  qed
  ultimately show ?thesis
    using v frame C(3) ch(4) start by (intro that [of ?w' Q]) simp_all
qed

text \<open>Closed by a handler in the connection's loop: only a functor in the server's loop remembers it.\<close>

lemma closed_elsewhere:
  fixes w :: "'a sworld_scheme"
  assumes C: "conns w c = Some C" "tc_connectionCallback C = Some f"
      "tc_closeCallback C = Some TcpServer_removeConnection"
    and quiet: "\<forall>cl v. user f cl v = []"
    and L: "loops w l = Some L" and B: "loops w (ts_loop (server w)) = Some B" "el_threadId B \<noteq> el_threadId L"
  obtains w' where "as_thread l (handleClose user (run_close os) os c) w = Inr w'"
    and "same_registry k w w'" and "server w' = server w"
    and "conns w' = (conns w)(c \<mapsto> setState kDisconnected C)"
    and "calls w' = calls w @ [OnConnection c]"
    and "loops w' = (loops w)(ts_loop (server w) \<mapsto>
      B\<lparr>el_pendingFunctors := el_pendingFunctors B @ [F_removeConnectionInLoop c]\<rparr>)"
proof -
  let ?t = "w\<lparr>cur_tid := el_threadId L\<rparr>"
  have pre: "conns ?t c = Some C" "loops ?t (ts_loop (server ?t)) = Some B" "el_threadId B \<noteq> cur_tid ?t"
    using C B by simp_all
  from handleClose_other_loop [where user = user and os = os and f = f, OF pre(1) C(2,3) quiet pre(2,3)]
  obtain w' where w': "handleClose user (run_close os) os c ?t = Inr w'" "chans w' = chans ?t"
      "\<forall>ep. interest (trace w') ep = interest (trace ?t) ep" "server w' = server ?t"
      "conns w' = (conns ?t)(c \<mapsto> setState kDisconnected C)" "calls w' = calls ?t @ [OnConnection c]"
      "loops w' = (loops ?t)(ts_loop (server ?t) \<mapsto>
        B\<lparr>el_pendingFunctors := el_pendingFunctors B @ [F_removeConnectionInLoop c]\<rparr>)"
    by blast
  moreover have "same_registry k w w'"
    using w' B(1) by (simp add: same_registry_def loop_poller_def)
  ultimately show ?thesis using L by (intro that [of w']) (simp_all add: as_thread_eq)
qed

text \<open>Removed by the functors of the server's loop: the name is free, the destruction is queued.\<close>

lemma removed_round:
  fixes w :: "'a sworld_scheme"
  assumes C: "conns w c = Some C" "tc_loop C = l" and other: "b \<noteq> l"
    and B: "loops w b = Some B" "el_pendingFunctors B = [F_removeConnectionInLoop c]"
    and L: "loops w l = Some L"
  obtains w' where "run_functors user os b w = Inr w'" and "same_registry l w w'"
    and "server w' = (server w)\<lparr>ts_connections := (ts_connections (server w))(tc_name C := None)\<rparr>"
    and "conns w' = conns w" and "calls w' = calls w"
    and "loops w' l = Some (L\<lparr>el_pendingFunctors := el_pendingFunctors L @ [F_connectDistroyed c]\<rparr>)"
    and "loops w' b = Some (B\<lparr>el_pendingFunctors := [], el_callingPendingFunctors := False\<rparr>)"
proof -
  let ?B = "B\<lparr>el_callingPendingFunctors := True, el_pendingFunctors := []\<rparr>"
  let ?t = "w\<lparr>cur_tid := el_threadId B\<rparr>"
  let ?w = "put_loop b ?B ?t"
  let ?u = "upd_server (\<lambda>S. S\<lparr>ts_connections := (ts_connections S)(tc_name C := None)\<rparr>) ?w"
  have Bt: "loops ?t b = Some B" using B by simp
  obtain v where v: "queueInLoop os l (F_connectDistroyed c) ?u = Inr v"
    using L other by (auto intro: queue_total [of ?u l L os "F_connectDistroyed c" os])
  note q = queueInLoop_server [OF v]
  have ran: "exec_functor user os (F_removeConnectionInLoop c) ?w = Inr v"
    using C v by (simp add: removeConnectionInLoop_def)
  have after: "loops v b = Some ?B" using q(6) other by auto
  let ?w' = "put_loop b (?B\<lparr>el_callingPendingFunctors := False\<rparr>) v"
  have "doPendingFunctors (exec_functor user os) b ?t = Inr ?w'"
    by (rule round_of_one [OF Bt B(2) _ after]) (rule ran)
  then have "run_functors user os b w = Inr ?w'"
    using B(1) by (simp add: run_functors_def as_thread_eq)
  moreover have "same_registry l w ?u"
    using other by (simp add: same_registry_def loop_poller_def)
  then have "same_registry l w v" by (rule same_registry_trans [OF _ same_registry_queue [OF v]])
  then have "same_registry l w ?w'" using other by (simp add: same_registry_def loop_poller_def)
  ultimately show ?thesis
    using q other L by (intro that [of ?w']) auto
qed

section \<open>The two halves of a life\<close>

lemma begins_elsewhere:
  fixes w :: "'a sworld_scheme"
  assumes inv: "server_inv w" and free: "conns w c = None" "chans w p = None"
    and max: "ts_nextConnId (server w) \<noteq> int_max" and f: "ts_connectionCallback (server w) = Some f"
    and quiet: "\<forall>cl v. user f cl v = []"
    and l: "l = turn (ts_threadPool (server w)) 0" and b: "b = ts_loop (server w)"
    and L: "loops w l = Some L" and B: "loops w b = Some B" and other: "el_threadId L \<noteq> el_threadId B"
    and idle: "el_pendingFunctors L = []" and loop: "loop_inv os l w"
    and fd: "\<forall>q d. chans w q = Some d \<longrightarrow> ch_loop d = l \<longrightarrow> ch_fd d \<noteq> fd" "el_wakeupFd L \<noteq> fd"
  obtains w1 w2 C Q R where "as_thread b (newConnection user os c p fd peer) w = Inr w1"
    and "made_connection (server w) p fd peer C" and "calls w1 = calls w"
    and "server w1 = server_with c (server w)"
    and "run_functors user os l w1 = Inr w2" and "loop_inv os l w2" and "server_inv w2"
    and "loop_watched l w2 = (loop_watched l w)(p \<mapsto> kReadEvent)"
    and "conns w2 = (conns w)(c \<mapsto> setState kConnected C)"
    and "calls w2 = calls w @ [OnConnection c]" and "server w2 = server w1"
    and "loops w2 l = Some (L\<lparr>el_pendingFunctors := [], el_callingPendingFunctors := False, el_poller := Q\<rparr>)"
    and "loops w2 b = Some (B\<lparr>el_poller := R\<rparr>)"
proof -
  let ?t = "w\<lparr>cur_tid := el_threadId B\<rparr>" and ?S = "server w"
  have bl: "b \<noteq> l" using L B other by auto
  have pre: "server_inv ?t" "loop_inv os l ?t" "conns ?t c = None" "chans ?t p = None"
      "ts_nextConnId (server ?t) \<noteq> int_max" "l = turn (ts_threadPool (server ?t)) 0" "loops ?t l = Some L"
      "\<forall>q d. chans ?t q = Some d \<longrightarrow> ch_loop d = l \<longrightarrow> ch_fd d \<noteq> fd" "el_threadId L \<noteq> cur_tid ?t"
    using assms by simp_all
  from accepted_for_other [OF pre(1,3-7,2,8,9), of user peer] obtain w1 C ch where
      w1: "newConnection user os c p fd peer ?t = Inr w1" "made_connection (server ?t) p fd peer C"
        "tc_state C = kConnecting" "server w1 = server_with c (server ?t)" "server_inv w1"
        "calls w1 = calls ?t" "conns w1 = (conns ?t)(c \<mapsto> C)" "loops w1 = (loops ?t)(l \<mapsto>
          L\<lparr>el_pendingFunctors := el_pendingFunctors L @ [F_connectEstablished c]\<rparr>)"
        "chans w1 p = Some ch" "ch_fd ch = fd" "ch_loop ch = l" "ch_events ch = 0" "loop_inv os l w1"
        "\<forall>q. q \<noteq> p \<longrightarrow> loop_watched l w1 q = loop_watched l ?t q" .
  note C = made_simps [OF w1(2)]
  let ?L = "L\<lparr>el_pendingFunctors := [F_connectEstablished c]\<rparr>"
  have pre: "conns w1 c = Some C" "tc_connectionCallback C = Some f" "tc_loop C = l"
      "chans w1 (tc_channel C) = Some ch" "ch_fd ch = tc_socket C" "loops w1 l = Some ?L"
      "el_pendingFunctors ?L = [F_connectEstablished c]" "el_wakeupFd ?L \<noteq> tc_socket C"
    using w1 C l fd(2) f idle by simp_all
  from established_round [where user = user and f = f and ch = ch, OF pre(1-3) quiet pre(4,5) w1(11,12) pre(6-8) w1(13)]
  obtain w2 Q where w2: "run_functors user os l w1 = Inr w2" "loop_inv os l w2"
      "loop_watched l w2 (tc_channel C) = Some kReadEvent"
      "\<forall>q. q \<noteq> tc_channel C \<longrightarrow> loop_watched l w2 q = loop_watched l w1 q"
      "conns w2 = (conns w1)(c \<mapsto> setState kConnected C)" "calls w2 = calls w1 @ [OnConnection c]"
      "server w2 = server w1"
      "loops w2 l = Some (?L\<lparr>el_pendingFunctors := [], el_callingPendingFunctors := False, el_poller := Q\<rparr>)"
      "\<forall>k K. k \<noteq> l \<longrightarrow> loops w1 k = Some K \<longrightarrow> (\<exists>Q. loops w2 k = Some (K\<lparr>el_poller := Q\<rparr>))" .
  have "loop_watched l w2 = (loop_watched l w)(p \<mapsto> kReadEvent)"
    using w2(3,4) w1(14) C by (auto simp: fun_eq_iff)
  moreover from w2(9) bl w1(8) B obtain R where "loops w2 b = Some (B\<lparr>el_poller := R\<rparr>)" by auto
  moreover have "server_inv w2"
    by (rule server_inv_frame [OF w1(5) w2(7)]) (use w2(5) pre(1) in auto)
  ultimately show ?thesis
    using w1 w2 B by (intro that [of w1 C w2 Q R]) (simp_all add: as_thread_eq)
qed

lemma ends_elsewhere:
  fixes w :: "'a sworld_scheme"
  assumes inv: "server_inv w" and C: "conns w c = Some C" "tc_connectionCallback C = Some f"
      "tc_closeCallback C = Some TcpServer_removeConnection" "tc_loop C = l" "tc_channel C = p"
    and quiet: "\<forall>cl v. user f cl v = []" and b: "b = ts_loop (server w)"
    and L: "loops w l = Some L" and B: "loops w b = Some B" and other: "el_threadId L \<noteq> el_threadId B"
    and idle: "el_pendingFunctors L = []" "el_pendingFunctors B = []" and loop: "loop_inv os l w"
    and watched: "loop_watched l w p \<noteq> None"
  obtains w3 w4 w5 where "as_thread l (handleClose user (run_close os) os c) w = Inr w3"
    and "calls w3 = calls w @ [OnConnection c]" and "loop_watched l w3 = loop_watched l w"
    and "server w3 = server w" and "run_functors user os b w3 = Inr w4"
    and "ts_connections (server w4) = (ts_connections (server w))(tc_name C := None)"
    and "loop_watched l w4 = loop_watched l w" and "run_functors user os l w4 = Inr w5"
    and "calls w5 = calls w @ [OnConnection c]" and "conns w5 = (conns w)(c \<mapsto> setState kDisconnected C)"
    and "ts_connections (server w5) = (ts_connections (server w))(tc_name C := None)"
    and "loop_watched l w5 = (loop_watched l w)(p := None)" and "loop_inv os l w5" and "server_inv w5"
proof -
  let ?D = "setState kDisconnected C"
  have bl: "b \<noteq> l" using L B other by auto
  have B': "loops w (ts_loop (server w)) = Some B" "el_threadId B \<noteq> el_threadId L" using b B other by auto
  from closed_elsewhere [where user = user and f = f and k = l and os = os, OF C(1-3) quiet L B'] obtain w3 where
      w3: "as_thread l (handleClose user (run_close os) os c) w = Inr w3" "same_registry l w w3"
        "server w3 = server w" "conns w3 = (conns w)(c \<mapsto> ?D)" "calls w3 = calls w @ [OnConnection c]"
        "loops w3 = (loops w)(ts_loop (server w) \<mapsto>
          B\<lparr>el_pendingFunctors := el_pendingFunctors B @ [F_removeConnectionInLoop c]\<rparr>)" .
  let ?B = "B\<lparr>el_pendingFunctors := [F_removeConnectionInLoop c]\<rparr>"
  have pre: "conns w3 c = Some ?D" "tc_loop ?D = l" "loops w3 b = Some ?B"
      "el_pendingFunctors ?B = [F_removeConnectionInLoop c]" "loops w3 l = Some L"
    using w3(4,6) C(4) L bl b idle(2) by simp_all
  from removed_round [OF pre(1,2) bl pre(3-5), of user os] obtain w4 where
      w4: "run_functors user os b w3 = Inr w4" "same_registry l w3 w4"
        "server w4 = (server w3)\<lparr>ts_connections := (ts_connections (server w3))(tc_name ?D := None)\<rparr>"
        "conns w4 = conns w3" "calls w4 = calls w3"
        "loops w4 l = Some (L\<lparr>el_pendingFunctors := el_pendingFunctors L @ [F_connectDistroyed c]\<rparr>)" .
  note registry = same_registry_trans [OF w3(2) w4(2)]
  let ?t = "w4\<lparr>cur_tid := el_threadId L\<rparr>" and ?L = "L\<lparr>el_pendingFunctors := [F_connectDistroyed c]\<rparr>"
  from watched C(5) obtain ch where "chans w p = Some ch" "ch_loop ch = l"
    by (auto simp: loop_watched_def split: option.splits if_splits)
  then have pre: "conns ?t c = Some ?D" "tc_state ?D \<noteq> kConnected" "chans ?t (tc_channel ?D) = Some ch"
      "ch_loop ch = tc_loop ?D" "loop_inv os (tc_loop ?D) ?t" "loops ?t (tc_loop ?D) = Some ?L"
      "el_pendingFunctors ?L = [F_connectDistroyed c]"
    using registry w4(4,6) w3(4) C(4,5) loop same_registry_keeps(1) [OF registry] idle(1)
    by (simp_all add: same_registry_def)
  from destroy_round [OF this, of user] obtain w5 where
      w5: "doPendingFunctors (exec_functor user os) (tc_loop ?D) ?t = Inr w5" "loop_inv os (tc_loop ?D) w5"
        "loop_watched (tc_loop ?D) w5 = (loop_watched (tc_loop ?D) ?t)(tc_channel ?D := None)"
        "conns w5 = conns ?t" "calls w5 = calls ?t" "server w5 = server ?t"
    by blast
  have "run_functors user os l w4 = Inr w5"
    using w5(1) w4(6) C(4) by (simp add: run_functors_def as_thread_eq)
  moreover have "server_inv (put_conn c ?D w)"
    by (rule server_inv_frame [OF inv]) (use C(1) in auto)
  then have "server_inv w5"
    by (rule server_inv_erase [where name = "tc_name C"]) (simp_all add: w5 w4 w3)
  ultimately show ?thesis
    using w3 w4 w5 C(4,5) same_registry_keeps(2) [OF registry] same_registry_keeps(2) [OF w3(2)]
    by (intro that [of w3 w4 w5]) simp_all
qed

section \<open>Properties\<close>

text \<open>
  C10 (a connection in another loop comes and goes). On a server whose next connection belongs to a
  loop of another thread, with both queues empty and a user that only watches: \<open>newConnection\<close>
  registers the name and tells nobody; the functors of the connection's loop connect it, watch it
  for input and tell the user; a close there tells the user again and leaves name and registration;
  the functors of the server's loop free the name; and those of the connection's loop unregister
  it. In the end the map of the server, what its loops watch and their agreement with the kernel
  are as before, the user was told twice, and only the disconnected object remains.
\<close>

theorem cross_loop_lifecycle:
  fixes w :: "'a sworld_scheme"
  assumes "server_inv w" and "conns w c = None" and "chans w p = None"
    and "ts_nextConnId (server w) \<noteq> int_max" and "ts_connectionCallback (server w) = Some f"
    and "\<forall>cl v. user f cl v = []"
    and "l = turn (ts_threadPool (server w)) 0" and "b = ts_loop (server w)"
    and "loops w l = Some L" and "loops w b = Some B" and "el_threadId L \<noteq> el_threadId B"
    and "el_pendingFunctors L = []" and "el_pendingFunctors B = []" and "loop_inv os l w"
    and "\<forall>q d. chans w q = Some d \<longrightarrow> ch_loop d = l \<longrightarrow> ch_fd d \<noteq> fd" and "el_wakeupFd L \<noteq> fd"
  shows "\<exists>w1 w2 w3 w4 w5 C. made_connection (server w) p fd peer C \<and>
    as_thread b (newConnection user os c p fd peer) w = Inr w1 \<and> calls w1 = calls w \<and>
      ts_connections (server w1) = (ts_connections (server w))(tc_name C \<mapsto> c) \<and>
    run_functors user os l w1 = Inr w2 \<and> calls w2 = calls w @ [OnConnection c] \<and>
      conns w2 = (conns w)(c \<mapsto> setState kConnected C) \<and>
      loop_watched l w2 = (loop_watched l w)(p \<mapsto> kReadEvent) \<and>
    as_thread l (handleClose user (run_close os) os c) w2 = Inr w3 \<and>
      calls w3 = calls w @ [OnConnection c, OnConnection c] \<and>
      loop_watched l w3 = loop_watched l w2 \<and> server w3 = server w2 \<and>
    run_functors user os b w3 = Inr w4 \<and>
      ts_connections (server w4) = ts_connections (server w) \<and> loop_watched l w4 = loop_watched l w2 \<and>
    run_functors user os l w4 = Inr w5 \<and> calls w5 = calls w @ [OnConnection c, OnConnection c] \<and>
      conns w5 = (conns w)(c \<mapsto> setState kDisconnected C) \<and>
      ts_connections (server w5) = ts_connections (server w) \<and>
      loop_watched l w5 = loop_watched l w \<and> loop_inv os l w5 \<and> server_inv w5"
proof -
  from begins_elsewhere [where user = user and f = f and peer = peer and fd = fd, OF assms(1-12,14-16)] obtain w1 w2 C Q R where
      w1: "as_thread b (newConnection user os c p fd peer) w = Inr w1" "made_connection (server w) p fd peer C"
        "calls w1 = calls w" "server w1 = server_with c (server w)" and
      w2: "run_functors user os l w1 = Inr w2" "loop_inv os l w2" "server_inv w2"
        "loop_watched l w2 = (loop_watched l w)(p \<mapsto> kReadEvent)"
        "conns w2 = (conns w)(c \<mapsto> setState kConnected C)" "calls w2 = calls w @ [OnConnection c]"
        "server w2 = server w1"
        "loops w2 l = Some (L\<lparr>el_pendingFunctors := [], el_callingPendingFunctors := False, el_poller := Q\<rparr>)"
        "loops w2 b = Some (B\<lparr>el_poller := R\<rparr>)" .
  note C = made_simps [OF w1(2)]
  let ?C = "setState kConnected C"
  have S2: "b = ts_loop (server w2)" using w2(7) w1(4) assms(8) by (simp add: server_with_def)
  have pre: "conns w2 c = Some ?C" "tc_connectionCallback ?C = Some f"
      "tc_closeCallback ?C = Some TcpServer_removeConnection" "tc_loop ?C = l" "tc_channel ?C = p"
    using w2(5) C assms(5,7) by simp_all
  have "loop_watched l w2 p \<noteq> None" using w2(4) by simp
  from ends_elsewhere [where user = user and f = f and C = ?C, OF w2(3) pre assms(6) S2 w2(8,9) _ _ _ w2(2) this] assms(11,13)
  obtain w3 w4 w5 where w3: "as_thread l (handleClose user (run_close os) os c) w2 = Inr w3"
      "calls w3 = calls w2 @ [OnConnection c]" "loop_watched l w3 = loop_watched l w2" "server w3 = server w2" and
      w4: "run_functors user os b w3 = Inr w4"
      "ts_connections (server w4) = (ts_connections (server w2))(tc_name ?C := None)"
      "loop_watched l w4 = loop_watched l w2" and w5: "run_functors user os l w4 = Inr w5"
      "calls w5 = calls w2 @ [OnConnection c]" "conns w5 = (conns w2)(c \<mapsto> setState kDisconnected ?C)"
      "ts_connections (server w5) = (ts_connections (server w2))(tc_name ?C := None)"
      "loop_watched l w5 = (loop_watched l w2)(p := None)" "loop_inv os l w5" "server_inv w5"
    by auto
  have "(ts_connections (server w2))(tc_name ?C := None) = ts_connections (server w)"
    using next_name_free [OF assms(1)] w2(7) w1(4) C(1) by (auto simp: server_with_def)
  moreover have "(loop_watched l w2)(p := None) = loop_watched l w"
    using w2(4) assms(3) by (auto simp: loop_watched_def)
  moreover have "setState kDisconnected ?C = setState kDisconnected C" by (simp add: setState_def)
  moreover have "ts_connections (server w1) = (ts_connections (server w))(tc_name C \<mapsto> c)"
    using w1(4) C(1) by (simp add: server_with_def)
  ultimately show ?thesis
    using w1 w2 w3 w4 w5 by (intro exI [of _ w1] exI [of _ w2] exI [of _ w3] exI [of _ w4] exI [of _ w5] exI [of _ C]) simp
qed

text \<open>The demonstration server with a loop of thread 2 for its connections.\<close>

definition io_poller :: poller where
  "io_poller = \<lparr>po_ownerLoop = 1, po_epollfd = 13,
     po_events = replicate kInitEventListSize no_event, po_channels = Map.empty\<rparr>"

definition io_loop :: "pending_functor event_loop" where
  "io_loop = small_loop\<lparr>el_threadId := 2, el_poller := Some io_poller,
     el_wakeupFd := 14, el_wakeupChannel := 48\<rparr>"

definition pooled_server :: tcp_server where
  "pooled_server = demo_server\<lparr>ts_threadPool := (EventLoopThreadPool_ctor 0 ''echo'')
     \<lparr>tp_started := True, tp_numThreads := 1, tp_loops := [1]\<rparr>\<rparr>"

definition pooled_sworld :: sworld where
  "pooled_sworld = (demo_sworld 1)\<lparr>loops := [0 \<mapsto> small_loop, 1 \<mapsto> io_loop],
     chans := [16 \<mapsto> demo_channel, 48 \<mapsto> Channel_ctor 1 14], server := pooled_server\<rparr>"

lemma pooled_simps [simp]:
  "loops pooled_sworld = [0 \<mapsto> small_loop, 1 \<mapsto> io_loop]" "conns pooled_sworld = [7 \<mapsto> named_conn]"
  "chans pooled_sworld = [16 \<mapsto> demo_channel, 48 \<mapsto> Channel_ctor 1 14]" "trace pooled_sworld = []"
  "server pooled_sworld = pooled_server" "calls pooled_sworld = []"
  "ts_nextConnId pooled_server = 2" "ts_connectionCallback pooled_server = Some 0" "ts_loop pooled_server = 0"
  "ts_connections pooled_server = [conn_name demo_server 1 \<mapsto> 7]" "turn (ts_threadPool pooled_server) 0 = 1"
  "el_threadId io_loop = 2" "el_pendingFunctors io_loop = []" "el_wakeupFd io_loop = 14"
  by (simp_all add: pooled_sworld_def pooled_server_def io_loop_def turn_def getAllLoops_def
      EventLoopThreadPool_ctor_def small_loop_def)

lemma pooled_inv: "server_inv pooled_sworld"
  using demo_server_inv [of 1]
  by (simp add: server_inv_def pooled_server_def conn_name_def pool_inv_def EventLoopThreadPool_ctor_def)

lemma pooled_loop_inv: "loop_inv demo_os 1 pooled_sworld"
  by (rule fresh_loop_inv [where m = "[16 \<mapsto> demo_channel]" and p = 48 and ch = "Channel_ctor 1 14"
        and P = io_poller])
    (simp_all add: demo_os_epoll_ctl loop_poller_def io_loop_def io_poller_def demo_channel_def
      Channel_ctor_def kNew_def)

theorem cross_loop_lifecycle_witness:
  "let user = (\<lambda>f cl w. []); peer = InetAddress_ctor (\<lambda>s. 1) 80 ''10.0.0.1''
   in \<exists>w1 w2 w3 w4 w5. as_thread 0 (newConnection user demo_os 8 32 10 peer) pooled_sworld = Inr w1 \<and>
     run_functors user demo_os 1 w1 = Inr w2 \<and> loop_watched 1 w2 32 = Some kReadEvent \<and>
     as_thread 1 (handleClose user (run_close demo_os) demo_os 8) w2 = Inr w3 \<and>
     run_functors user demo_os 0 w3 = Inr w4 \<and> run_functors user demo_os 1 w4 = Inr w5 \<and>
     calls w5 = [OnConnection 8, OnConnection 8] \<and>
     ts_connections (server w5) = [conn_name demo_server 1 \<mapsto> 7] \<and> loop_watched 1 w5 32 = None"
proof -
  let ?peer = "InetAddress_ctor (\<lambda>s. 1) 80 ''10.0.0.1''" and ?user = "\<lambda>f cl w. []"
  let ?S = "server pooled_sworld"
  have pre: "conns pooled_sworld 8 = None" "chans pooled_sworld 32 = None" "ts_nextConnId ?S \<noteq> int_max"
      "ts_connectionCallback ?S = Some 0" "\<forall>cl v. ?user 0 cl v = []" "1 = turn (ts_threadPool ?S) 0"
      "0 = ts_loop ?S" "loops pooled_sworld 1 = Some io_loop" "loops pooled_sworld 0 = Some small_loop"
      "el_threadId io_loop \<noteq> el_threadId small_loop" "el_pendingFunctors io_loop = []"
      "el_pendingFunctors small_loop = []"
    by (simp_all add: int_max_def)
  have "\<forall>q d. chans pooled_sworld q = Some d \<longrightarrow> ch_loop d = 1 \<longrightarrow> ch_fd d \<noteq> 10" "el_wakeupFd io_loop \<noteq> 10"
    by (auto simp: Channel_ctor_def demo_channel_def)
  note life = cross_loop_lifecycle [where user = ?user and f = 0 and peer = ?peer,
      OF pooled_inv pre pooled_loop_inv this]
  obtain w1 w2 w3 w4 w5 where w: "as_thread 0 (newConnection ?user demo_os 8 32 10 ?peer) pooled_sworld = Inr w1"
      "run_functors ?user demo_os 1 w1 = Inr w2" "loop_watched 1 w2 = (loop_watched 1 pooled_sworld)(32 \<mapsto> kReadEvent)"
      "as_thread 1 (handleClose ?user (run_close demo_os) demo_os 8) w2 = Inr w3"
      "run_functors ?user demo_os 0 w3 = Inr w4" "run_functors ?user demo_os 1 w4 = Inr w5"
      "calls w5 = calls pooled_sworld @ [OnConnection 8, OnConnection 8]"
      "ts_connections (server w5) = ts_connections ?S" "loop_watched 1 w5 = loop_watched 1 pooled_sworld"
    using life by (elim exE conjE) (rule that; assumption)
  have "loop_watched 1 pooled_sworld 32 = None" by (simp add: loop_watched_def)
  with w show ?thesis
    unfolding Let_def by (intro exI [of _ w1] exI [of _ w2] exI [of _ w3] exI [of _ w4] exI [of _ w5]) simp
qed

end
