(* ===== verification/StrandedWork.thy ===== *)
theory StrandedWork
  imports CrossLoop LoopThread
begin

text \<open>
  The end of a server whose connections live in loops of other threads: \<open>~TcpServer\<close>
  (\<open>TcpServer.cc\<close>) queues \<open>connectDistroyed\<close> in a connection's loop, and then
  \<open>~EventLoopThread\<close> (\<open>EventLoopThread.cc\<close>) asks that loop to quit. \<open>loop()\<close> looks at its flag
  between two rounds, not at its queue.
\<close>

section \<open>Dismissing a connection of another loop\<close>

lemma dismissed_elsewhere:
  fixes w :: "'a sworld_scheme"
  assumes C: "conns w c = Some C" and L: "loops w (tc_loop C) = Some L" "el_threadId L \<noteq> cur_tid w"
  obtains w' where "dismiss user os c w = Inr w'" and "same_registry l w w'" and "conns w' = conns w"
    and "calls w' = calls w"
    and "server w' = (server w)\<lparr>ts_connections := (ts_connections (server w))(tc_name C := None)\<rparr>"
    and "loops w' (tc_loop C) = Some (L\<lparr>el_pendingFunctors := el_pendingFunctors L @ [F_connectDistroyed c]\<rparr>)"
proof -
  let ?w = "upd_server (\<lambda>S. S\<lparr>ts_connections := (ts_connections S)(tc_name C := None)\<rparr>) w"
  have same: "same_registry l w ?w" by (simp add: same_registry_def loop_poller_def)
  obtain w' where w': "queueInLoop os (tc_loop C) (F_connectDistroyed c) ?w = Inr w'"
    using L by (auto intro: queue_total [of ?w "tc_loop C" L os "F_connectDistroyed c" os])
  then have "dismiss user os c w = Inr w'"
    using C L by (simp add: dismiss_def runInLoop_def isInLoopThread_def)
  then show ?thesis
    using queueInLoop_server [OF w'] L(1) same_registry_trans [OF same same_registry_queue [where l = l, OF w']]
    by (intro that [of w']) auto
qed

lemma more_of_server:
  "lworld.more v = lworld.more w \<Longrightarrow> conns v = conns (w :: 'a sworld_scheme) \<and> calls v = calls w \<and> server v = server w"
  by (cases v; cases w; simp)

section \<open>Properties\<close>

text \<open>
  C36 (the server's destructor can strand a connection). Let a connected connection live in the loop
  of another thread, which is between two rounds of \<open>loop()\<close>. The server's destructor frees the
  name and queues \<open>connectDistroyed\<close> in that loop; then there is a schedule in which
  \<open>~EventLoopThread\<close> quits and joins the thread and the loop is destroyed with the functor in its
  queue: the connection is still connected and the user was never told of its end.
\<close>

theorem teardown_strands_connection:
  fixes w :: "'a sworld_scheme"
  assumes "conns w c = Some C" and "tc_state C = kConnected" and "tc_loop C = te_loop v"
    and "loops w (te_loop v) = Some L" and "el_threadId L \<noteq> cur_tid w"
    and "loop_inv (te_os v) (te_loop v) w" and "el_wakeupChannel L \<in> loop_owned (te_loop v) w"
    and "lt_child s = TLoop" and "lt_starter s = SReturned (te_loop v)" and "lt_mutex s = None"
    and "et_loop (lt_object s) = Some (te_loop v)"
  shows "\<exists>w' K s'. dismiss user (te_os v) c w = Inr w' \<and> ts_connections (server w') (tc_name C) = None \<and>
    loops w' (te_loop v) = Some K \<and> last (el_pendingFunctors K) = F_connectDistroyed c \<and>
    lt_run v dtor_schedule (s\<lparr>lt_world := w'\<rparr>) = Some s' \<and> lt_starter s' = SGone \<and> lt_child s' = TEnded \<and>
    loops (lt_world s') (te_loop v) = None \<and> calls (lt_world s') = calls w \<and>
    conns (lt_world s') c = Some C \<and> tc_state C = kConnected"
proof -
  have L: "loops w (tc_loop C) = Some L" using assms(3,4) by simp
  from dismissed_elsewhere [where user = user and os = "te_os v" and l = "te_loop v", OF assms(1) L assms(5)]
  obtain w' where w': "dismiss user (te_os v) c w = Inr w'" "same_registry (te_loop v) w w'" "conns w' = conns w"
      "calls w' = calls w"
      "server w' = (server w)\<lparr>ts_connections := (ts_connections (server w))(tc_name C := None)\<rparr>"
      "loops w' (tc_loop C) = Some (L\<lparr>el_pendingFunctors := el_pendingFunctors L @ [F_connectDistroyed c]\<rparr>)" .
  let ?K = "L\<lparr>el_pendingFunctors := el_pendingFunctors L @ [F_connectDistroyed c]\<rparr>"
  have "el_wakeupChannel ?K \<in> loop_owned (te_loop v) w'"
    using assms(7) w'(2) by (simp add: loop_owned_def same_registry_def)
  then obtain s' where "lt_run v dtor_schedule (s\<lparr>lt_world := w'\<rparr>) = Some s'" "lt_starter s' = SGone"
      "lt_child s' = TEnded" "lworld.more (lt_world s') = lworld.more w'" "loops (lt_world s') (te_loop v) = None"
    using dtor_between_rounds [of "s\<lparr>lt_world := w'\<rparr>" "te_loop v" v ?K] assms w'(6)
      same_registry_keeps(1) [OF w'(2)]
    by auto
  with w' more_of_server [of "lt_world s'" w'] assms(1-3) show ?thesis
    by (intro exI [of _ w'] exI [of _ ?K] exI [of _ s']) simp
qed

text \<open>A connection in the loop of thread 2, and that thread between two rounds.\<close>

definition io_conn :: tcp_connection where
  "io_conn = named_conn\<lparr>tc_loop := 1, tc_channel := 32\<rparr>"

definition io_world :: sworld where
  "io_world = put_channel 32 (Channel_ctor 1 10) (put_conn 8 io_conn pooled_sworld)"

definition io_env where
  "io_env = \<lparr>te_init = (\<lambda>l. Inr), te_use_poll = False, te_os = demo_os, te_tid = 2, te_loop = 1,
     te_channel = 48, te_body = server_round (\<lambda>f cl (w :: sworld). []) demo_os low_fresh 16 1\<rparr>"

definition io_thread :: event_loop_thread where
  "io_thread = (fst (EventLoopThread_ctor False ''echo0'' 0))\<lparr>et_loop := Some 1\<rparr>"

definition io_state where
  "io_state = \<lparr>lt_starter = SReturned 1, lt_child = TLoop, lt_sem = 0, lt_mutex = None,
     lt_object = io_thread, lt_world = io_world\<rparr>"

lemma io_simps [simp]:
  "conns io_world 8 = Some io_conn" "loops io_world = [0 \<mapsto> small_loop, 1 \<mapsto> io_loop]"
  "cur_tid io_world = 1" "calls io_world = []" "tc_loop io_conn = 1" "tc_channel io_conn = 32"
  "tc_state io_conn = kConnected" "te_os io_env = demo_os" "te_loop io_env = 1"
  "el_wakeupChannel io_loop = 48" "48 \<in> loop_owned (Suc 0) io_world"
  by (simp_all add: io_world_def pooled_sworld_def io_conn_def io_env_def io_loop_def loop_owned_def)
    (simp_all add: named_conn_def demo_conn_def Channel_ctor_def)

lemma io_loop_inv: "loop_inv demo_os 1 io_world"
  unfolding io_world_def
  by (rule loop_inv_new_channel [OF pooled_loop_inv])
    (auto simp: Channel_ctor_def demo_channel_def kNew_def loop_poller_def)

theorem teardown_strands_connection_witness:
  "\<exists>w' s'. dismiss (\<lambda>f cl w. []) demo_os 8 io_world = Inr w' \<and>
     lt_run io_env dtor_schedule (io_state\<lparr>lt_world := w'\<rparr>) = Some s' \<and> lt_starter s' = SGone \<and>
     loops (lt_world s') 1 = None \<and> calls (lt_world s') = [] \<and> conns (lt_world s') 8 = Some io_conn"
proof -
  have s: "lt_child io_state = TLoop" "lt_starter io_state = SReturned (te_loop io_env)"
      "lt_mutex io_state = None" "et_loop (lt_object io_state) = Some (te_loop io_env)"
    by (simp_all add: io_state_def io_thread_def)
  have w: "conns io_world 8 = Some io_conn" "tc_state io_conn = kConnected" "tc_loop io_conn = te_loop io_env"
      "loops io_world (te_loop io_env) = Some io_loop" "el_threadId io_loop \<noteq> cur_tid io_world"
      "loop_inv (te_os io_env) (te_loop io_env) io_world"
      "el_wakeupChannel io_loop \<in> loop_owned (te_loop io_env) io_world"
    using io_loop_inv by simp_all
  from teardown_strands_connection [OF w s, of "\<lambda>f cl w. []"] show ?thesis by auto
qed

end
