(* ===== verification/HighWater.thy ===== *)
theory HighWater
  imports ServerLifecycle
begin

text \<open>
  The high-water mark of a connection (\<open>TcpConnection.cc\<close> \<open>sendInLoop\<close>, \<open>EventLoop.cc\<close>
  \<open>doPendingFunctors\<close>): what a send that goes to the output buffer queues, and what the next round
  of functors makes of it. Only the user can set the callback; \<open>TcpServer\<close> does not.
\<close>

section \<open>What a send queues\<close>

definition crosses_mark :: "tcp_connection \<Rightarrow> size_t \<Rightarrow> bool" where
  "crosses_mark C n \<longleftrightarrow> readableBytes (tc_outputBuffer C) < tc_highWaterMark C \<and>
     tc_highWaterMark C \<le> readableBytes (tc_outputBuffer C) + n"

lemma queue_high_water_eq:
  "queue_high_water os c C n w =
     (if crosses_mark C n
      then queueInLoop os (tc_loop C)
             (F_highWaterMark (tc_highWaterMarkCallback C) c (readableBytes (tc_outputBuffer C) + n)) w
      else Inr w)"
  by (auto simp: queue_high_water_def crosses_mark_def Let_def)

text \<open>On a watched channel the bytes only go to the buffer.\<close>

lemma stored_rest:
  assumes "store_rest os c C d n w = Inr w'" and "chans w (tc_channel C) = Some ch" and "isWriting ch"
  obtains b where "w' = put_conn c (C\<lparr>tc_outputBuffer := b\<rparr>) w"
  using assms by (auto simp: store_rest_def Let_def)

lemma buffered_send:
  fixes w :: "'a sworld_scheme"
  assumes C: "conns w c = Some C" "tc_state C \<noteq> kDisconnected"
    and ch: "chans w (tc_channel C) = Some ch" "isWriting ch"
    and L: "loops w (tc_loop C) = Some L" and n: "n \<noteq> 0" and send: "sendInLoop os c a n w = Inr w'"
  shows "calls w' = calls w \<and> loops w' (tc_loop C) = Some (L\<lparr>el_pendingFunctors := el_pendingFunctors L @
    (if crosses_mark C n then [F_highWaterMark (tc_highWaterMarkCallback C) c
       (readableBytes (tc_outputBuffer C) + n)] else [])\<rparr>)"
proof -
  from assms obtain d where "send_rest os c d n w = Inr w'"
    by (auto simp: sendInLoop_def word_neq_0_conv)
  then obtain v where v: "queue_high_water os c C n w = Inr v" "store_rest os c C d n v = Inr w'"
    using C(1) by (auto simp: send_rest_def)
  from v(1) have v': "chans v = chans w" "calls v = calls w" "loops v (tc_loop C) =
      Some (L\<lparr>el_pendingFunctors := el_pendingFunctors L @ (if crosses_mark C n
        then [F_highWaterMark (tc_highWaterMarkCallback C) c (readableBytes (tc_outputBuffer C) + n)]
        else [])\<rparr>)"
    using L by (auto simp: queue_high_water_eq queueInLoop_server split: if_split_asm
        dest: queueInLoop_server(6))
  then have "chans v (tc_channel C) = Some ch" using ch(1) by simp
  from v(2) this ch(2) obtain b where "w' = put_conn c (C\<lparr>tc_outputBuffer := b\<rparr>) v"
    by (rule stored_rest)
  with v' show ?thesis by simp
qed

section \<open>What the next round makes of it\<close>

lemma high_water_round:
  fixes w :: "'a sworld_scheme"
  assumes "conns w c = Some C" and "tc_state C \<noteq> kDisconnected"
    and "chans w (tc_channel C) = Some ch" and "isWriting ch"
    and "loops w (tc_loop C) = Some L" and "el_pendingFunctors L = []" and "n \<noteq> 0"
    and "sendInLoop os c a n w = Inr w'"
    and "\<forall>g cl v. tc_highWaterMarkCallback C = Some g \<longrightarrow> user g cl v = []"
  shows "if \<not> crosses_mark C n then loops w' (tc_loop C) = Some L
    else (case tc_highWaterMarkCallback C of
        None \<Rightarrow> doPendingFunctors (exec_functor user os) (tc_loop C) w' = Inl BadFunctionCall
      | Some g \<Rightarrow> \<exists>w''. doPendingFunctors (exec_functor user os) (tc_loop C) w' = Inr w'' \<and>
          conns w'' = conns w' \<and>
          calls w'' = calls w @ [OnHighWaterMark c (readableBytes (tc_outputBuffer C) + n)])"
proof -
  let ?f = "F_highWaterMark (tc_highWaterMarkCallback C) c (readableBytes (tc_outputBuffer C) + n)"
  have "L\<lparr>el_pendingFunctors := []\<rparr> = L" using assms(6) by (cases L) simp
  with buffered_send [OF assms(1-5,7,8)] assms(6) have w': "calls w' = calls w"
      "loops w' (tc_loop C) = Some (if crosses_mark C n then L\<lparr>el_pendingFunctors := [?f]\<rparr> else L)"
    by auto
  show ?thesis
  proof (cases "crosses_mark C n")
    case True
    with w' assms(9) show ?thesis
      by (auto simp: doPendingFunctors_def upd_loop_def call_user_def Let_def put_loop_def
          split: option.split)
  qed (use w' in simp)
qed

lemma unset_high_water_throws:
  fixes w :: "'a sworld_scheme"
  assumes "conns w c = Some C" and "tc_state C \<noteq> kDisconnected"
    and "chans w (tc_channel C) = Some ch" and "isWriting ch"
    and "loops w (tc_loop C) = Some L" and "el_pendingFunctors L = []" and "n \<noteq> 0"
    and "sendInLoop os c a n w = Inr w'"
    and "tc_highWaterMarkCallback C = None" and "crosses_mark C n"
  shows "doPendingFunctors (exec_functor user os) (tc_loop C) w' = Inl BadFunctionCall"
  using high_water_round [OF assms(1-8), of user] assms(9,10) by simp

section \<open>Properties\<close>

text \<open>
  C31 (crossing the high-water mark). A send that goes to the output buffer of a watched connection
  queues a call of the high-water callback exactly if the buffer crosses the mark by it. If the user
  has set that callback, the next round of functors calls it once, with the size the buffer
  reached; if nobody has set it, \<open>sendInLoop\<close> queues the empty function all the same, and the round
  ends with the exception of that call.
\<close>

theorem high_water_outcome:
  fixes w :: "'a sworld_scheme"
  assumes "conns w c = Some C" and "tc_state C \<noteq> kDisconnected"
    and "chans w (tc_channel C) = Some ch" and "isWriting ch"
    and "loops w (tc_loop C) = Some L" and "el_pendingFunctors L = []" and "n \<noteq> 0"
    and "sendInLoop os c a n w = Inr w'"
    and "\<forall>g cl v. tc_highWaterMarkCallback C = Some g \<longrightarrow> user g cl v = []"
  shows "if \<not> crosses_mark C n then loops w' (tc_loop C) = Some L
    else (case tc_highWaterMarkCallback C of
        None \<Rightarrow> doPendingFunctors (exec_functor user os) (tc_loop C) w' = Inl BadFunctionCall
      | Some g \<Rightarrow> \<exists>w''. doPendingFunctors (exec_functor user os) (tc_loop C) w' = Inr w'' \<and>
          conns w'' = conns w' \<and>
          calls w'' = calls w @ [OnHighWaterMark c (readableBytes (tc_outputBuffer C) + n)])"
  by (rule high_water_round [OF assms])

text \<open>
  A connection with two bytes waiting, on a channel watched for output, and a user that sets the
  callback when told of the connection: then a send of 64 MB.
\<close>

definition busy_conn :: "user_fn option \<Rightarrow> tcp_connection" where
  "busy_conn h = demo_conn\<lparr>tc_outputBuffer :=
     \<lparr>buffer_vec = replicate 1032 0, readerIndex = 8, writerIndex = 10\<rparr>, tc_highWaterMarkCallback := h\<rparr>"

definition busy_channel :: channel where
  "busy_channel = demo_channel\<lparr>ch_events := kWriteEvent\<rparr>"

definition busy_world :: "user_fn option \<Rightarrow> call list \<Rightarrow> sworld" where
  "busy_world h cs = (demo_sworld 1)\<lparr>conns := [7 \<mapsto> busy_conn h], chans := [16 \<mapsto> busy_channel],
     strings := [100 \<mapsto> replicate (2 ^ 26) 0], calls := cs\<rparr>"

fun mark_user :: "user_fn \<Rightarrow> call \<Rightarrow> sworld \<Rightarrow> api_call list" where
  "mark_user g (OnConnection c) w = [SetHighWaterMarkCallback c (Some 2)]"
| "mark_user g cl w = []"

lemma busy_simps [simp]:
  "tc_loop (busy_conn h) = 0" "tc_channel (busy_conn h) = 16" "tc_socket (busy_conn h) = 9"
  "tc_state (busy_conn h) = kConnected" "tc_highWaterMarkCallback (busy_conn h) = h"
  "tc_highWaterMark (busy_conn h) = kHighWaterMark"
  "tc_outputBuffer (busy_conn h) = \<lparr>buffer_vec = replicate 1032 0, readerIndex = 8, writerIndex = 10\<rparr>"
  "tc_inputBuffer (busy_conn h) = Buffer_ctor kInitialSize"
  "conns (busy_world h cs) = [7 \<mapsto> busy_conn h]" "chans (busy_world h cs) = [16 \<mapsto> busy_channel]"
  "loops (busy_world h cs) = [0 \<mapsto> small_loop]" "calls (busy_world h cs) = cs"
  "trace (busy_world h cs) = []" "cur_tid (busy_world h cs) = 1" "isWriting busy_channel"
  by (simp_all add: busy_conn_def busy_world_def busy_channel_def isWriting_def kWriteEvent_def epoll_masks)
    (simp_all add: demo_conn_def)

lemma busy_send: "\<exists>w'. sendInLoop demo_os 7 100 (2 ^ 26) (busy_world h cs) = Inr w'"
proof -
  have ok: "conn_ok 7 (busy_conn h) busy_channel (busy_world h cs)"
    by (simp add: conn_ok_def shows_conn_def isInLoopThread_def
        buffer_inv_def readable_def buffer_size_def Buffer_ctor_def kCheapPrepend_def kInitialSize_def)
      (simp add: busy_channel_def)
  have inv: "loop_inv demo_os (tc_loop (busy_conn h)) (busy_world h cs)"
    by (rule fresh_loop_inv [where m = Map.empty and p = 16 and ch = busy_channel and
          P = "\<lparr>po_ownerLoop = 0, po_epollfd = 3,
            po_events = replicate kInitEventListSize no_event, po_channels = Map.empty\<rparr>"])
      (simp_all add: demo_os_epoll_ctl loop_poller_def small_loop_def, simp add: busy_channel_def)
  have "read_bytes 100 (2 ^ 26) (busy_world h cs) = Inr (replicate (2 ^ 26) 0)"
    by (simp add: read_bytes_def busy_world_def)
  from sendInLoop_total [OF ok inv demo_os_write this] show ?thesis by auto
qed

lemma busy_crosses: "crosses_mark (busy_conn h) (2 ^ 26)"
  by (simp add: crosses_mark_def readableBytes_def kHighWaterMark_def)

theorem high_water_outcome_witness:
  "\<exists>w1 w' w''. call_user mark_user demo_os (Some 0) (OnConnection 7) (busy_world None []) = Inr w1 \<and>
     sendInLoop demo_os 7 100 (2 ^ 26) w1 = Inr w' \<and>
     doPendingFunctors (exec_functor (\<lambda>g cl w. []) demo_os) 0 w' = Inr w'' \<and>
     calls w'' = [OnConnection 7, OnHighWaterMark 7 (2 ^ 26 + 2)]"
proof -
  let ?w = "busy_world (Some 2) [OnConnection 7]"
  have told: "call_user mark_user demo_os (Some 0) (OnConnection 7) (busy_world None []) = Inr ?w"
    by (simp add: call_user_def upd_conn_def) (simp add: busy_world_def busy_conn_def put_conn_def)
  obtain w' where w': "sendInLoop demo_os 7 100 (2 ^ 26) ?w = Inr w'" using busy_send by blast
  have pre: "conns ?w 7 = Some (busy_conn (Some 2))" "tc_state (busy_conn (Some 2)) \<noteq> kDisconnected"
      "chans ?w (tc_channel (busy_conn (Some 2))) = Some busy_channel"
      "loops ?w (tc_loop (busy_conn (Some 2))) = Some small_loop" "el_pendingFunctors small_loop = []"
      "(2 ^ 26 :: size_t) \<noteq> 0"
    by simp_all
  from high_water_outcome [where user = "\<lambda>g cl w. []", OF pre(1-3) busy_simps(15) pre(4-6) w']
  obtain w'' where "doPendingFunctors (exec_functor (\<lambda>g cl w. []) demo_os) 0 w' = Inr w''"
      "calls w'' = [OnConnection 7, OnHighWaterMark 7 (2 + 2 ^ 26)]"
    using busy_crosses [of "Some 2"] by (auto simp: readableBytes_def)
  with told w' show ?thesis by (auto simp: add.commute)
qed

lemma unset_high_water_example:
  "\<exists>w'. sendInLoop demo_os 7 100 (2 ^ 26) (busy_world None []) = Inr w' \<and>
     doPendingFunctors (exec_functor (\<lambda>f cl w. []) demo_os) 0 w' = Inl BadFunctionCall"
proof -
  obtain w' where w': "sendInLoop demo_os 7 100 (2 ^ 26) (busy_world None []) = Inr w'"
    using busy_send by blast
  have "doPendingFunctors (exec_functor (\<lambda>f cl w. []) demo_os) (tc_loop (busy_conn None)) w' = Inl BadFunctionCall"
    by (rule unset_high_water_throws [where L = small_loop, OF _ _ _ busy_simps(15) _ _ _ w'])
      (use busy_crosses [of None] in simp_all)
  with w' show ?thesis by simp
qed

end
