(* ===== verification/Schedules.thy ===== *)
theory Schedules
  imports WellTyped
begin

text \<open>
  The loops of a server interleaved at their handlers and functors (\<open>EventLoop.cc\<close> \<open>loop\<close> and
  \<open>doPendingFunctors\<close>, over \<open>TcpServer.cc\<close> and \<open>TcpConnection.cc\<close>): every loop is at some place
  of its round, and a schedule says whose thread makes the next step. A poll, a handler and a
  functor are one step each, and so are setting the flag, taking the queue, and clearing the flag.
\<close>

section \<open>Steps\<close>

text \<open>Where a loop is in its round; the rest of the reported channels, the rest of the functors taken.\<close>

datatype round_pc =
    AtPoll
  | Handling Timestamp "ptr list"
  | AtSwap
  | Running "pending_functor list"

definition loop_move ::
  "(user_fn \<Rightarrow> call \<Rightarrow> 'a sworld_scheme \<Rightarrow> api_call list) \<Rightarrow> os \<Rightarrow> ('a sworld_scheme \<Rightarrow> conn_id \<times> ptr)
     \<Rightarrow> u32 \<Rightarrow> loop_id \<Rightarrow> round_pc \<Rightarrow> 'a sworld_scheme \<Rightarrow> failure + (round_pc \<times> 'a sworld_scheme)" where
  "loop_move user os fresh len l pc w =
     (case pc of
        AtPoll \<Rightarrow>
          bnd (upd_loop l (\<lambda>L. L\<lparr>el_activeChannels := []\<rparr>) w) (\<lambda>w.
          bnd (poll_step os l w) (\<lambda>w.
          bnd (get_loop l w) (\<lambda>L.
          Inr (Handling (el_pollReturnTime L) (el_activeChannels L), w))))
      | Handling t [] \<Rightarrow>
          bnd (upd_loop l (\<lambda>L. L\<lparr>el_callingPendingFunctors := True\<rparr>) w) (\<lambda>w. Inr (AtSwap, w))
      | Handling t (p # ps) \<Rightarrow>
          bnd (handleEvent (invoke user os fresh len) alive t p w) (\<lambda>w. Inr (Handling t ps, w))
      | AtSwap \<Rightarrow>
          bnd (get_loop l w) (\<lambda>L.
          bnd (upd_loop l (\<lambda>L. L\<lparr>el_pendingFunctors := []\<rparr>) w) (\<lambda>w.
          Inr (Running (el_pendingFunctors L), w)))
      | Running [] \<Rightarrow>
          bnd (upd_loop l (\<lambda>L. L\<lparr>el_callingPendingFunctors := False\<rparr>) w) (\<lambda>w. Inr (AtPoll, w))
      | Running (f # fs) \<Rightarrow>
          bnd (exec_functor user os f w) (\<lambda>w. Inr (Running fs, w)))"

text \<open>A step of the thread of loop \<open>l\<close>.\<close>

definition sched_step ::
  "(user_fn \<Rightarrow> call \<Rightarrow> 'a sworld_scheme \<Rightarrow> api_call list) \<Rightarrow> os \<Rightarrow> ('a sworld_scheme \<Rightarrow> conn_id \<times> ptr)
     \<Rightarrow> u32 \<Rightarrow> loop_id \<Rightarrow> (loop_id \<Rightarrow> round_pc) \<times> 'a sworld_scheme
     \<Rightarrow> failure + ((loop_id \<Rightarrow> round_pc) \<times> 'a sworld_scheme)" where
  "sched_step user os fresh len l s =
     (let (pcs, w) = s
      in bnd (get_loop l w) (\<lambda>L.
         bnd (loop_move user os fresh len l (pcs l) (w\<lparr>cur_tid := el_threadId L\<rparr>)) (\<lambda>(pc, w).
         Inr (pcs(l := pc), w))))"

lemma sched_step_Inr:
  assumes "sched_step user os fresh len l (pcs, w) = Inr s"
  obtains L pc w' where "loops w l = Some L" and "s = (pcs(l := pc), w')"
    and "loop_move user os fresh len l (pcs l) (w\<lparr>cur_tid := el_threadId L\<rparr>) = Inr (pc, w')"
  using assms by (auto simp: sched_step_def)

section \<open>Invariants of all schedules\<close>

text \<open>Whatever the steps of loops, handlers and functors keep.\<close>

lemma move_cases:
  assumes "loop_move user os fresh len l pc w = Inr (pc', w')"
  obtains f where "upd_loop l f w = Inr w'" and "\<And>L. loop_step L (f L)"
  | f v where "upd_loop l f w = Inr v" and "\<And>L. loop_step L (f L)" and "poll_step os l v = Inr w'"
  | t p where "handleEvent (invoke user os fresh len) alive t p w = Inr w'"
  | f where "exec_functor user os f w = Inr w'"
  using assms by (auto simp: loop_move_def split: round_pc.split_asm list.split_asm)

lemma good_move:
  fixes w :: "'a sworld_scheme"
  assumes fresh: "gives_fresh fresh" and "loop_move user os fresh len l pc w = Inr (pc', w')"
    and "server_good w"
  shows "server_good w'"
  using assms(2)
  by (rule move_cases)
    (use assms(3) in \<open>auto intro: good_upd_loop good_poll good_dispatch [OF fresh] good_exec_functor\<close>)

lemma good_sched:
  fixes w :: "'a sworld_scheme"
  assumes fresh: "gives_fresh fresh"
    and "run (map (sched_step user os fresh len) ls) (pcs, w) = Inr (pcs', w')" and "server_good w"
  shows "server_good w'"
proof -
  have "server_good (snd (pcs', w'))"
    using assms(2)
  proof (rule run_invariant [where P = "\<lambda>s. server_good (snd s)"])
    fix g s s'
    assume g: "g \<in> set (map (sched_step user os fresh len) ls)" "g s = Inr s'" and good: "server_good (snd s)"
    obtain qs v where s: "s = (qs, v)" by (cases s)
    from g s obtain l where "sched_step user os fresh len l (qs, v) = Inr s'" by auto
    then show "server_good (snd s')"
    proof (rule sched_step_Inr)
      fix L pc v'
      assume "s' = (qs(l := pc), v')"
        and move: "loop_move user os fresh len l (qs l) (v\<lparr>cur_tid := el_threadId L\<rparr>) = Inr (pc, v')"
      have "server_good (v\<lparr>cur_tid := el_threadId L\<rparr>)"
        by (rule server_frame_good [OF server_frame_same]) (use good s in simp_all)
      then show "server_good (snd s')" using good_move [OF fresh move] \<open>s' = _\<close> by simp
    qed
  qed (use assms(3) in simp)
  then show ?thesis by simp
qed

context turn_invariant
begin

lemma keeps_move:
  assumes fresh: "gives_new fresh" and os: "readv_contract os"
    and "loop_move user os fresh len l pc w = Inr (pc', w')" and P: "P w"
  shows "P w'"
  using assms(3)
proof (rule move_cases)
  fix f assume "upd_loop l f w = Inr w'" "\<And>L. loop_step L (f L)"
  then show "P w'" by (rule frame_law [OF P store_frame_upd_loop])
next
  fix f v assume v: "upd_loop l f w = Inr v" "\<And>L. loop_step L (f L)" "poll_step os l v = Inr w'"
  show "P w'"
    by (rule frame_law [OF frame_law [OF P store_frame_upd_loop [OF v(1,2)]] store_frame_poll [OF v(3)]])
next
  fix t p assume "handleEvent (invoke user os fresh len) alive t p w = Inr w'"
  then show "P w'" using P by (rule keeps_dispatch [OF fresh os])
next
  fix f assume "exec_functor user os f w = Inr w'"
  then show "P w'" by (rule frame_law [OF P store_frame_functor])
qed

lemma keeps_sched:
  assumes "gives_new fresh" and "readv_contract os"
    and "run (map (sched_step user os fresh len) ls) (pcs, w) = Inr (pcs', w')" and "P w"
  shows "P w'"
proof -
  have "P (snd (pcs', w'))"
    using assms(3)
  proof (rule run_invariant [where P = "\<lambda>s. P (snd s)"])
    fix g s s'
    assume g: "g \<in> set (map (sched_step user os fresh len) ls)" "g s = Inr s'" and inv: "P (snd s)"
    obtain qs v where s: "s = (qs, v)" by (cases s)
    from g s obtain l where "sched_step user os fresh len l (qs, v) = Inr s'" by auto
    then show "P (snd s')"
    proof (rule sched_step_Inr)
      fix L pc v'
      assume "s' = (qs(l := pc), v')"
        and move: "loop_move user os fresh len l (qs l) (v\<lparr>cur_tid := el_threadId L\<rparr>) = Inr (pc, v')"
      have "P (v\<lparr>cur_tid := el_threadId L\<rparr>)" by (rule frame_law [of v]) (use inv s in simp_all)
      then show "P (snd s')" using keeps_move [OF assms(1,2) move] \<open>s' = _\<close> by simp
    qed
  qed (use assms(4) in simp)
  then show ?thesis by simp
qed

end

section \<open>A turn is a schedule\<close>

text \<open>No step changes which thread runs.\<close>

lemma tid_user: "user_frame w v \<Longrightarrow> cur_tid v = cur_tid w"
  by (simp add: user_frame_def)

lemma tid_runInLoop:
  fixes w :: "'a sworld_scheme"
  assumes "runInLoop exec os l f w = Inr w'" and "\<And>v. exec f w = Inr v \<Longrightarrow> cur_tid v = cur_tid w"
  shows "cur_tid w' = cur_tid w"
  using assms by (auto simp: runInLoop_def queueInLoop_server(4) split: if_split_asm)

lemma tid_remove:
  fixes w :: "'a sworld_scheme"
  shows "removeConnectionInLoop os c w = Inr w' \<Longrightarrow> cur_tid w' = cur_tid w"
    and "removeConnection os c w = Inr w' \<Longrightarrow> cur_tid w' = cur_tid w"
  by (auto simp: removeConnectionInLoop_def removeConnection_def queueInLoop_server(4)
      dest: queueInLoop_server(4) elim!: tid_runInLoop)

lemma tid_close:
  fixes w :: "'a sworld_scheme"
  assumes "handleClose user (run_close os) os c w = Inr w'"
  shows "cur_tid w' = cur_tid w"
proof -
  from assms obtain C v D g where "call_user user os (tc_connectionCallback C) (OnConnection c)
      (put_conn c (setState kDisconnected C) w) = Inr v" "run_close os g c v = Inr w'"
    by (auto simp: handleClose_def upd_conn_def split: option.splits)
  then show ?thesis by (cases g) (auto dest!: call_user_server(4) tid_remove(2))
qed

lemma tid_read:
  fixes w :: "'a sworld_scheme"
  assumes "handleRead user (run_close os) os c t w = Inr w'"
  shows "cur_tid w' = cur_tid w"
proof -
  from assms obtain C n b v and ch :: channel where
      "readFd os (ch_fd ch) (tc_inputBuffer C) w = Inr (n, b, v)" and
      rest: "(case n of Inl e \<Rightarrow> handleError os c (log_msg ERROR (put_conn c (C\<lparr>tc_inputBuffer := b\<rparr>) v))
        | Inr n \<Rightarrow> if n = 0 then handleClose user (run_close os) os c (put_conn c (C\<lparr>tc_inputBuffer := b\<rparr>) v)
          else call_user user os (tc_messageCallback C) (OnMessage c t)
            (put_conn c (C\<lparr>tc_inputBuffer := b\<rparr>) v)) = Inr w'"
    by (auto simp: handleRead_def Let_def)
  then show ?thesis
    by (auto dest!: readFd_emits tid_close call_user_server(4) tid_user [OF frame_handleError]
        split: sum.splits if_split_asm)
qed

lemma tid_established:
  fixes w :: "'a sworld_scheme"
  assumes "connectEstablished user os c w = Inr w'"
  shows "cur_tid w' = cur_tid w"
  using assms
  by (auto simp: connectEstablished_def upd_conn_def dest!: call_user_server(4) tid_user [OF frame_interest])

lemma tid_destroyed:
  fixes w :: "'a sworld_scheme"
  assumes "connectDistroyed user os c w = Inr w'"
  shows "cur_tid w' = cur_tid w"
  using assms
  by (auto simp: connectDistroyed_def dest!: call_user_server(4) tid_user [OF frame_interest]
      tid_user [OF frame_remove] split: if_split_asm)

lemma tid_listen:
  fixes w :: "'a sworld_scheme"
  assumes "server_listen os w = Inr w'"
  shows "cur_tid w' = cur_tid w"
  using assms
  by (auto simp: server_listen_def Acceptor_listen_def Socket_listen_def sys_listen_def Let_def
      dest!: tid_user [OF frame_interest] split: option.splits)

lemma tid_new:
  fixes w :: "'a sworld_scheme"
  assumes "newConnection user os c p fd peer w = Inr w'"
  shows "cur_tid w' = cur_tid w"
  using assms
  by (auto simp: newConnection_def local_addr_def sys_getsockname_def TcpConnection_ctor_def setKeepAlive_def
      sys_setsockopt_def upd_conn_def Let_def dest!: tid_runInLoop [OF _ tid_established]
      split: if_split_asm sum.splits prod.split_asm)

lemma tid_invoke:
  fixes w :: "'a sworld_scheme"
  assumes "invoke user os fresh len t cb w = Inr w'"
  shows "cur_tid w' = cur_tid w"
proof (cases cb)
  case (EventLoop_handleRead l)
  with assms show ?thesis by (auto simp: EventLoop_handleRead_body_def sys_read_def Let_def)
next
  case Acceptor_handleRead
  with assms show ?thesis
    by (auto simp: accept_handleRead_def Socket_accept_def sys_accept_def sys_close_def Let_def
        split: sum.splits if_split_asm prod.split_asm dest!: tid_new)
qed (use assms in \<open>auto dest: tid_read tid_close tid_user [OF frame_handleWrite] tid_user [OF frame_handleError]\<close>)

lemma tid_dispatch:
  fixes w :: "'a sworld_scheme"
  assumes "handleEvent (invoke user os fresh len) alive t p w = Inr w'"
  shows "cur_tid w' = cur_tid w"
proof -
  have one: "cur_tid u = cur_tid v" if "dispatch_if (invoke user os fresh len) t p cond cb v = Inr u"
    for cond and v u :: "'a sworld_scheme" and cb :: "channel \<Rightarrow> callback option"
    using that by (auto simp: dispatch_if_def split: if_split_asm option.splits dest: tid_invoke)
  have "cur_tid w' = cur_tid w" if "handleEventWithGuard (invoke user os fresh len) t p w = Inr w'"
    using that [unfolded handleEventWithGuard_def]
    by (rule run_invariant) (auto dest: one)
  with assms show ?thesis by (auto simp: handleEvent_def split: if_split_asm option.splits)
qed

lemma tid_functor:
  fixes w :: "'a sworld_scheme"
  assumes "exec_functor user os f w = Inr w'"
  shows "cur_tid w' = cur_tid w"
  using assms
  by (cases f) (auto dest: tid_established tid_destroyed tid_remove(1) tid_listen call_user_server(4)
      tid_user [OF frame_sendInLoop] tid_user [OF frame_shutdownInLoop])

lemma tid_poll:
  fixes w :: "'a sworld_scheme"
  assumes "poll_step os l w = Inr w'"
  shows "cur_tid w' = cur_tid w"
proof -
  have fill: "cur_tid v = cur_tid u" if "fill_entries es u = Inr (ps, v)" for es ps and u v :: "'a sworld_scheme"
    using that by (induction es arbitrary: u ps) fastforce+
  have "cur_tid v = cur_tid w" if "EPollPoller_poll os P w = Inr (now, P', ps, v)" for P now P' ps v
    using that by (auto simp: EPollPoller_poll_def sys_epoll_wait_def fillActiveChannels_def Let_def
        split: sum.splits if_split_asm dest!: fill)
  with assms show ?thesis by (fastforce simp: poll_step_def upd_loop_Inr split: option.splits)
qed

text \<open>So a step made in the loop's own thread is made there again next time.\<close>

definition at_home :: "loop_id \<Rightarrow> 'a sworld_scheme \<Rightarrow> bool" where
  "at_home l w \<longleftrightarrow> (\<exists>L. loops w l = Some L \<and> el_threadId L = cur_tid w)"

interpretation home: turn_invariant "\<lambda>w. \<exists>L. loops w l = Some L \<and> el_threadId L = t" for l t
proof unfold_locales
  fix w v :: "'a sworld_scheme"
  assume "\<exists>L. loops w l = Some L \<and> el_threadId L = t" and "store_frame w v"
  then obtain L where L: "loops w l = Some L" "el_threadId L = t"
      and step: "\<forall>l. rel_option loop_step (loops w l) (loops v l)"
    by (auto simp: store_frame_def)
  with spec [OF step, of l] show "\<exists>L. loops v l = Some L \<and> el_threadId L = t"
    by (auto simp: option_rel_Some1 loop_step_def)
qed (simp add: put_channel_def)

lemma at_home_move:
  fixes w :: "'a sworld_scheme"
  assumes fresh: "gives_new fresh" and os: "readv_contract os"
    and move: "loop_move user os fresh len l pc w = Inr (pc', w')" and home: "at_home l w"
  shows "at_home l w'"
proof -
  have tid: "cur_tid w' = cur_tid w"
    using move by (rule move_cases) (auto simp: upd_loop_Inr dest: tid_poll tid_dispatch tid_functor)
  from home have "\<exists>L. loops w l = Some L \<and> el_threadId L = cur_tid w" by (simp add: at_home_def)
  then have "\<exists>L. loops w' l = Some L \<and> el_threadId L = cur_tid w"
    by (rule home.keeps_move [OF fresh os move])
  then show ?thesis by (simp add: at_home_def tid)
qed

lemma own_step:
  assumes "at_home l w"
  shows "sched_step user os fresh len l (pcs, w) =
    bnd (loop_move user os fresh len l (pcs l) w) (\<lambda>(pc, w). Inr (pcs(l := pc), w))"
proof -
  from assms obtain L where "loops w l = Some L" "el_threadId L = cur_tid w" by (auto simp: at_home_def)
  moreover have "w\<lparr>cur_tid := cur_tid w\<rparr> = w" by simp
  ultimately show ?thesis by (simp add: sched_step_def)
qed

lemma home_after:
  fixes w :: "'a sworld_scheme"
  assumes "gives_new fresh" and "readv_contract os" and "at_home l w"
  shows "upd_loop l f w = Inr v \<Longrightarrow> (\<And>L. loop_step L (f L)) \<Longrightarrow> at_home l v"
    and "handleEvent (invoke user os fresh len) alive t p w = Inr v \<Longrightarrow> at_home l v"
    and "exec_functor user os g w = Inr v \<Longrightarrow> at_home l v"
proof -
  note move = at_home_move [OF assms(1,2) _ assms(3)]
  show "at_home l v" if f: "upd_loop l f w = Inr v" "\<And>L. loop_step L (f L)"
  proof -
    from f(1) obtain L where L: "loops w l = Some L" "v = put_loop l (f L) w" by (auto simp: upd_loop_Inr)
    with assms(3) f(2) [of L] show ?thesis by (auto simp: at_home_def loop_step_def)
  qed
  show "at_home l v" if "handleEvent (invoke user os fresh len) alive t p w = Inr v"
    by (rule move [of user len "Handling t [p]" "Handling t []"]) (use that in \<open>simp add: loop_move_def\<close>)
  show "at_home l v" if "exec_functor user os g w = Inr v"
    by (rule move [of user len "Running [g]" "Running []"]) (use that in \<open>simp add: loop_move_def\<close>)
qed

lemma home_poll:
  fixes w :: "'a sworld_scheme"
  assumes "at_home l w" and "poll_step os l w = Inr v"
  shows "at_home l v"
  using assms(1) home.frame_law [OF _ store_frame_poll [OF assms(2)], of l "cur_tid w"]
  by (simp add: at_home_def tid_poll [OF assms(2)])

text \<open>Some number of steps ends in \<open>r\<close>, be it a state or a failure.\<close>

definition reaches :: "('s \<Rightarrow> 'e + 's) \<Rightarrow> 's \<Rightarrow> 'e + 's \<Rightarrow> bool" where
  "reaches step s r \<longleftrightarrow> (\<exists>n. run (replicate n step) s = r)"

lemma reaches_self [simp]: "reaches step s (Inr s)"
  by (auto simp: reaches_def intro: exI [of _ 0])

lemma reaches_trans:
  assumes "reaches step s (Inr u)" and "reaches step u r"
  shows "reaches step s r"
proof -
  from assms obtain m n where "run (replicate m step) s = Inr u" "run (replicate n step) u = r"
    by (auto simp: reaches_def)
  then have "run (replicate (m + n) step) s = r" by (simp add: replicate_add run_append)
  then show ?thesis unfolding reaches_def by blast
qed

lemma reaches_step:
  assumes "step s = bnd m (\<lambda>x. Inr (h x))" and "\<And>x. m = Inr x \<Longrightarrow> reaches step (h x) (k x)"
  shows "reaches step s (bnd m k)"
proof (cases m)
  case (Inl e)
  with assms(1) have "run (replicate 1 step) s = bnd m k" by simp
  then show ?thesis unfolding reaches_def by blast
next
  case (Inr x)
  with assms(1) have "run (replicate 1 step) s = Inr (h x)" by simp
  then have "reaches step s (Inr (h x))" unfolding reaches_def by blast
  with assms(2) [OF Inr] Inr show ?thesis by (auto intro: reaches_trans)
qed

text \<open>The rest of a round, from each place in it.\<close>

lemma functors_by_steps:
  fixes w :: "'a sworld_scheme"
  assumes ok: "gives_new fresh" "readv_contract os" and "at_home l w"
  shows "reaches (sched_step user os fresh len l) (pcs(l := Running fs), w)
    (bnd (run (map (exec_functor user os) fs) w) (\<lambda>w.
     bnd (upd_loop l (\<lambda>L. L\<lparr>el_callingPendingFunctors := False\<rparr>) w) (\<lambda>w. Inr (pcs(l := AtPoll), w))))"
  using assms(3)
proof (induction fs arbitrary: w)
  case Nil
  then have "sched_step user os fresh len l (pcs(l := Running []), w) =
      bnd (upd_loop l (\<lambda>L. L\<lparr>el_callingPendingFunctors := False\<rparr>) w) (\<lambda>w. Inr (pcs(l := AtPoll), w))"
    by (simp add: own_step loop_move_def bnd_assoc)
  then show ?case by (simp only: list.map run.simps bnd_Inr) (rule reaches_step, assumption, rule reaches_self)
next
  case (Cons f fs)
  have "sched_step user os fresh len l (pcs(l := Running (f # fs)), w) =
      bnd (exec_functor user os f w) (\<lambda>w. Inr (pcs(l := Running fs), w))"
    using Cons.prems by (simp add: own_step loop_move_def bnd_assoc)
  from reaches_step [OF this Cons.IH [OF home_after(3) [OF ok Cons.prems]]] show ?case
    by (simp only: list.map run.simps bnd_assoc)
qed

lemma handlers_by_steps:
  fixes w :: "'a sworld_scheme"
  assumes ok: "gives_new fresh" "readv_contract os" and "at_home l w"
    and rest: "\<And>v. at_home l v \<Longrightarrow> reaches (sched_step user os fresh len l) (pcs(l := Handling t []), v) (k v)"
  shows "reaches (sched_step user os fresh len l) (pcs(l := Handling t ps), w)
    (bnd (run (map (handleEvent (invoke user os fresh len) alive t) ps) w) k)"
  using assms(3)
proof (induction ps arbitrary: w)
  case Nil
  from rest [OF this] show ?case by (simp only: list.map run.simps bnd_Inr)
next
  case (Cons p ps)
  have "sched_step user os fresh len l (pcs(l := Handling t (p # ps)), w) =
      bnd (handleEvent (invoke user os fresh len) alive t p w) (\<lambda>w. Inr (pcs(l := Handling t ps), w))"
    using Cons.prems by (simp add: own_step loop_move_def bnd_assoc)
  from reaches_step [OF this Cons.IH [OF home_after(2) [OF ok Cons.prems]]] show ?case
    by (simp only: list.map run.simps bnd_assoc)
qed

lemma pending_by_steps:
  fixes w :: "'a sworld_scheme"
  assumes ok: "gives_new fresh" "readv_contract os" and home: "at_home l w"
  shows "reaches (sched_step user os fresh len l) (pcs(l := Handling t []), w)
    (bnd (doPendingFunctors (exec_functor user os) l w) (\<lambda>w. Inr (pcs(l := AtPoll), w)))"
proof -
  let ?r = "reaches (sched_step user os fresh len l)"
  have swap: "?r (pcs(l := AtSwap), v)
      (bnd (get_loop l v) (\<lambda>L. bnd (upd_loop l (\<lambda>L. L\<lparr>el_pendingFunctors := []\<rparr>) v) (\<lambda>w.
       bnd (run (map (exec_functor user os) (el_pendingFunctors L)) w) (\<lambda>w.
       bnd (upd_loop l (\<lambda>L. L\<lparr>el_callingPendingFunctors := False\<rparr>) w) (\<lambda>w. Inr (pcs(l := AtPoll), w))))))"
    if v: "at_home l v" for v :: "'a sworld_scheme"
  proof -
    from v obtain L where L: "loops v l = Some L" by (auto simp: at_home_def)
    have "sched_step user os fresh len l (pcs(l := AtSwap), v) =
        bnd (upd_loop l (\<lambda>L. L\<lparr>el_pendingFunctors := []\<rparr>) v)
          (\<lambda>w. Inr (pcs(l := Running (el_pendingFunctors L)), w))"
      using v L by (simp add: own_step loop_move_def)
    from reaches_step [OF this functors_by_steps [OF ok home_after(1) [OF ok v]]] L show ?thesis
      by simp
  qed
  have "sched_step user os fresh len l (pcs(l := Handling t []), w) =
      bnd (upd_loop l (\<lambda>L. L\<lparr>el_callingPendingFunctors := True\<rparr>) w) (\<lambda>w. Inr (pcs(l := AtSwap), w))"
    using home by (simp add: own_step loop_move_def bnd_assoc)
  from reaches_step [OF this swap [OF home_after(1) [OF ok home]]] show ?thesis
    by (simp add: doPendingFunctors_def Let_def bnd_assoc)
qed

lemma turn_by_steps:
  fixes w :: "'a sworld_scheme"
  assumes ok: "gives_new fresh" "readv_contract os" and pc: "pcs l = AtPoll"
  shows "reaches (sched_step user os fresh len l) (pcs, w)
    (bnd (take_turn user os fresh len l w) (\<lambda>w. Inr (pcs, w)))"
proof (cases "loops w l")
  case None
  then have "run (replicate 1 (sched_step user os fresh len l)) (pcs, w) =
      bnd (take_turn user os fresh len l w) (\<lambda>w. Inr (pcs, w))"
    by (simp add: sched_step_def take_turn_def)
  then show ?thesis unfolding reaches_def by blast
next
  case (Some L)
  define v where "v = w\<lparr>cur_tid := el_threadId L\<rparr>"
  define m where "m = bnd (upd_loop l (\<lambda>L. L\<lparr>el_activeChannels := []\<rparr>) v) (poll_step os l)"
  define h where "h u = (pcs(l := Handling (el_pollReturnTime (the (loops u l)))
    (el_activeChannels (the (loops u l)))), u)" for u :: "'a sworld_scheme"
  have vL: "loops v l = Some L" and v: "at_home l v" using Some by (simp_all add: at_home_def v_def)
  have m: "at_home l u" if "m = Inr u" for u
    using that unfolding m_def by (auto intro: home_poll dest: home_after(1) [OF ok v] simp: upd_loop_Inr)
  have move: "sched_step user os fresh len l (pcs, w) = bnd m (\<lambda>u. bnd (get_loop l u) (\<lambda>L.
      Inr (pcs(l := Handling (el_pollReturnTime L) (el_activeChannels L)), u)))"
    using Some vL by (simp add: sched_step_def loop_move_def pc v_def [symmetric] m_def bnd_assoc)
  have "sched_step user os fresh len l (pcs, w) = bnd m (\<lambda>u. Inr (h u))"
  proof (cases m)
    case (Inr u)
    with m obtain K where "loops u l = Some K" by (auto simp: at_home_def)
    with move Inr show ?thesis by (simp add: h_def)
  qed (simp add: move)
  moreover have "reaches (sched_step user os fresh len l) (h u)
      (bnd (handle_active (invoke user os fresh len) alive l u) (\<lambda>w.
       bnd (doPendingFunctors (exec_functor user os) l w) (\<lambda>w. Inr (pcs(l := AtPoll), w))))"
    if "m = Inr u" for u
  proof -
    from m [OF that] obtain K where "loops u l = Some K" by (auto simp: at_home_def)
    with handlers_by_steps [OF ok m [OF that] pending_by_steps [OF ok]] show ?thesis
      by (simp only: h_def handle_active_def get_loop_simps bnd_Inr option.sel)
  qed
  ultimately have "reaches (sched_step user os fresh len l) (pcs, w) (bnd m (\<lambda>u.
      bnd (handle_active (invoke user os fresh len) alive l u) (\<lambda>w.
      bnd (doPendingFunctors (exec_functor user os) l w) (\<lambda>w. Inr (pcs(l := AtPoll), w)))))"
    by (rule reaches_step)
  moreover have "pcs(l := AtPoll) = pcs" using pc by auto
  ultimately show ?thesis
    using Some by (simp add: take_turn_def server_round_def loop_body_def m_def v_def bnd_assoc)
qed

text \<open>
  A round is a schedule. Rounds that loops make one after the other, undisturbed, are one of
  the schedules of their steps: it ends in the state the rounds end in, with every loop back where it
  was, or in the failure they end in. So what holds of every schedule holds of every sequence of
  rounds.
\<close>

theorem turns_are_schedules:
  fixes w :: "'a sworld_scheme"
  assumes "gives_new fresh" and "readv_contract os" and "\<forall>l\<in>set ls. pcs l = AtPoll"
  shows "\<exists>ks. set ks \<subseteq> set ls \<and> run (map (sched_step user os fresh len) ks) (pcs, w) =
    bnd (run (map (take_turn user os fresh len) ls) w) (\<lambda>w. Inr (pcs, w))"
  using assms(3)
proof (induction ls arbitrary: w)
  case Nil
  show ?case by (intro exI [of _ "[]"]) simp
next
  case (Cons l ls)
  obtain n where n: "run (map (sched_step user os fresh len) (replicate n l)) (pcs, w) =
      bnd (take_turn user os fresh len l w) (\<lambda>w. Inr (pcs, w))"
    using turn_by_steps [OF assms(1,2), of pcs l user len w] Cons.prems by (auto simp: reaches_def)
  show ?case
  proof (cases "take_turn user os fresh len l w")
    case (Inl e)
    with n show ?thesis by (intro exI [of _ "replicate n l"]) auto
  next
    case (Inr v)
    from Cons.IH [of v] Cons.prems obtain ks where ks: "set ks \<subseteq> set ls" "run (map (sched_step user os fresh len) ks) (pcs, v) =
        bnd (run (map (take_turn user os fresh len) ls) v) (\<lambda>w. Inr (pcs, w))"
      by auto
    with n Inr show ?thesis
      by (intro exI [of _ "replicate n l @ ks"]) (auto simp: run_append)
  qed
qed

section \<open>Properties of all schedules\<close>

lemmas eval_sched = sched_step_def loop_move_def

text \<open>
  C2 (the server's map). From its constructor on, through the user's settings and \<open>start\<close>, and then
  however the threads of the loops are interleaved, at any point of their rounds, whatever the user's
  callbacks, the kernel and the peers do: every entry of the server's map is a live connection that
  carries that name, no connection is listed twice, every name was made from a number already given
  out, and the next name is free.
\<close>

theorem server_map_interleaved:
  fixes w :: "'a sworld_scheme"
  assumes "gives_fresh fresh" and "init_keeps init" and "finite (dom (conns w))"
    and "TcpServer_ctor os (Some l) addr name reuseport p w = Inr v"
    and "TcpServer_start init use_poll os supply
      (setMessageCalback mc (setConnectionCallback cc (setThreadNum n v))) = Inr u"
    and "run (map (sched_step user os fresh len) ls) (\<lambda>_. AtPoll, u) = Inr (pcs, w')"
  shows "let S = server w' in
    (\<forall>nm c. ts_connections S nm = Some c \<longrightarrow> (\<exists>C k. conns w' c = Some C \<and> tc_name C = nm \<and>
       nm = conn_name S k \<and> 1 \<le> k \<and> k < ts_nextConnId S)) \<and>
    (\<forall>a b c. ts_connections S a = Some c \<longrightarrow> ts_connections S b = Some c \<longrightarrow> a = b) \<and>
    ts_connections S (conn_name S (ts_nextConnId S)) = None"
proof -
  from assms(5) have "run (TcpServer_start init use_poll os supply # map (take_turn user os fresh len) [])
      (setMessageCalback mc (setConnectionCallback cc (setThreadNum n v))) = Inr u"
    by simp
  from server_runs_good [OF assms(1-4) this] have "server_good w'"
    by (rule good_sched [OF assms(1,6)])
  then show ?thesis by (intro map_of_good) (simp add: server_good_def)
qed

text \<open>
  A server starts, and its loop polls and handles the listening socket: in the middle of this round
  there is a connection, and the user has been told.
\<close>

theorem server_map_interleaved_witness:
  "\<exists>v u w' t pcs. TcpServer_ctor (ready_os 5 1) (Some 0) local_8000 ''echo'' False 5 base_sworld = Inr v \<and>
     TcpServer_start (\<lambda>l w. Inr w) False (ready_os 5 1) (\<lambda>j. (0, 0, 0))
       (setMessageCalback 1 (setConnectionCallback 0 (setThreadNum 0 v))) = Inr u \<and>
     run (map (sched_step (\<lambda>f cl w. []) (ready_os 5 1) low_fresh 16) [0, 0]) (\<lambda>_. AtPoll, u) =
       Inr (pcs, w') \<and> pcs 0 = Handling t [] \<and>
     calls w' = [OnConnection 8] \<and> conns w' 8 \<noteq> None \<and>
     ts_connections (server w') (conn_name (server w') (ts_nextConnId (server w'))) = None"
proof -
  have keeps: "init_keeps (\<lambda>l w. Inr (w :: sworld))" by (simp add: init_keeps_def)
  have fin: "finite (dom (conns base_sworld))" by (simp add: base_sworld_def)
  obtain v u w' pcs t where
      v: "TcpServer_ctor (ready_os 5 1) (Some 0) local_8000 ''echo'' False 5 base_sworld = Inr v" and
      u: "TcpServer_start (\<lambda>l w. Inr w) False (ready_os 5 1) (\<lambda>j. (0, 0, 0))
        (setMessageCalback 1 (setConnectionCallback 0 (setThreadNum 0 v))) = Inr u" and
      w': "run (map (sched_step (\<lambda>f cl w. []) (ready_os 5 1) low_fresh 16) [0, 0]) (\<lambda>_. AtPoll, u) =
        Inr (pcs, w')" "pcs 0 = Handling t []"
        "calls w' = [OnConnection 8]" "conns w' 8 \<noteq> None"
    by (simp add: eval_kernel eval_channel eval_loop eval_start eval_accept eval_sched Let_def)
  with server_map_interleaved [OF low_fresh_fresh keeps fin v u w'(1)] show ?thesis
    by (auto simp: Let_def)
qed

text \<open>
  C3 (every object stays well-typed). From the constructor of a server on, through the user's
  settings and \<open>start\<close>, and then however the threads of the loops are interleaved, whatever the
  callbacks, the kernel's errors and the peers do: as long as some address is free, every channel's
  index is one the poller gives and its mask holds no event but those the class knows; every
  connection's two buffers are in bounds; and its channel is there, with its descriptor and its loop,
  and calls back that connection.
\<close>

theorem well_typed_interleaved:
  fixes w :: "'a sworld_scheme"
  assumes "gives_new fresh" and "init_typed init" and "readv_contract os"
    and "conns w = Map.empty" and "\<forall>p ch. chans w p = Some ch \<longrightarrow> chan_typed ch"
    and "TcpServer_ctor os (Some l) addr name reuseport p w = Inr v"
    and "TcpServer_start init use_poll os supply
      (setMessageCalback mc (setConnectionCallback cc (setThreadNum n v))) = Inr u"
    and "run (map (sched_step user os fresh len) ls) (\<lambda>_. AtPoll, u) = Inr (pcs, w')"
    and "dom (chans w') \<noteq> UNIV"
  shows "(\<forall>p ch. chans w' p = Some ch \<longrightarrow> chan_typed ch) \<and>
    (\<forall>c C. conns w' c = Some C \<longrightarrow> conn_typed w' c C)"
proof -
  have w: "typed_world w" using assms(4,5) by (simp add: typed_world_def store_typed_def)
  from assms(7) have start: "run (TcpServer_start init use_poll os supply #
      map (take_turn user os fresh len) []) (setMessageCalback mc (setConnectionCallback cc (setThreadNum n v))) = Inr u"
    by simp
  from w have "typed_world u"
    by (rule typed.keeps_run [where f = "\<lambda>v. setMessageCalback mc (setConnectionCallback cc (setThreadNum n v))",
        OF assms(1,3,2) _ assms(4,6) _ _ _ start])
      (simp_all add: setMessageCalback_def setConnectionCallback_def setThreadNum_def)
  then have "typed_world w'" by (rule typed.keeps_sched [OF assms(1,3,8)])
  with assms(9) show ?thesis by (simp add: typed_world_def store_typed_def)
qed

text \<open>After the loop has polled and handled the listening socket, the new connection is one.\<close>

lemma demo_schedule:
  "\<exists>v u w' C pcs x.
     TcpServer_ctor (ready_os 5 1) (Some 0) local_8000 ''echo'' False 5 base_sworld = Inr v \<and>
     TcpServer_start (\<lambda>l w. Inr w) False (ready_os 5 1) (\<lambda>j. (0, 0, 0))
       (setMessageCalback 1 (setConnectionCallback 0 (setThreadNum 0 v))) = Inr u \<and>
     run (map (sched_step (\<lambda>f cl w. []) (ready_os 5 1) new_fresh 16) [0, 0]) (\<lambda>_. AtPoll, u) =
       Inr (pcs, w') \<and> chans w' 99 = None \<and> conns w' 8 = Some C \<and>
     take_turn (\<lambda>f cl w. []) (ready_os 5 1) new_fresh 16 0 u = Inr x \<and> calls x = [OnConnection 8]"
  by (simp add: eval_kernel eval_channel eval_loop eval_start eval_accept eval_sched new_fresh_def Let_def)

theorem well_typed_interleaved_witness:
  "\<exists>v u w' C. TcpServer_ctor (ready_os 5 1) (Some 0) local_8000 ''echo'' False 5 base_sworld = Inr v \<and>
     TcpServer_start (\<lambda>l w. Inr w) False (ready_os 5 1) (\<lambda>j. (0, 0, 0))
       (setMessageCalback 1 (setConnectionCallback 0 (setThreadNum 0 v))) = Inr u \<and>
     (\<exists>pcs. run (map (sched_step (\<lambda>f cl w. []) (ready_os 5 1) new_fresh 16) [0, 0]) (\<lambda>_. AtPoll, u) =
       Inr (pcs, w')) \<and> conns w' 8 = Some C \<and> conn_typed w' 8 C"
proof -
  have init: "init_typed (\<lambda>l w. Inr (w :: sworld))" by (simp add: init_typed_def)
  have os: "readv_contract (ready_os 5 1)" using demo_os_readv by (simp add: readv_contract_def)
  have none: "conns base_sworld = Map.empty" "\<forall>p ch. chans base_sworld p = Some ch \<longrightarrow> chan_typed ch"
    by (simp_all add: base_sworld_def)
  obtain v u w' C pcs where run:
      "TcpServer_ctor (ready_os 5 1) (Some 0) local_8000 ''echo'' False 5 base_sworld = Inr v"
      "TcpServer_start (\<lambda>l w. Inr w) False (ready_os 5 1) (\<lambda>j. (0, 0, 0))
        (setMessageCalback 1 (setConnectionCallback 0 (setThreadNum 0 v))) = Inr u"
      "run (map (sched_step (\<lambda>f cl w. []) (ready_os 5 1) new_fresh 16) [0, 0]) (\<lambda>_. AtPoll, u) =
        Inr (pcs, w')"
      and w': "chans w' 99 = None" "conns w' 8 = Some C"
    using demo_schedule by blast
  have "dom (chans w') \<noteq> UNIV" using w'(1) by auto
  from well_typed_interleaved [OF new_fresh_new init os none run this] run w'(2) show ?thesis
    by blast
qed

text \<open>A round of the loop of a server that has started, as steps.\<close>

theorem turns_are_schedules_witness:
  "\<exists>u ks w'. set ks \<subseteq> {0} \<and> calls w' = [OnConnection 8] \<and>
     run (map (sched_step (\<lambda>f cl w. []) (ready_os 5 1) new_fresh 16) ks) (\<lambda>_. AtPoll, u :: sworld) =
       Inr (\<lambda>_. AtPoll, w')"
proof -
  have os: "readv_contract (ready_os 5 1)" using demo_os_readv by (simp add: readv_contract_def)
  obtain u w' :: sworld where
      "take_turn (\<lambda>f cl w. []) (ready_os 5 1) new_fresh 16 0 u = Inr w'" "calls w' = [OnConnection 8]"
    using demo_schedule by blast
  with turns_are_schedules [OF new_fresh_new os, of "[0]" "\<lambda>_. AtPoll" "\<lambda>f cl w. []" 16 u] show ?thesis
    by auto
qed

end
