(* ===== verification/Awake.thy ===== *)
theory Awake
  imports WellTyped LoopProtocol
begin

text \<open>
  What the functors of the library (\<open>exec_functor\<close>: \<open>TcpConnection.cc\<close>, \<open>TcpServer.cc\<close>) do to the
  queue and the wake-up counter of the loop that runs them (\<open>EventLoop.cc\<close> \<open>queueInLoop\<close>,
  \<open>doPendingFunctors\<close>). While a loop runs functors, whatever one of them pushes on its queue raises
  its counter, once for each; so a round of \<open>doPendingFunctors\<close> over these functors is one definite
  run of the protocol of \<open>LoopProtocol\<close>, for any user code.
\<close>

section \<open>Queue and counter\<close>

text \<open>Nothing but wake-ups writes on the loop's descriptor: no channel of a connection, no other loop.\<close>

definition apart :: "loop_id \<Rightarrow> 'a cworld_scheme \<Rightarrow> bool" where
  "apart l w \<longleftrightarrow> (\<exists>L. loops w l = Some L \<and>
     (\<forall>c C ch. conns w c = Some C \<longrightarrow> chans w (tc_channel C) = Some ch \<longrightarrow> ch_fd ch \<noteq> el_wakeupFd L) \<and>
     (\<forall>k K. k \<noteq> l \<longrightarrow> loops w k = Some K \<longrightarrow> el_wakeupFd K \<noteq> el_wakeupFd L))"

definition noticed :: "os \<Rightarrow> loop_id \<Rightarrow> 'a cworld_scheme \<Rightarrow> 'a cworld_scheme \<Rightarrow> bool" where
  "noticed os l w v \<longleftrightarrow> store_frame w v \<and>
     (\<forall>L. loops w l = Some L \<longrightarrow> el_callingPendingFunctors L \<longrightarrow> eventfd_contract os (el_wakeupFd L) \<longrightarrow>
        (\<exists>K gs. loops v l = Some K \<and> el_callingPendingFunctors K \<and>
           el_pendingFunctors K = el_pendingFunctors L @ gs \<and>
           eventfd_count (trace w) (el_wakeupFd L) + length gs \<le> eventfd_count (trace v) (el_wakeupFd L) \<and>
           (apart l w \<longrightarrow>
              eventfd_count (trace v) (el_wakeupFd L) = eventfd_count (trace w) (el_wakeupFd L) + length gs)))"

lemma noticed_store: "noticed os l w v \<Longrightarrow> store_frame w v"
  by (simp add: noticed_def)

lemma apart_frame:
  assumes "apart l w" and frame: "store_frame w v"
  shows "apart l v"
proof -
  from assms obtain L where L: "loops w l = Some L"
    and conn: "\<And>c C ch. conns w c = Some C \<Longrightarrow> chans w (tc_channel C) = Some ch \<Longrightarrow> ch_fd ch \<noteq> el_wakeupFd L"
    and loop: "\<And>k K. k \<noteq> l \<Longrightarrow> loops w k = Some K \<Longrightarrow> el_wakeupFd K \<noteq> el_wakeupFd L"
    by (auto simp: apart_def)
  have rel: "rel_option conn_step (conns w c) (conns v c)" "rel_option chan_step (chans w p) (chans v p)"
      "rel_option loop_step (loops w k) (loops v k)" for c p k
    using frame by (simp_all add: store_frame_def)
  from rel(3) [of l] L obtain K where K: "loops v l = Some K" "el_wakeupFd K = el_wakeupFd L"
    by (auto simp: option_rel_Some1 loop_step_def)
  have "ch_fd ch \<noteq> el_wakeupFd K" if C: "conns v c = Some C" "chans v (tc_channel C) = Some ch" for c C ch
  proof -
    from C(1) rel(1) [of c] obtain D where D: "conns w c = Some D" "tc_channel C = tc_channel D"
      by (auto simp: option_rel_Some2 conn_step_def)
    with C(2) rel(2) [of "tc_channel D"] obtain d where "chans w (tc_channel D) = Some d" "ch_fd ch = ch_fd d"
      by (auto simp: option_rel_Some2 chan_step_def)
    with D(1) K(2) conn show ?thesis by metis
  qed
  moreover have "el_wakeupFd J \<noteq> el_wakeupFd K" if J: "k \<noteq> l" "loops v k = Some J" for k J
    using J rel(3) [of k] loop [of k] K(2) by (auto simp: option_rel_Some2 loop_step_def)
  ultimately show ?thesis using K(1) unfolding apart_def by blast
qed

lemma noticed_trans:
  assumes "noticed os l w v" and "noticed os l v u"
  shows "noticed os l w u"
  unfolding noticed_def
proof (intro conjI allI impI)
  show "store_frame w u"
    using assms by (blast intro: store_frame_trans noticed_store)
  fix L
  assume L: "loops w l = Some L" "el_callingPendingFunctors L" "eventfd_contract os (el_wakeupFd L)"
  let ?n = "\<lambda>x. eventfd_count (trace x) (el_wakeupFd L)"
  from assms(1) L obtain K gs where K: "loops v l = Some K" "el_callingPendingFunctors K"
      "el_pendingFunctors K = el_pendingFunctors L @ gs" "?n w + length gs \<le> ?n v"
      "apart l w \<longrightarrow> ?n v = ?n w + length gs"
    unfolding noticed_def by blast
  have "el_wakeupFd K = el_wakeupFd L"
    using noticed_store [OF assms(1)] L(1) K(1) unfolding store_frame_def
    by (metis loop_step_def option.rel_inject(2))
  with assms(2) K L(3) obtain M hs where "loops u l = Some M" "el_callingPendingFunctors M"
      "el_pendingFunctors M = el_pendingFunctors K @ hs" "?n v + length hs \<le> ?n u"
      "apart l v \<longrightarrow> ?n u = ?n v + length hs"
    unfolding noticed_def by metis
  moreover have "apart l w \<longrightarrow> apart l v"
    using apart_frame noticed_store [OF assms(1)] by blast
  ultimately show "\<exists>M gs. loops u l = Some M \<and> el_callingPendingFunctors M \<and>
      el_pendingFunctors M = el_pendingFunctors L @ gs \<and> ?n w + length gs \<le> ?n u \<and>
      (apart l w \<longrightarrow> ?n u = ?n w + length gs)"
    using K by (intro exI [of _ M] exI [of _ "gs @ hs"]) auto
qed

text \<open>Steps that touch neither.\<close>

lemma noticed_still:
  assumes "store_frame w v"
    and "\<And>L. loops w l = Some L \<Longrightarrow> \<exists>K. loops v l = Some K \<and>
      el_callingPendingFunctors K = el_callingPendingFunctors L \<and> el_pendingFunctors K = el_pendingFunctors L"
    and "\<And>fd. eventfd_count (trace v) fd = eventfd_count (trace w) fd"
  shows "noticed os l w v"
  unfolding noticed_def using assms by (metis add.right_neutral append_Nil2 le_refl list.size(3))

lemma noticed_same:
  "store_frame w v \<Longrightarrow> loops v = loops w \<Longrightarrow> trace v = trace w \<Longrightarrow> noticed os l w v"
  by (rule noticed_still) simp_all

lemma noticed_refl [simp]: "noticed os l w w"
  by (rule noticed_same) simp_all

lemma is_ctl_still: "list_all is_ctl es \<Longrightarrow> fold (eventfd_step fd) es n = n"
  by (induction es) (auto elim!: is_ctl.elims)

lemma noticed_ctl:
  fixes w :: "'a cworld_scheme"
  assumes "store_frame w v" and frame: "ctl_frame w v"
  shows "noticed os l w v"
proof (rule noticed_still [OF assms(1)])
  from frame obtain es where es: "trace v = trace w @ es" "list_all is_ctl es"
    by (auto simp: ctl_frame_def)
  then show "eventfd_count (trace v) fd = eventfd_count (trace w) fd" for fd
    by (simp add: table_append is_ctl_still)
  fix L assume "loops w l = Some L"
  moreover have "map_option (el_poller_update (\<lambda>_. None)) (loops v l) =
      map_option (el_poller_update (\<lambda>_. None)) (loops w l)"
    using frame by (simp add: ctl_frame_def)
  ultimately obtain K where K: "loops v l = Some K"
      "el_poller_update (\<lambda>_. None) K = el_poller_update (\<lambda>_. None) L"
    by (auto simp: map_option_case split: option.splits)
  from arg_cong [OF K(2), of el_callingPendingFunctors] arg_cong [OF K(2), of el_pendingFunctors] K(1)
  show "\<exists>K. loops v l = Some K \<and> el_callingPendingFunctors K = el_callingPendingFunctors L \<and>
      el_pendingFunctors K = el_pendingFunctors L"
    by simp
qed

lemma noticed_interest: "Channel_interest os i p w = Inr v \<Longrightarrow> noticed os' l (w :: 'a cworld_scheme) v"
  by (rule noticed_ctl [OF store_frame_interest], assumption) (erule Channel_interest_frame)

lemma noticed_remove: "Channel_remove os p w = Inr v \<Longrightarrow> noticed os' l (w :: 'a cworld_scheme) v"
  by (rule noticed_ctl [OF store_frame_remove], assumption) (erule Channel_remove_frame)

text \<open>The calls of a connection: a write on its own descriptor, a shutdown, a log line.\<close>

lemma noticed_write:
  assumes "conns w c = Some C" and "chans w (tc_channel C) = Some ch"
  shows "noticed os l w (emit (EvWrite (ch_fd ch) d r) w)"
  using assms
  by (cases r) (auto simp: noticed_def apart_def eventfd_count_snoc)

lemma noticed_emit: "(\<And>fd n. eventfd_step fd e n = n) \<Longrightarrow> noticed os l w (emit e w)"
  by (rule noticed_still) (simp_all add: eventfd_count_snoc)

lemma noticed_plain [simp]:
  "noticed os l w (log_msg v w)" "noticed os l w (w\<lparr>strings := s\<rparr>)" "noticed os l w (w\<lparr>calls := k\<rparr>)"
  by (simp_all add: noticed_same log_msg_def noticed_emit)

lemma noticed_shutdownWrite: "noticed os l w (shutdownWrite os' fd w)"
proof -
  have "noticed os l w (emit (EvShutdown fd r) w)" for r by (rule noticed_emit) simp
  then show ?thesis by (auto simp: shutdownWrite_def sys_shutdown_def Let_def intro: noticed_trans [OF _ noticed_plain(1)])
qed

lemma noticed_conn: "conns w c = Some C \<Longrightarrow> conn_step C D \<Longrightarrow> noticed os l w (put_conn c D w)"
  by (rule noticed_same [OF store_frame_conn]) simp_all

section \<open>Queueing\<close>

lemma is_wake_still: "list_all (is_wake fd') es \<Longrightarrow> fd' \<noteq> fd \<Longrightarrow> fold (eventfd_step fd) es n = n"
proof (induction es arbitrary: n)
  case (Cons e es)
  then have "eventfd_step fd e n = n" by (auto elim!: is_wake.elims split: sum.split) (metis eventfd_step.simps sum.exhaust)
  with Cons show ?case by simp
qed simp

lemma noticed_queue:
  fixes w :: "'a cworld_scheme"
  assumes q: "queueInLoop os k f w = Inr v"
  shows "noticed os l w v"
  unfolding noticed_def
proof (intro conjI allI impI)
  show "store_frame w v" by (rule store_frame_queue [OF q])
  fix L
  assume L: "loops w l = Some L" "el_callingPendingFunctors L" "eventfd_contract os (el_wakeupFd L)"
  let ?n = "\<lambda>x. eventfd_count (trace x) (el_wakeupFd L)"
  show "\<exists>M gs. loops v l = Some M \<and> el_callingPendingFunctors M \<and>
      el_pendingFunctors M = el_pendingFunctors L @ gs \<and> ?n w + length gs \<le> ?n v \<and>
      (apart l w \<longrightarrow> ?n v = ?n w + length gs)"
  proof (cases "k = l")
    case True
    with queueInLoop_ok [OF L(1,3), of f] q L(2)
    have "loops v l = Some (L\<lparr>el_pendingFunctors := el_pendingFunctors L @ [f]\<rparr>)" "?n v = Suc (?n w)"
      by (auto simp: eventfd_count_snoc)
    with L(2) show ?thesis by (intro exI [of _ "[f]"] exI) auto
  next
    case False
    from q obtain K es where K: "loops w k = Some K"
        "v = (put_loop k (K\<lparr>el_pendingFunctors := el_pendingFunctors K @ [f]\<rparr>) w)\<lparr>trace := trace w @ es\<rparr>"
        "list_all (is_wake (el_wakeupFd K)) es" "?n w \<le> ?n v"
      by (rule queueInLoop_frame) blast
    have "?n v = ?n w" if "apart l w"
    proof -
      have "el_wakeupFd K \<noteq> el_wakeupFd L" using that False K(1) L(1) by (auto simp: apart_def)
      with K(2,3) show ?thesis by (simp add: table_append is_wake_still)
    qed
    with K False L(1,2) show ?thesis by (intro exI [of _ L] exI [of _ "[]"]) simp
  qed
qed

lemma noticed_runInLoop:
  fixes w :: "'a cworld_scheme"
  assumes "runInLoop exec os k f w = Inr v" and "\<And>v. exec f w = Inr v \<Longrightarrow> noticed os l w v"
  shows "noticed os l w v"
  using assms by (auto simp: runInLoop_def dest: noticed_queue split: if_splits)

section \<open>The operations functors call\<close>

lemma noticed_notify: "notify_complete os c C w = Inr v \<Longrightarrow> noticed os l w v"
  by (auto simp: notify_complete_def dest: noticed_queue split: option.splits)

lemma noticed_send_direct:
  assumes run: "send_direct os c C (ch_fd ch) d len w = Inr (n, r, f, v)"
    and "conns w c = Some C" and "chans w (tc_channel C) = Some ch"
  shows "noticed os l w v"
proof -
  let ?w = "emit (EvWrite (ch_fd ch) d (os_write os (trace w) (ch_fd ch) d)) w"
  from run have "v = ?w \<or> notify_complete os c C ?w = Inr v \<or> v = log_msg ERROR ?w"
    by (auto simp: send_direct_def sys_write_def Let_def split: sum.splits if_splits)
  then have "noticed os l ?w v" by (auto intro: noticed_notify)
  with noticed_write [OF assms(2,3)] show ?thesis by (rule noticed_trans)
qed

lemma noticed_store_rest:
  assumes "store_rest os c C rest n w = Inr v" and C: "conns w c = Some C"
  shows "noticed os l w v"
proof -
  from assms(1) obtain b where b: "append_buf rest n (tc_outputBuffer C) = Inr b"
    by (auto simp: store_rest_def)
  let ?w = "put_conn c (C\<lparr>tc_outputBuffer := b\<rparr>) w"
  have "noticed os l w ?w"
    by (rule noticed_conn [OF C step_buffers(2)]) (rule append_Inr(1) [OF _ b])
  moreover from assms(1) b have "v = ?w \<or> enableWriting os (tc_channel C) ?w = Inr v"
    by (auto simp: store_rest_def Let_def split: if_splits)
  ultimately show ?thesis by (auto intro: noticed_trans noticed_interest)
qed

lemma noticed_high_water: "queue_high_water os c C n w = Inr v \<Longrightarrow> noticed os l w v"
  by (auto simp: queue_high_water_def Let_def dest: noticed_queue split: if_splits)

lemma noticed_send_rest:
  assumes "send_rest os c rest n w = Inr v"
  shows "noticed os l w v"
proof -
  from assms obtain C u where u: "conns w c = Some C" "queue_high_water os c C n w = Inr u"
      "store_rest os c C rest n u = Inr v"
    by (auto simp: send_rest_def)
  have "conns u c = Some C" using frame_high_water [OF u(2)] u(1) by simp
  with noticed_high_water [OF u(2)] noticed_store_rest [OF u(3)] show ?thesis
    by (blast intro: noticed_trans)
qed

lemma noticed_sendInLoop:
  assumes run: "sendInLoop os c a n w = Inr v"
  shows "noticed os l w v"
proof -
  from run obtain C where C: "conns w c = Some C" by (auto simp: sendInLoop_def)
  show ?thesis
  proof (cases "tc_state C = kDisconnected")
    case True
    with run C have "v = log_msg ERROR w" by (simp add: sendInLoop_def)
    then show ?thesis by (simp only: noticed_plain(1))
  next
    case False
    with run C obtain ch d k r f u where ch: "chans w (tc_channel C) = Some ch"
      and first: "(if \<not> isWriting ch \<and> readableBytes (tc_outputBuffer C) = 0
          then send_direct os c C (ch_fd ch) d n w else Inr (0, n, False, w)) = Inr (k, r, f, u)"
      and rest: "(if \<not> f \<and> 0 < r then send_rest os c (drop k d) r u else Inr u) = Inr v"
      by (auto simp: sendInLoop_def simp del: if_split)
    from first have "noticed os l w u"
      by (auto split: if_split_asm intro: noticed_send_direct [OF _ C ch])
    moreover from rest have "noticed os l u v" by (auto split: if_split_asm dest: noticed_send_rest)
    ultimately show ?thesis by (rule noticed_trans)
  qed
qed

lemma noticed_shutdownInLoop: "shutdownInLoop os c w = Inr v \<Longrightarrow> noticed os l w v"
  by (auto simp: shutdownInLoop_def noticed_shutdownWrite split: if_splits)

lemma noticed_send:
  assumes "send os c a w = Inr v"
  shows "noticed os l w v"
proof -
  have rest: "noticed os l w v" if "(if isInLoopThread L w then sendInLoop os c a n w
      else runInLoop (\<lambda>f. sendInLoop os c a n) os k (F_sendInLoop c a n) w) = Inr v" for L k n
    using that by (split if_split_asm) (erule noticed_sendInLoop, erule noticed_runInLoop, erule noticed_sendInLoop)
  from assms show ?thesis
    by (auto simp: send_def simp del: if_split split: if_split_asm option.splits dest: rest)
qed

lemma noticed_state: "conns w c = Some C \<Longrightarrow> noticed os l w (put_conn c (setState s C) w)"
  by (erule noticed_conn) simp

lemma noticed_shutdown:
  assumes "shutdown_conn os c w = Inr v"
  shows "noticed os l w v"
proof -
  have rest: "noticed os l u v" if "runInLoop (\<lambda>f. shutdownInLoop os c) os k g u = Inr v" for k g u
    using that by (rule noticed_runInLoop) (rule noticed_shutdownInLoop)
  from assms obtain C where "conns w c = Some C" "v = w \<or> runInLoop (\<lambda>f. shutdownInLoop os c) os
      (tc_loop C) (F_shutdownInLoop c) (put_conn c (setState kDisconnecting C) w) = Inr v"
    by (auto simp: shutdown_conn_def split: if_split_asm)
  then show ?thesis by (auto intro: noticed_trans noticed_state dest: rest)
qed

lemma noticed_api:
  assumes "exec_api os a w = Inr v"
  shows "noticed os l w v"
proof (cases a)
  case (Send c p d)
  with assms obtain u where "send os c p (w\<lparr>strings := (strings w)(p \<mapsto> d)\<rparr>) = Inr u"
      "v = u\<lparr>strings := (strings u)(p := None)\<rparr>" by auto
  then show ?thesis by (blast intro: noticed_trans noticed_plain(2) noticed_send)
next
  case (Shutdown c)
  with assms show ?thesis by (simp add: noticed_shutdown)
qed (use assms in \<open>auto simp: upd_conn_def conn_step_def intro!: noticed_conn step_buffers
    intro: retrieveAsString_inv\<close>)

lemma noticed_call:
  assumes "call_user user os f cl w = Inr v"
  shows "noticed os l w v"
proof -
  from assms obtain g where
      "run (map (exec_api os) (user g cl w)) (w\<lparr>calls := calls w @ [cl]\<rparr>) = Inr v"
    by (auto simp: call_user_def split: option.splits)
  then have "noticed os l (w\<lparr>calls := calls w @ [cl]\<rparr>) v"
    by (rule run_invariant) (auto intro: noticed_trans dest: noticed_api)
  with noticed_plain(3) show ?thesis by (rule noticed_trans)
qed

lemma noticed_established:
  assumes "connectEstablished user os c w = Inr v"
  shows "noticed os l w v"
proof -
  from assms obtain C ch u where C: "conns w c = Some C" and ch: "chans w (tc_channel C) = Some ch" and
      read: "enableReading os (tc_channel C) (put_channel (tc_channel C) (tie c ch)
        (put_conn c (setState kConnected C) w)) = Inr u" and
      told: "call_user user os (tc_connectionCallback C) (OnConnection c) u = Inr v"
    by (auto simp: connectEstablished_def upd_conn_def)
  have "noticed os l (put_conn c (setState kConnected C) w)
      (put_channel (tc_channel C) (tie c ch) (put_conn c (setState kConnected C) w))"
    by (rule noticed_same [OF store_frame_chan [OF _ step_updates(2)]]) (simp_all add: ch)
  with noticed_state [OF C] noticed_interest [OF read] noticed_call [OF told] show ?thesis
    by (blast intro: noticed_trans)
qed

lemma noticed_destroyed:
  assumes "connectDistroyed user os c w = Inr v"
  shows "noticed os l w v"
proof -
  from assms obtain C u where C: "conns w c = Some C" and
      first: "(if tc_state C = kConnected then
          bnd (disableAll os (tc_channel C) (put_conn c (setState kDisconnected C) w)) (\<lambda>w.
          call_user user os (tc_connectionCallback C) (OnConnection c) w)
        else Inr w) = Inr u" and
      rem: "Channel_remove os (tc_channel C) u = Inr v"
    by (auto simp: connectDistroyed_def)
  have "noticed os l w u"
  proof (cases "tc_state C = kConnected")
    case False
    with first show ?thesis by simp
  next
    case True
    with first obtain x where "disableAll os (tc_channel C) (put_conn c (setState kDisconnected C) w) = Inr x"
        "call_user user os (tc_connectionCallback C) (OnConnection c) x = Inr u"
      by auto
    from noticed_state [OF C] noticed_interest [OF this(1)] noticed_call [OF this(2)]
    show ?thesis by (blast intro: noticed_trans)
  qed
  with noticed_remove [OF rem] show ?thesis by (blast intro: noticed_trans)
qed

lemma noticed_server:
  fixes w :: "'a sworld_scheme"
  shows "noticed os l w (upd_server f w)"
  by (rule noticed_same) simp_all

lemma noticed_removeInLoop:
  fixes w :: "'a sworld_scheme"
  assumes "removeConnectionInLoop os c w = Inr v"
  shows "noticed os l w v"
  using assms by (auto simp: removeConnectionInLoop_def Let_def dest!: noticed_queue
      intro: noticed_trans [OF noticed_server])

lemma noticed_listen:
  fixes w :: "'a sworld_scheme"
  assumes "server_listen os w = Inr v"
  shows "noticed os l w v"
proof -
  from assms obtain p u x f where u: "Socket_listen os p w = Inr u"
      and read: "enableReading os (ac_channel (ts_acceptor (server w))) u = Inr x"
      and v: "v = upd_server f x"
    by (auto simp: server_listen_def Acceptor_listen_def Let_def)
  have "noticed os l w (emit (EvListen p n r) w)" for n r by (rule noticed_emit) simp
  with u have "noticed os l w u"
    by (auto simp: Socket_listen_def sys_listen_def Let_def split: option.splits)
  with noticed_interest [OF read] noticed_server show ?thesis unfolding v by (blast intro: noticed_trans)
qed

text \<open>Any functor, for any user code.\<close>

lemma noticed_functor:
  fixes w :: "'a sworld_scheme"
  shows "exec_functor user os f w = Inr v \<Longrightarrow> noticed os l w v"
  by (cases f) (auto intro: noticed_established noticed_destroyed noticed_sendInLoop noticed_shutdownInLoop
      noticed_call noticed_removeInLoop noticed_listen)

lemma noticed_functors:
  fixes w :: "'a sworld_scheme"
  shows "run (map (exec_functor user os) fs) w = Inr v \<Longrightarrow> noticed os l w v"
  by (erule run_invariant) (auto intro: noticed_trans noticed_functor)

section \<open>A round of functors\<close>

definition taken :: "loop_id \<Rightarrow> ('f, 'a) lworld_scheme \<Rightarrow> ('f, 'a) lworld_scheme" where
  "taken l w = (case loops w l of None \<Rightarrow> w
     | Some L \<Rightarrow> put_loop l (L\<lparr>el_callingPendingFunctors := True, el_pendingFunctors := []\<rparr>) w)"

lemma doPendingFunctors_taken:
  "loops w l = Some L \<Longrightarrow> doPendingFunctors exec l w =
     bnd (run (map exec (el_pendingFunctors L)) (taken l w)) (upd_loop l (\<lambda>L. L\<lparr>el_callingPendingFunctors := False\<rparr>))"
  by (simp add: doPendingFunctors_def taken_def put_loop_def Let_def)

text \<open>
  C7 (a round leaves no functor asleep). A round of \<open>doPendingFunctors\<close> runs exactly the functors that
  were queued when it began, in queue order, and fails only if one of them fails. Whatever the user's
  code does, and whatever calls the functors make, each functor queued during the round has raised
  the loop's wake-up counter: when the round ends the counter has grown by at least the length of the
  queue, so that a \<open>poll\<close> on a non-empty queue does not sleep. The kernel's part is that the eventfd takes its eight bytes.
\<close>

theorem functors_keep_loop_awake:
  fixes w :: "'a sworld_scheme"
  assumes "loops w l = Some L" and "eventfd_contract os (el_wakeupFd L)"
  shows "case run (map (exec_functor user os) (el_pendingFunctors L)) (put_loop l
        (L\<lparr>el_callingPendingFunctors := True, el_pendingFunctors := []\<rparr>) w) of
      Inl e \<Rightarrow> doPendingFunctors (exec_functor user os) l w = Inl e
    | Inr v \<Rightarrow> (\<exists>K. loops v l = Some K \<and> el_wakeupFd K = el_wakeupFd L \<and>
        doPendingFunctors (exec_functor user os) l w =
          Inr (put_loop l (K\<lparr>el_callingPendingFunctors := False\<rparr>) v) \<and>
        eventfd_count (trace w) (el_wakeupFd L) + length (el_pendingFunctors K)
          \<le> eventfd_count (trace v) (el_wakeupFd L))"
proof -
  let ?w = "put_loop l (L\<lparr>el_callingPendingFunctors := True, el_pendingFunctors := []\<rparr>) w"
  have eq: "doPendingFunctors (exec_functor user os) l w =
      bnd (run (map (exec_functor user os) (el_pendingFunctors L)) ?w) (upd_loop l (\<lambda>L. L\<lparr>el_callingPendingFunctors := False\<rparr>))"
    using assms(1) doPendingFunctors_taken [OF assms(1)] by (simp add: taken_def)
  show ?thesis
  proof (cases "run (map (exec_functor user os) (el_pendingFunctors L)) ?w")
    case (Inl e)
    with eq show ?thesis by simp
  next
    case (Inr v)
    have "noticed os l ?w v" by (rule noticed_functors [OF Inr])
    with assms(2) obtain K where K: "loops v l = Some K" "eventfd_count (trace w) (el_wakeupFd L) +
        length (el_pendingFunctors K) \<le> eventfd_count (trace v) (el_wakeupFd L)"
      by (auto simp: noticed_def)
    have "rel_option loop_step (loops ?w l) (loops v l)"
      using noticed_store [OF \<open>noticed os l ?w v\<close>] by (simp only: store_frame_def)
    with K Inr eq show ?thesis by (auto simp: loop_step_def)
  qed
qed

text \<open>A server about to erase a connection: the functor queues the end of the connection.\<close>

definition erasing_loop :: "pending_functor event_loop" where
  "erasing_loop = small_loop\<lparr>el_pendingFunctors := [F_removeConnectionInLoop 7]\<rparr>"

definition erasing_sworld :: sworld where
  "erasing_sworld = put_loop 0 erasing_loop (demo_sworld 1)"

lemma erasing_run:
  defines "w \<equiv> put_loop 0 (erasing_loop\<lparr>el_callingPendingFunctors := True, el_pendingFunctors := []\<rparr>) erasing_sworld"
  obtains v where "exec_functor user (eventfd_os 4) (F_removeConnectionInLoop 7) w = Inr v"
    and "loops v 0 = Some (erasing_loop\<lparr>el_callingPendingFunctors := True,
      el_pendingFunctors := [F_connectDistroyed 7]\<rparr>)"
proof -
  let ?w = "upd_server (\<lambda>S. S\<lparr>ts_connections := (ts_connections S)(conn_name demo_server 1 := None)\<rparr>) w"
  let ?L = "erasing_loop\<lparr>el_callingPendingFunctors := True, el_pendingFunctors := []\<rparr>"
  have "loops ?w 0 = Some ?L" "eventfd_contract (eventfd_os 4) (el_wakeupFd ?L)"
    using eventfd_os_contract [of 4] by (simp_all add: w_def erasing_loop_def)
  from queueInLoop_ok [OF this, of "F_connectDistroyed 7"] obtain v where
      v: "queueInLoop (eventfd_os 4) 0 (F_connectDistroyed 7) ?w = Inr v"
        "loops v 0 = Some (?L\<lparr>el_pendingFunctors := [F_connectDistroyed 7]\<rparr>)"
    by auto
  show ?thesis
    by (rule that [of v])
      (use v in \<open>simp_all add: removeConnectionInLoop_def w_def erasing_sworld_def\<close>)
qed

theorem functors_keep_loop_awake_witness:
  "\<exists>w' K. doPendingFunctors (exec_functor (\<lambda>f cl w. []) (eventfd_os 4)) 0 erasing_sworld = Inr w' \<and>
     loops w' 0 = Some K \<and> el_pendingFunctors K = [F_connectDistroyed 7] \<and>
     0 < eventfd_count (trace w') (el_wakeupFd K)"
proof -
  let ?exec = "exec_functor (\<lambda>f cl w. []) (eventfd_os 4)"
  obtain v where v: "?exec (F_removeConnectionInLoop 7) (put_loop 0 (erasing_loop
      \<lparr>el_callingPendingFunctors := True, el_pendingFunctors := []\<rparr>) erasing_sworld) = Inr v"
    "loops v 0 = Some (erasing_loop\<lparr>el_callingPendingFunctors := True,
      el_pendingFunctors := [F_connectDistroyed 7]\<rparr>)"
    by (rule erasing_run)
  have "loops erasing_sworld 0 = Some erasing_loop" "eventfd_contract (eventfd_os 4) (el_wakeupFd erasing_loop)"
    using eventfd_os_contract [of 4] by (simp_all add: erasing_sworld_def erasing_loop_def)
  from functors_keep_loop_awake [OF this, of "\<lambda>f cl w. []"] v show ?thesis
    by (auto simp: erasing_loop_def)
qed

section \<open>The round as a run of the protocol\<close>

definition queue_of :: "loop_id \<Rightarrow> ('f, 'a) lworld_scheme \<Rightarrow> 'f list" where
  "queue_of l w = (case loops w l of None \<Rightarrow> [] | Some L \<Rightarrow> el_pendingFunctors L)"

text \<open>What each functor of a list pushes on the queue of \<open>l\<close> when they are run one after the other.\<close>

fun pushes ::
  "('f \<Rightarrow> ('f, 'a) lworld_scheme \<Rightarrow> failure + ('f, 'a) lworld_scheme) \<Rightarrow> loop_id \<Rightarrow> 'f list
     \<Rightarrow> ('f, 'a) lworld_scheme \<Rightarrow> 'f list list" where
  "pushes exec l [] w = []"
| "pushes exec l (f # fs) w =
     (case exec f w of
        Inl e \<Rightarrow> []
      | Inr v \<Rightarrow> drop (length (queue_of l w)) (queue_of l v) # pushes exec l fs v)"

text \<open>The actions of the loop thread when its functors push these.\<close>

definition functor_actions :: "'f list \<Rightarrow> 'f lp_action list" where
  "functor_actions gs = concat (map (\<lambda>g. [RunQueue g, RunWake]) gs) @ [RunOne]"

definition round_actions :: "'f list list \<Rightarrow> 'f lp_action list" where
  "round_actions gss = [SetCalling, Swap] @ concat (map functor_actions gss) @ [RunDone, ClearCalling]"

definition with_pushed :: "'f list \<Rightarrow> 'f lp_state \<Rightarrow> 'f lp_state" where
  "with_pushed gs s = s\<lparr>lp_pending := lp_pending s @ gs, lp_queued := lp_queued s @ gs,
     lp_counter := lp_counter s + length gs\<rparr>"

lemma with_pushed_Nil [simp]: "with_pushed [] s = s"
  by (simp add: with_pushed_def)

lemma queue_actions:
  "lp_pc s = LRun fs \<Longrightarrow> lp_steps (concat (map (\<lambda>g. [RunQueue g, RunWake]) gs)) s (with_pushed gs s)"
proof (induction gs arbitrary: s)
  case Nil
  then show ?case by (simp add: lp_nil)
next
  case (Cons g gs)
  have "lp_run [RunQueue g, RunWake] s = Some (with_pushed [g] s)"
    using Cons.prems by (simp add: lp_push_def with_pushed_def)
  moreover have "lp_steps (concat (map (\<lambda>g. [RunQueue g, RunWake]) gs)) (with_pushed [g] s)
      (with_pushed gs (with_pushed [g] s))"
    by (rule Cons.IH) (use Cons.prems in \<open>simp add: with_pushed_def\<close>)
  ultimately have "lp_steps ([RunQueue g, RunWake] @ concat (map (\<lambda>g. [RunQueue g, RunWake]) gs)) s
      (with_pushed gs (with_pushed [g] s))"
    by (blast intro: lp_steps_append lp_steps_fold)
  then show ?case by (simp add: with_pushed_def)
qed

lemma functors_actions:
  "lp_pc s = LRun fs \<Longrightarrow> length gss = length fs \<Longrightarrow>
     lp_steps (concat (map functor_actions gss)) s
       ((with_pushed (concat gss) s)\<lparr>lp_pc := LRun [], lp_executed := lp_executed s @ fs\<rparr>)"
proof (induction fs arbitrary: s gss)
  case Nil
  then have "(with_pushed (concat gss) s)\<lparr>lp_pc := LRun [], lp_executed := lp_executed s @ []\<rparr> = s" by simp
  with Nil show ?case by (simp only: list.size length_0_conv list.map concat.simps lp_nil)
next
  case (Cons f fs)
  then obtain gs hss where gss: "gss = gs # hss" "length hss = length fs" by (cases gss) auto
  let ?u = "with_pushed gs s"
  let ?v = "?u\<lparr>lp_pc := LRun fs, lp_executed := lp_executed s @ [f]\<rparr>"
  have "lp_steps [RunOne] ?u ?v"
    by (rule lp_steps_fold) (simp add: with_pushed_def Cons.prems(1))
  with queue_actions [OF Cons.prems(1)] have "lp_steps (functor_actions gs) s ?v"
    unfolding functor_actions_def by (blast intro: lp_steps_append)
  moreover have "lp_steps (concat (map functor_actions hss)) ?v
      ((with_pushed (concat hss) ?v)\<lparr>lp_pc := LRun [], lp_executed := lp_executed ?v @ fs\<rparr>)"
    by (rule Cons.IH) (simp_all add: gss)
  ultimately have "lp_steps (functor_actions gs @ concat (map functor_actions hss)) s
      ((with_pushed (concat hss) ?v)\<lparr>lp_pc := LRun [], lp_executed := lp_executed ?v @ fs\<rparr>)"
    by (blast intro: lp_steps_append)
  then show ?case by (simp add: gss with_pushed_def add.assoc)
qed

lemma round_steps:
  assumes "lp_pc s = LSetCalling" and "length gss = length (lp_pending s)"
  shows "lp_steps (round_actions gss) s (s\<lparr>lp_pc := LCheck, lp_calling := False,
    lp_pending := concat gss, lp_counter := lp_counter s + length (concat gss),
    lp_queued := lp_queued s @ concat gss, lp_executed := lp_executed s @ lp_pending s\<rparr>)"
proof -
  let ?s = "s\<lparr>lp_pc := LRun (lp_pending s), lp_calling := True, lp_pending := []\<rparr>"
  let ?u = "(with_pushed (concat gss) ?s)\<lparr>lp_pc := LRun [], lp_executed := lp_executed s @ lp_pending s\<rparr>"
  have first: "lp_steps [SetCalling, Swap] s ?s"
    by (rule lp_steps_fold) (simp add: assms(1))
  have mid: "lp_steps (concat (map functor_actions gss)) ?s ?u"
    using functors_actions [of ?s "lp_pending s" gss] assms(2) by simp
  have "lp_steps [RunDone, ClearCalling] ?u (?u\<lparr>lp_pc := LCheck, lp_calling := False\<rparr>)"
    by (rule lp_steps_fold) simp
  from lp_steps_append [OF lp_steps_append [OF this mid] first]
  have "lp_steps (round_actions gss) s (?u\<lparr>lp_pc := LCheck, lp_calling := False\<rparr>)"
    by (simp add: round_actions_def)
  moreover have "?u\<lparr>lp_pc := LCheck, lp_calling := False\<rparr> = s\<lparr>lp_pc := LCheck, lp_calling := False,
    lp_pending := concat gss, lp_counter := lp_counter s + length (concat gss),
    lp_queued := lp_queued s @ concat gss, lp_executed := lp_executed s @ lp_pending s\<rparr>"
    by (cases s) (simp add: with_pushed_def)
  ultimately show ?thesis by simp
qed

text \<open>The functors of the library push what \<open>pushes\<close> says, and raise the counter as often.\<close>

lemma functors_push:
  fixes w :: "'a sworld_scheme"
  assumes "run (map (exec_functor user os) fs) w = Inr v"
    and "loops w l = Some L" and "el_callingPendingFunctors L" and "eventfd_contract os (el_wakeupFd L)"
    and "apart l w"
  shows "let gss = pushes (exec_functor user os) l fs w in
    length gss = length fs \<and>
    (\<exists>K. loops v l = Some K \<and> el_callingPendingFunctors K \<and> el_wakeupFd K = el_wakeupFd L \<and>
       el_quit K = el_quit L \<and> el_pendingFunctors K = el_pendingFunctors L @ concat gss \<and>
       eventfd_count (trace v) (el_wakeupFd L) =
         eventfd_count (trace w) (el_wakeupFd L) + length (concat gss))"
  using assms
proof (induction fs arbitrary: w L)
  case Nil
  then show ?case by simp
next
  case (Cons f fs)
  from Cons.prems(1) obtain u where u: "exec_functor user os f w = Inr u"
      "run (map (exec_functor user os) fs) u = Inr v"
    by auto
  note one = noticed_functor [where l = l, OF u(1)]
  from one Cons.prems(2-5) obtain K gs where K: "loops u l = Some K" "el_callingPendingFunctors K"
      "el_pendingFunctors K = el_pendingFunctors L @ gs"
      "eventfd_count (trace u) (el_wakeupFd L) = eventfd_count (trace w) (el_wakeupFd L) + length gs"
    unfolding noticed_def by blast
  have "rel_option loop_step (loops w l) (loops u l)"
    using noticed_store [OF one] by (simp add: store_frame_def)
  then have same: "el_wakeupFd K = el_wakeupFd L" "el_quit K = el_quit L"
    using Cons.prems(2) K(1) by (simp_all add: loop_step_def)
  have "eventfd_contract os (el_wakeupFd K)" "apart l u"
    using same Cons.prems(4) apart_frame [OF Cons.prems(5) noticed_store [OF one]] by simp_all
  from Cons.IH [OF u(2) K(1,2) this] K(3,4) same
  have "let gss = gs # pushes (exec_functor user os) l fs u in
    length gss = length (f # fs) \<and>
    (\<exists>K. loops v l = Some K \<and> el_callingPendingFunctors K \<and> el_wakeupFd K = el_wakeupFd L \<and>
       el_quit K = el_quit L \<and> el_pendingFunctors K = el_pendingFunctors L @ concat gss \<and>
       eventfd_count (trace v) (el_wakeupFd L) =
         eventfd_count (trace w) (el_wakeupFd L) + length (concat gss))"
    by (auto simp: Let_def)
  moreover have "pushes (exec_functor user os) l (f # fs) w = gs # pushes (exec_functor user os) l fs u"
    using u(1) K(1,3) Cons.prems(2) by (simp add: queue_of_def)
  ultimately show ?case by (simp only:)
qed

text \<open>
  C21 (a round of the code is a run of the protocol). Let a loop whose descriptor nothing but wake-ups writes
  to be about to run its functors, in agreement with a state of the protocol. A round of
  \<open>doPendingFunctors\<close> over the functors of the library, for any user code, then runs exactly the
  functors of the protocol's queue, in order, and is this run of the protocol: set the flag, take the
  queue, for each functor the pushes it made, each with its wake-up, and its end, and clear the flag.
  The states agree again after it: exactly those pushes are queued, and the counter has grown by their number.
\<close>

theorem round_is_protocol_run:
  fixes w :: "'a sworld_scheme" and user and os :: os
  defines "exec \<equiv> exec_functor user os"
  assumes "agrees l w s" and "lp_pc s = LSetCalling" and "loops w l = Some L"
    and "eventfd_contract os (el_wakeupFd L)" and "apart l w" and "doPendingFunctors exec l w = Inr w'"
  shows "\<exists>v K gss. run (map exec (lp_pending s)) (taken l w) = Inr v \<and> loops v l = Some K \<and>
    w' = put_loop l (K\<lparr>el_callingPendingFunctors := False\<rparr>) v \<and>
    gss = pushes exec l (lp_pending s) (taken l w) \<and> length gss = length (lp_pending s) \<and>
    simulates l (round_actions gss) w s w' (s\<lparr>lp_pc := LCheck, lp_calling := False,
      lp_pending := concat gss, lp_counter := lp_counter s + length (concat gss),
      lp_queued := lp_queued s @ concat gss, lp_executed := lp_executed s @ lp_pending s\<rparr>)"
proof -
  let ?gss = "pushes exec l (lp_pending s) (taken l w)"
  let ?L = "L\<lparr>el_callingPendingFunctors := True, el_pendingFunctors := []\<rparr>"
  have L: "el_pendingFunctors L = lp_pending s" "el_quit L = lp_quit s"
      "eventfd_count (trace w) (el_wakeupFd L) = lp_counter s"
    using assms(2,4) by (auto simp: agrees_def)
  have taken: "taken l w = put_loop l ?L w" using assms(4) by (simp add: taken_def)
  from assms(4,7) obtain v J where v: "run (map exec (lp_pending s)) (taken l w) = Inr v"
      "loops v l = Some J" "w' = put_loop l (J\<lparr>el_callingPendingFunctors := False\<rparr>) v"
    by (auto simp: doPendingFunctors_taken L(1) upd_loop_Inr)
  have "apart l (taken l w)" using assms(4,6) by (auto simp: apart_def taken)
  from functors_push [OF v(1) [unfolded exec_def] _ _ _ this, of ?L] assms(4,5) v(2)
  have push: "length ?gss = length (lp_pending s)" "el_wakeupFd J = el_wakeupFd L" "el_quit J = el_quit L"
      "el_pendingFunctors J = concat ?gss" "eventfd_count (trace v) (el_wakeupFd L) =
        eventfd_count (trace w) (el_wakeupFd L) + length (concat ?gss)"
    by (simp_all add: taken exec_def Let_def)
  have "agrees l w' (s\<lparr>lp_pc := LCheck, lp_calling := False,
      lp_pending := concat ?gss, lp_counter := lp_counter s + length (concat ?gss),
      lp_queued := lp_queued s @ concat ?gss, lp_executed := lp_executed s @ lp_pending s\<rparr>)"
    using push L v(2,3) by (simp add: agrees_def)
  with round_steps [OF assms(3) push(1)] v push(1) assms(2) show ?thesis
    unfolding simulates_def by blast
qed

theorem round_is_protocol_run_witness:
  "\<exists>w' s. lp_pending s = [F_removeConnectionInLoop 7] \<and>
     doPendingFunctors (exec_functor (\<lambda>f cl w. []) (eventfd_os 4)) 0 erasing_sworld = Inr w' \<and>
     simulates 0 [SetCalling, Swap, RunQueue (F_connectDistroyed 7), RunWake, RunOne, RunDone, ClearCalling]
       erasing_sworld s w' (s\<lparr>lp_pc := LCheck, lp_calling := False, lp_pending := [F_connectDistroyed 7],
         lp_counter := 1, lp_queued := lp_queued s @ [F_connectDistroyed 7],
         lp_executed := lp_executed s @ [F_removeConnectionInLoop 7]\<rparr>)"
proof -
  let ?exec = "exec_functor (\<lambda>f cl w. []) (eventfd_os 4) ::
    pending_functor \<Rightarrow> sworld \<Rightarrow> failure + sworld"
  let ?f = "F_removeConnectionInLoop 7" and ?g = "F_connectDistroyed 7"
  let ?s = "lp_init\<lparr>lp_pc := LSetCalling, lp_pending := [?f]\<rparr>"
  have L: "loops erasing_sworld 0 = Some erasing_loop" "eventfd_contract (eventfd_os 4) (el_wakeupFd erasing_loop)"
    using eventfd_os_contract [of 4] by (simp_all add: erasing_sworld_def erasing_loop_def)
  have taken: "taken 0 erasing_sworld = put_loop 0 (erasing_loop
      \<lparr>el_callingPendingFunctors := True, el_pendingFunctors := []\<rparr>) erasing_sworld"
    by (simp add: taken_def L(1))
  obtain v where v: "?exec ?f (taken 0 erasing_sworld) = Inr v"
    "loops v 0 = Some (erasing_loop\<lparr>el_callingPendingFunctors := True, el_pendingFunctors := [?g]\<rparr>)"
    unfolding taken by (rule erasing_run)
  obtain w' where w': "doPendingFunctors ?exec 0 erasing_sworld = Inr w'"
    using v by (simp add: doPendingFunctors_taken [OF L(1)] erasing_loop_def)
  have "pushes ?exec 0 [?f] (taken 0 erasing_sworld) = [[?g]]"
    using v by (simp add: queue_of_def taken)
  moreover have "agrees 0 erasing_sworld ?s" "apart 0 erasing_sworld"
    by (simp_all add: agrees_def apart_def erasing_sworld_def erasing_loop_def lp_init_def)
  ultimately show ?thesis
    using round_is_protocol_run [of 0 erasing_sworld ?s erasing_loop "eventfd_os 4" "\<lambda>f cl w. []" w'] L w'
    by (intro exI [of _ w'] exI [of _ ?s])
      (auto simp: round_actions_def functor_actions_def lp_init_def)
qed

end
