(* ===== verification/AcceptPath.thy ===== *)
theory AcceptPath
  imports ConnectionLifetime
begin

text \<open>
  From a readable listening socket to a registered connection: \<open>Acceptor::handleRead\<close>
  (\<open>Acceptor.cc\<close>), \<open>Socket::accept\<close> (\<open>Socket.cc\<close>) and \<open>TcpServer::newConnection\<close>
  (\<open>TcpServer.cc\<close>) in one call of the channel's read callback, with the peer's address passed
  through all three.
\<close>

lemma accept_passes_on:
  assumes "os_accept os (trace w) (ac_socket A) len = Inr (fd, a)" and "ac_newConnectionCallback A"
  shows "accept_handleRead new os len A w =
    new fd (addr_of_bytes (fill_addr len a)) (emit (EvAccept (ac_socket A) len (Inr (fd, a))) w)"
  using assms by (simp add: accept_handleRead_def Socket_accept_def sys_accept_def Let_def)

lemma server_inv_emit [simp]: "server_inv (emit e w) = server_inv w"
  by (simp add: server_inv_def emit_def)

lemma loop_inv_accept:
  fixes w :: "'a sworld_scheme"
  assumes "loop_inv os l w"
  shows "loop_inv os l (emit (EvAccept fd n r) w)"
proof -
  have "same_registry l w (emit (EvAccept fd n r) w)"
    by (simp add: same_registry_def loop_poller_def interest_snoc)
  with assms show ?thesis by (simp add: same_registry_keeps(1))
qed

text \<open>
  C33 (from the listening socket to a connection). When the listening socket is readable and the kernel hands out a new
  descriptor, the one callback accepts it and makes it the socket of a connection with a name that
  was not in the map, registered there, with the server's invariant kept and the pool moved on. The connection lives in the
  next loop of the pool: in this thread it is connected and watched for input when the user is told,
  with which the callback ends; in another its establishing is queued there and nothing else
  happens. Its peer address is the kernel's if the uninitialised length passed to
  \<open>accept\<close> happens to be at least sixteen; below three its port, and at zero also its address, is
  zero, whoever the peer is.
\<close>

theorem accepted_becomes_connection:
  fixes w :: "'a sworld_scheme"
  defines "A \<equiv> ts_acceptor (server w)"
  assumes "os_accept os (trace w) (ac_socket A) len = Inr (fd, addr_bytes peer)"
    and "ac_newConnectionCallback A"
    and "fresh (emit (EvAccept (ac_socket A) len (Inr (fd, addr_bytes peer))) w) = (c, p)"
    and "server_inv w" and "conns w c = None" and "chans w p = None"
    and "ts_nextConnId (server w) \<noteq> int_max"
    and "l = turn (ts_threadPool (server w)) 0" and "loops w l = Some L" and "loop_inv os l w"
    and "\<forall>q d. chans w q = Some d \<longrightarrow> ch_loop d = l \<longrightarrow> ch_fd d \<noteq> fd" and "el_wakeupFd L \<noteq> fd"
  shows "\<exists>v C. made_connection (server w) p fd (tc_peerAddr C) C \<and>
    (if 16 \<le> len then tc_peerAddr C = peer
     else if len < 3 then toPort (tc_peerAddr C) = 0 else True) \<and>
    (if len = 0 then sin_addr (tc_peerAddr C) = 0 else True) \<and>
    ts_connections (server w) (tc_name C) = None \<and> server v = server_with c (server w) \<and>
    server_inv v \<and> calls v = calls w \<and> conns v = (conns w)(c \<mapsto> C) \<and>
    (if el_threadId L = cur_tid w
     then tc_state C = kConnected \<and> loop_watched l v p = Some kReadEvent \<and>
       invoke user os fresh len t Acceptor_handleRead w =
         call_user user os (ts_connectionCallback (server w)) (OnConnection c) v
     else tc_state C = kConnecting \<and> invoke user os fresh len t Acceptor_handleRead w = Inr v \<and>
       loops v l = Some (L\<lparr>el_pendingFunctors := el_pendingFunctors L @ [F_connectEstablished c]\<rparr>))"
proof -
  let ?w = "emit (EvAccept (ac_socket A) len (Inr (fd, addr_bytes peer))) w"
  let ?a = "addr_of_bytes (fill_addr len (addr_bytes peer))"
  have call: "invoke user os fresh len t Acceptor_handleRead w = newConnection user os c p fd ?a ?w"
    using accept_passes_on [OF assms(2,3)] assms(4) by (simp add: A_def)
  from accept_peer_address [OF assms(2)] assms(2)
  have addr: "(if 16 \<le> len then ?a = peer else if len < 3 then toPort ?a = 0 else True) \<and>
      (if len = 0 then sin_addr ?a = 0 else True)"
    by (auto simp: Socket_accept_def sys_accept_def Let_def)
  from newConnection_ok [of ?w c p l L os fd ?a user] assms(5-13) loop_inv_accept [OF assms(11)]
  obtain v C where v: "made_connection (server w) p fd ?a C" "ts_connections (server w) (tc_name C) = None"
    "server v = server_with c (server w)" "server_inv v" "calls v = calls w" "conns v = (conns w)(c \<mapsto> C)"
    "if el_threadId L = cur_tid w
     then tc_state C = kConnected \<and> loop_watched l v p = Some kReadEvent \<and>
       newConnection user os c p fd ?a ?w =
         call_user user os (ts_connectionCallback (server w)) (OnConnection c) v
     else tc_state C = kConnecting \<and> newConnection user os c p fd ?a ?w = Inr v \<and>
       loops v l = Some (L\<lparr>el_pendingFunctors := el_pendingFunctors L @ [F_connectEstablished c]\<rparr>)"
    by auto
  from v(1) have "tc_peerAddr C = ?a" by (simp add: made_connection_def)
  with addr have "(if 16 \<le> len then tc_peerAddr C = peer else if len < 3 then toPort (tc_peerAddr C) = 0 else True) \<and>
      (if len = 0 then sin_addr (tc_peerAddr C) = 0 else True)" by (simp only:)
  moreover have "made_connection (server w) p fd (tc_peerAddr C) C"
    using v(1) by (simp add: made_connection_def)
  ultimately show ?thesis using v(2-7) unfolding call by blast
qed

theorem accepted_becomes_connection_witness:
  "\<exists>w' C. invoke (\<lambda>f cl w. []) demo_os (\<lambda>w. (8, 32)) 0 5 Acceptor_handleRead (demo_sworld 1) = Inr w' \<and>
     conns w' 8 = Some C \<and> tc_state C = kConnected \<and> calls w' = [OnConnection 8] \<and>
     ts_connections (server w') (conn_name demo_server 2) = Some 8 \<and>
     toPort (tc_peerAddr C) = 0 \<and> sin_addr (tc_peerAddr C) = 0"
proof -
  let ?peer = "\<lparr>sin_family = 2, sin_port = 16415, sin_addr = 117440522\<rparr>"
  let ?A = "\<lparr>ac_loop = 0, ac_socket = 5, ac_channel = 24,
        ac_newConnectionCallback = True, ac_listening = True\<rparr>"
  have A: "ts_acceptor demo_server = ?A" by (simp add: demo_server_def)
  have acc: "os_accept demo_os (trace (demo_sworld 1)) 5 0 = Inr (3, addr_bytes ?peer)"
    by (simp add: demo_os_def addr_bytes_def byte_of_def)
  have fds: "\<forall>q d. chans (demo_sworld 1) q = Some d \<longrightarrow> ch_loop d = 0 \<longrightarrow> ch_fd d \<noteq> 3" by auto
  from accepted_becomes_connection [of demo_os "demo_sworld 1" 0 3 ?peer "\<lambda>w. (8, 32)" 8 32 0 small_loop
      "\<lambda>f cl w. []" 5] acc fds demo_server_inv [of 1] demo_sworld_loop_inv [OF demo_os_epoll_ctl, of 1]
  obtain v C where v: "toPort (tc_peerAddr C) = 0" "sin_addr (tc_peerAddr C) = 0"
      "server v = server_with 8 demo_server" "calls v = []" "conns v 8 = Some C" "tc_state C = kConnected"
      "invoke (\<lambda>f cl w. []) demo_os (\<lambda>w. (8, 32)) 0 5 Acceptor_handleRead (demo_sworld 1) =
        call_user (\<lambda>f cl w. []) demo_os (Some 0) (OnConnection 8) v"
    by (auto simp: A int_max_def)
  then show ?thesis by (simp add: call_user_def server_with_def)
qed

end
