(* ===== verification/Spec2Isabelle.thy ===== *)
theory Spec2Isabelle
  imports LoopProtocol LoopThread ServerLifecycle ConnectionLifetime ServerTeardown WellTyped Draining EchoMain Logging
    CrossLoop StrandedWork HighWater Schedules Awake AcceptPath
begin

text \<open>
  A verification development for the SZMuduo network library, a reactor in C++ after muduo
  (\<open>src/src\<close>, with the example server \<open>src/example/testserver.cc\<close>).

  \<^bold>\<open>The program.\<close> An \<open>EventLoop\<close> belongs to one thread and repeats: wait in its poller,
  run the handlers of the channels reported, run the functors queued meanwhile. A \<open>Channel\<close> is a
  descriptor with an interest mask and four callbacks; it registers itself with the
  \<open>EPollPoller\<close> of its loop. Other threads reach a loop only by \<open>queueInLoop\<close> and
  \<open>quit\<close>, which wake it by an eventfd. The \<open>Acceptor\<close> of a \<open>TcpServer\<close> hands
  accepted descriptors to \<open>newConnection\<close>, which deals each to a loop of the
  \<open>EventLoopThreadPool\<close> and keeps the \<open>TcpConnection\<close> in a map by name. A connection reads
  into one \<open>Buffer\<close> and writes directly or through another; closing removes it from the map in
  the server's thread and destroys it in its own loop's.

  \<^bold>\<open>Theories\<close>, from the bottom up.

  \<^item> \<open>Prelude\<close>: machine types (\<open>size_t\<close> is 64 bits, \<open>c_int\<close> 32), the kinds of
  failure, \<open>bnd\<close> and \<open>run\<close> for steps that can fail, \<open>std::copy\<close>, \<open>vector::resize\<close>,
  decimal numerals.
  \<^item> \<open>Kernel\<close>: the operating system as a record \<open>os\<close> of answers, each a function of the
  calls made so far; the trace of those calls is the first field of the world and all a theorem can
  say about the outside. The predicates \<open>readv_contract\<close>, \<open>write_contract\<close>,
  \<open>epoll_ctl_contract\<close>, \<open>epoll_wait_contract\<close> and \<open>eventfd_contract\<close> state documented
  behaviour of Linux; \<open>demo_os\<close>, \<open>ready_os\<close> and \<open>eventfd_os\<close> satisfy them. The
  predicates \<open>write_progress\<close> and \<open>takes_bytes\<close> are not such guarantees: they are conditions under which
  output drains.
  \<^item> \<open>ByteFifo\<close>, \<open>Buffer\<close> (\<open>Buffer.h\<close>, \<open>Buffer.cc\<close>): the byte-queue
  contract as a locale; the buffer with its 64-bit indices, out-of-range copies as failures, and its
  interpretation of the locale.
  \<^item> \<open>Channel\<close> (\<open>Channel.h\<close>, \<open>Channel.cc\<close>): masks, tie, dispatch order.
  \<^item> \<open>EPollPoller\<close> (\<open>Poller\<close>, \<open>DefaultPoller\<close>, \<open>EPollPoller\<close>):
  registration, removal and polling. \<open>poller_inv\<close> says that map, channel indices and the
  kernel's interest list agree. The \<open>epoll_data\<close> union is modelled bit by bit.
  \<^item> \<open>InterestRegistry\<close>: what the owner of a channel may rely on, as a locale with an
  abstract table of interests; interpreted in \<open>EventLoop\<close> on the operations of a whole loop.
  \<^item> \<open>EventLoop\<close> (\<open>EventLoop.h\<close>, \<open>EventLoop.cc\<close>): every operation as the thread
  that calls it executes it. \<open>loop()\<close> is a partial function, so that not returning is
  \<open>None\<close>; it calls for no fuel.
  \<^item> \<open>Interleaving\<close>: runs of labelled steps, their composition, invariants and bounds, as a
  locale that the next theory and \<open>LoopThread\<close> interpret.
  \<^item> \<open>LoopProtocol\<close>: the same loop and its clients as a step relation on the shared queue,
  flags and eventfd counter, one step per critical section or flag access; invariants by rule
  induction, and the sequential operations of a client as its runs.
  \<^item> \<open>Net\<close> (\<open>InetAddress\<close>, \<open>Socket\<close>), \<open>Acceptor\<close>.
  \<^item> \<open>TcpConnection\<close> (\<open>TcpConnection.h\<close>, \<open>TcpConnection.cc\<close>): state machine,
  handlers, sending and half-close. \<open>out_stream\<close>, the bytes the kernel took followed by those
  still buffered, is the abstraction; \<open>conn_ok\<close> and \<open>fin_ok\<close> the invariant.
  \<^item> \<open>Draining\<close>: when the output empties and the write side is shut.
  \<^item> \<open>Threads\<close> (\<open>CurrentThread\<close>, \<open>Thread\<close>, \<open>EventLoopThread\<close>,
  \<open>EventLoopThreadPool\<close>): every operation in one step of the calling thread.
  \<^item> \<open>LoopThread\<close> (\<open>Thread::start\<close>, \<open>EventLoopThread\<close>): starter, new thread and destructor
  interleaved over semaphore, mutex, condition variable and the unguarded pointer. The start agrees
  with the one step of \<open>Threads\<close>; a measure bounds its schedules; what the destructor can meet.
  \<^item> \<open>UserFrame\<close>, \<open>TcpServer\<close>, \<open>ServerLifecycle\<close> (\<open>TcpServer.h\<close>,
  \<open>TcpServer.cc\<close>): what user callbacks leave alone; the server, and with \<open>exec_functor\<close>,
  \<open>invoke\<close> and \<open>server_round\<close> the composition of the whole library; the server's invariant
  over every start, round, callback and functor. \<open>ConnectionLifetime\<close>: a close and the round that
  destroys the connection, together. \<open>CrossLoop\<close>: the whole life of a connection whose loop another
  thread runs, through the queues of both loops. \<open>ServerTeardown\<close>: the server's destructor;
  \<open>StrandedWork\<close>: with connections in other loops. \<open>HighWater\<close>: the mark and its callback.
  \<open>AcceptPath\<close>: from the listening socket through \<open>Socket::accept\<close> to the registered connection.
  \<^item> \<open>WellTyped\<close>: what every operation does to the tables of channels, connections and loops
  (\<open>store_frame\<close>), and the locales \<open>turn_invariant\<close> and \<open>round_invariant\<close>, which lift a property of
  the tables to rounds and to all runs of a server; interpreted for the typing of all objects and for
  a loop's clear quit flag.
  \<^item> \<open>Schedules\<close>: the loops of a server interleaved at every poll, handler and functor; the
  invariants under every schedule, and whole rounds as some of the schedules.
  \<^item> \<open>Awake\<close>: the functors of the library, for any user code, raise the wake-up counter for what
  they push on the queue of the loop that runs them (\<open>noticed\<close>, carried through every operation); so a
  round of \<open>doPendingFunctors\<close> is a definite run of the protocol of \<open>LoopProtocol\<close>.
  \<^item> \<open>EchoServer\<close> and \<open>EchoMain\<close> (\<open>testserver.cc\<close>): the callbacks; \<open>main\<close>, with not
  returning as \<open>None\<close>. \<open>Logging\<close> (\<open>Logger\<close>, \<open>Timestamp\<close>).

  \<^bold>\<open>State.\<close> A class is a record with the source's members; objects that are shared live in
  tables of the world by address (channels), by number (loops, connections) or by address (strings
  whose characters a functor points to). The world is extended layer by layer: \<open>kworld\<close> (trace),
  \<open>chworld\<close> (channels), \<open>lworld\<close> (loops, threads), \<open>cworld\<close> (connections, strings,
  calls of user callbacks), \<open>sworld\<close> (the server). An operation takes the world to a world or a
  \<open>failure\<close>: a fatal log, a null or dangling pointer, an empty \<open>std::function\<close>, a copy out
  of bounds, \<open>length_error\<close>, a signed overflow.

  \<^bold>\<open>What the properties show.\<close> Bytes: buffers are queues as long as no retrieve asks for more than is there, and hand out
  bytes never received otherwise; a connection's output is exactly
  what was sent, in order, but for the sends refused because the peer was gone; it drains over a
  kernel that takes bytes, and the half-close comes exactly at its end; the example echoes
  what it was sent under the same conditions. Registration: no sequence of interest changes makes poller and kernel disagree.
  Concurrency: no wake-up is lost but for functors a loop queues before it runs, functors run once and in order, a quit inside \<open>loop()\<close> is
  seen; starting a loop thread looks like one step and returns, and the destructor of a loop that runs
  on joins. Server: names are unique and the map holds live connections only, every object stays
  well-typed, under every schedule of its loops; what a new, a closed and a destroyed connection, and a destroyed server, leave behind, and that
  the hand-overs between two loops add up to a whole life; the
  example serves until something fails. Defects, each as a theorem on the code as
  it is: the poller's union clobbers the channel pointer, a quit or functor before \<open>loop()\<close> is
  lost or sleeps, a send from another thread dangles, a hang-up closes twice, the high-water callback
  is called unset, a server's destructor can strand the connections of other loops, \<open>accept\<close> reads an unset length, log levels race, a loop that ends by itself hangs
  the start or races with the destructor of its thread.

  \<^bold>\<open>Parameters.\<close> \<open>os\<close>, the kernel. \<open>user\<close>, the user's callbacks: for each call
  the list of library calls made in it, chosen from the whole state. \<open>fresh\<close>, the allocator:
  \<open>gives_fresh\<close> and \<open>gives_new\<close> say a new object is not a live one. \<open>len\<close>, the length \<open>accept\<close> is
  given unset. \<open>supply\<close>, the thread, loop and channel a new thread gets. \<open>init\<close>, the user's
  thread-init callback, with \<open>init_keeps\<close> or \<open>init_typed\<close>. \<open>order\<close>, the order in which the hash map
  lists its keys, with \<open>lists_keys\<close>. \<open>inet_addr\<close> and \<open>localtime\<close> of the C
  library.

  \<^bold>\<open>Bounds.\<close> Buffer theorems assume the bytes fit below 2 to the 63, the largest vector;
  that is what an append needs to succeed, and beyond it the theory \<open>Buffer\<close> shows the exception.
  The typing of all objects holds as long as one of the 2 to the 64 addresses holds no channel.

  \<^bold>\<open>Not modelled.\<close> Lines of \<open>LOG_INFO\<close> and \<open>LOG_DEBUG\<close> leave no trace outside
  \<open>Logging\<close>, and no line changes \<open>errno\<close>. \<open>std::bad_alloc\<close> does not happen. The
  release of a connection by its last \<open>shared_ptr\<close> is an explicit operation, not scheduled. The
  user's callbacks send, shut down, take input and set the callbacks of connections, but not the
  close callback, which is the server's; they end no loop. The
  loops of a server are interleaved at their polls, handlers and functors, each of which runs as a
  whole; accesses inside one of these are interleaved in \<open>LoopProtocol\<close> and \<open>LoopThread\<close> only. \<open>noncopyable.h\<close> and the build scripts have no behaviour.
\<close>

end
